(* ===== verification/Badvpn_Prelude.thy ===== *)
theory Badvpn_Prelude
  imports Main "HOL-Library.Word"
begin

text \<open>
  Shared vocabulary of the development: the names of the C integer types, the byte memories
  that buffers and packets live in, the limits of the C types, the contract of a fixed-width
  field codec, and the generic list and word lemmas that the component theories rely on.
\<close>

unbundle bit_operations_syntax

type_synonym u8 = "8 word"
type_synonym u16 = "16 word"
type_synonym u32 = "32 word"
type_synonym u64 = "64 word"
type_synonym bytes = "u8 list"

text \<open>\<open>size_t\<close> and \<open>uintmax_t\<close> are 64 bits wide on the platforms the build files target.\<close>

type_synonym size_t = "64 word"

named_theorems wire_simps \<open>reading back what a field writer stored\<close>
named_theorems wire_len \<open>widths of encoded fields\<close>

definition INT_MAX :: int where "INT_MAX = 2147483647"
definition INT_MIN :: int where "INT_MIN = - 2147483648"
definition UINT16_MAX :: int where "UINT16_MAX = 65535"
definition UINT32_MAX :: int where "UINT32_MAX = 4294967295"
definition SIZE_MAX :: int where "SIZE_MAX = 18446744073709551615"

definition in_int_range :: "int \<Rightarrow> bool" where
  "in_int_range x \<longleftrightarrow> INT_MIN \<le> x \<and> x \<le> INT_MAX"

lemmas c_limits = INT_MAX_def INT_MIN_def UINT16_MAX_def UINT32_MAX_def SIZE_MAX_def

subsection \<open>Byte memories\<close>

text \<open>
  A buffer is a list of bytes. \<open>mem_write m p bs\<close> is a \<open>memcpy\<close> of \<open>bs\<close> to offset \<open>p\<close>,
  \<open>mem_read m p n\<close> reads \<open>n\<close> bytes from offset \<open>p\<close>. Both are only meaningful inside the
  buffer; the theorems that use them prove that every access is.
\<close>

definition mem_write :: "'a list \<Rightarrow> nat \<Rightarrow> 'a list \<Rightarrow> 'a list" where
  "mem_write m p bs = take p m @ bs @ drop (p + length bs) m"

definition mem_read :: "'a list \<Rightarrow> nat \<Rightarrow> nat \<Rightarrow> 'a list" where
  "mem_read m p n = take n (drop p m)"

lemma length_mem_write [simp]:
  "p + length bs \<le> length m \<Longrightarrow> length (mem_write m p bs) = length m"
  by (simp add: mem_write_def)

lemma length_mem_read [simp]:
  "p + n \<le> length m \<Longrightarrow> length (mem_read m p n) = n"
  by (simp add: mem_read_def)

lemma mem_write_Nil [simp]: "mem_write m p [] = m"
  by (simp add: mem_write_def)

lemma nth_mem_write:
  assumes "p + length bs \<le> length m" and "i < length m"
  shows "mem_write m p bs ! i =
    (if i < p then m ! i else if i < p + length bs then bs ! (i - p) else m ! i)"
  using assms by (auto simp: mem_write_def nth_append min_def)

lemma nth_mem_read: "i < n \<Longrightarrow> p + n \<le> length m \<Longrightarrow> mem_read m p n ! i = m ! (p + i)"
  by (simp add: mem_read_def)

lemma mem_read_write_same [simp]:
  "p + length bs \<le> length m \<Longrightarrow> mem_read (mem_write m p bs) p (length bs) = bs"
  by (simp add: mem_read_def mem_write_def)

lemma mem_read_write_other:
  assumes "p + length bs \<le> length m" and "q + n \<le> length m" and "q + n \<le> p \<or> p + length bs \<le> q"
  shows "mem_read (mem_write m p bs) q n = mem_read m q n"
proof (rule nth_equalityI)
  show "length (mem_read (mem_write m p bs) q n) = length (mem_read m q n)"
    using assms by simp
next
  fix i assume "i < length (mem_read (mem_write m p bs) q n)"
  with assms have i: "i < n" by simp
  with assms show "mem_read (mem_write m p bs) q n ! i = mem_read m q n ! i"
    by (auto simp: nth_mem_read nth_mem_write)
qed

lemma mem_read_append:
  "mem_read m p (a + b) = mem_read m p a @ mem_read m (p + a) b"
  by (simp add: mem_read_def take_add add.commute)

subsection \<open>Words and bytes\<close>

lemma ucast_byte_eq [simp]:
  "LENGTH('a) \<ge> 8 \<Longrightarrow> ucast (ucast (b :: u8) :: 'a :: len word) = b"
  by (rule bit_word_eqI) (auto simp: bit_simps)

lemma unat_ucast_up_byte: "LENGTH('a) \<ge> 8 \<Longrightarrow> unat (ucast (b :: u8) :: 'a :: len word) = unat b"
  by (transfer) (simp add: take_bit_take_bit min_def)

lemma unat_max_word: "unat (-1 :: 'a :: len word) = 2 ^ LENGTH('a) - 1"
  by transfer (simp add: mask_eq_exp_minus_1 nat_diff_distrib nat_power_eq flip: mask_eq_take_bit_minus_one)

lemma of_nat_eq_iff_unat:
  assumes "k < 2 ^ LENGTH('a)"
  shows "of_nat k = (n :: 'a :: len word) \<longleftrightarrow> unat n = k"
proof
  assume "of_nat k = n"
  then show "unat n = k" using assms by (auto simp: unat_of_nat)
next
  assume "unat n = k"
  then have "of_nat k = (of_nat (unat n) :: 'a word)" by simp
  then show "of_nat k = n" by (simp)
qed

lemma uint_of_nat_small: "k < 2 ^ LENGTH('a) \<Longrightarrow> uint (of_nat k :: 'a :: len word) = int k"
  by (subst uint_nat) (simp add: unat_of_nat)

text \<open>Masking and shifting as arithmetic.\<close>

lemma unat_and_not_mask: "unat ((b :: 'a :: len word) AND NOT (mask k)) = unat b div 2 ^ k * 2 ^ k"
proof -
  have "b AND NOT (mask k) = push_bit k (drop_bit k b)"
    by (rule bit_word_eqI) (auto simp: bit_simps bit_imp_le_length)
  moreover have "unat b div 2 ^ k * 2 ^ k < 2 ^ LENGTH('a)"
    using div_times_less_eq_dividend [of "unat b" "2 ^ k"] unsigned_less [of b] by (rule le_less_trans)
  ultimately show ?thesis
    by (simp only: unsigned_push_bit_eq unsigned_drop_bit_eq)
      (simp add: push_bit_eq_mult drop_bit_eq_div take_bit_nat_eq_self)
qed

lemma unat_and_mask: "unat ((b :: 'a :: len word) AND mask k) = unat b mod 2 ^ k"
  by (simp only: take_bit_eq_mask [symmetric] unsigned_take_bit_eq) (simp add: take_bit_eq_mod)

lemma nat_or_disjoint:
  assumes "2 ^ k dvd a" "b < 2 ^ k"
  shows "(a :: nat) OR b = a + b"
proof -
  obtain c where a: "a = push_bit k c" using assms by (auto simp: push_bit_eq_mult)
  have b: "take_bit k b = b" using assms by (simp add: take_bit_nat_eq_self)
  have "push_bit k c AND take_bit k b = 0"
    by (rule bit_eqI) (auto simp: bit_simps)
  then show ?thesis by (simp add: a b disjunctive_add_eq_or)
qed

lemma unat_or_disjoint:
  "2 ^ k dvd unat x \<Longrightarrow> unat y < 2 ^ k \<Longrightarrow> unat (x OR y) = unat x + unat (y :: 'a :: len word)"
  by (simp add: unsigned_or_eq nat_or_disjoint)

lemma unat_shiftr: "unat (drop_bit k (x :: 'a :: len word)) = unat x div 2 ^ k"
  by (simp only: unsigned_drop_bit_eq) (simp add: drop_bit_eq_div take_bit_nat_eq_self)

lemma unat_shiftl:
  "unat x * 2 ^ k < 2 ^ LENGTH('a) \<Longrightarrow> unat (push_bit k (x :: 'a :: len word)) = unat x * 2 ^ k"
  by (simp only: unsigned_push_bit_eq) (simp add: push_bit_eq_mult take_bit_nat_eq_self)

lemma unat_ucast_down:
  "LENGTH('b) \<le> LENGTH('a) \<Longrightarrow> unat (ucast (x :: 'a :: len word) :: 'b :: len word) = unat x mod 2 ^ LENGTH('b)"
  by (simp add: unsigned_ucast_eq take_bit_eq_mod)

lemma unat_ucast_up:
  "LENGTH('a) \<le> LENGTH('b) \<Longrightarrow> unat (ucast (x :: 'a :: len word) :: 'b :: len word) = unat x"
  by transfer (simp add: take_bit_take_bit min_def)

lemma unat_lt: "unat (x :: 'a :: len word) < 2 ^ LENGTH('a)"
  by (rule unsigned_less)

lemma unat_byte_le: "unat (b :: u8) \<le> 255"
  using unat_lt [of b] by simp

lemma unat_u16_le: "unat (x :: u16) \<le> 65535"
  using unat_lt [of x] by simp

lemma unat_u32_le: "unat (x :: u32) \<le> 4294967295"
  using unat_lt [of x] by simp

lemma unat_not: "unat (NOT x :: 'a :: len word) = 2 ^ LENGTH('a) - 1 - unat x"
proof -
  have "NOT x = -1 - x" by (simp add: not_eq_complement)
  then show ?thesis by (simp add: unat_sub unat_max_word)
qed

subsection \<open>Fixed-width field codecs\<close>

text \<open>
  The contract of a pair of routines that store a value into a fixed number of bytes and read
  it back. Every multi-byte field of the wire formats goes through such a pair.
\<close>

locale field_codec =
  fixes put :: "'v \<Rightarrow> bytes" and get :: "bytes \<Rightarrow> 'v" and width :: nat
  assumes put_width: "length (put v) = width"
    and get_put: "get (put v) = v"
    and put_get: "length bs = width \<Longrightarrow> put (get bs) = bs"
begin

lemma put_inj: "put v = put w \<longleftrightarrow> v = w"
  by (metis get_put)

lemma get_take_put: "get (take width (put v @ rest)) = v"
  by (simp add: put_width get_put)

lemma drop_put: "drop width (put v @ rest) = rest"
  by (simp add: put_width)

lemma mem_read_written:
  assumes "p + width \<le> length m"
  shows "get (mem_read (mem_write m p (put v)) p width) = v"
  using assms put_width [of v] get_put [of v] mem_read_write_same [of p "put v" m] by simp

end

end
