(* ===== verification/Byteorder.thy ===== *)
theory Byteorder
  imports Badvpn_Prelude
begin

text \<open>
  Integers and bytes: \<open>src/misc/byteorder.h\<close> (byte reversal and the conversions between host,
  network and little-endian order) and \<open>src/misc/read_write_int.h\<close> (reading and writing
  integers at byte pointers). The host's own byte order is a parameter, as it is a build-time
  choice of the source, and the wire images are shown not to depend on it.
\<close>

subsection \<open>Little-endian images of words\<close>

definition le_bytes :: "nat \<Rightarrow> 'a :: len word \<Rightarrow> bytes" where
  "le_bytes n x = map (\<lambda>i. ucast (drop_bit (8 * i) x)) [0..<n]"

primrec le_word :: "bytes \<Rightarrow> 'a :: len word" where
  "le_word [] = 0"
| "le_word (b # bs) = ucast b OR push_bit 8 (le_word bs)"

lemma length_le_bytes [simp, wire_len]: "length (le_bytes n x) = n"
  by (simp add: le_bytes_def)

lemma bit_le_word:
  "bit (le_word bs :: 'a :: len word) i \<longleftrightarrow>
     i < LENGTH('a) \<and> i div 8 < length bs \<and> bit (bs ! (i div 8)) (i mod 8)"
proof (induction bs arbitrary: i)
  case Nil
  then show ?case by simp
next
  case (Cons b bs)
  show ?case
  proof (cases "i < 8")
    case True
    then show ?thesis by (auto simp: bit_simps)
  next
    case False
    then have i: "i div 8 = Suc ((i - 8) div 8)" "i mod 8 = (i - 8) mod 8"
      by (simp_all add: le_div_geq le_mod_geq)
    from False have "\<not> bit b i"
      by (simp add: bit_word.rep_eq [of b] not_less)
    with False i show ?thesis
      by (auto simp: bit_simps Cons.IH)
  qed
qed

lemma le_word_le_bytes:
  assumes "LENGTH('a) = 8 * n"
  shows "le_word (le_bytes n (x :: 'a :: len word)) = x"
proof (rule bit_word_eqI)
  fix i assume "i < LENGTH('a)"
  with assms have "i div 8 < n" by auto
  with \<open>i < LENGTH('a)\<close> show "bit (le_word (le_bytes n x) :: 'a word) i \<longleftrightarrow> bit x i"
    by (auto simp: bit_le_word le_bytes_def bit_simps)
qed

lemma le_bytes_le_word:
  assumes "LENGTH('a) = 8 * n" and "length bs = n"
  shows "le_bytes n (le_word bs :: 'a :: len word) = bs"
proof (rule nth_equalityI)
  show "length (le_bytes n (le_word bs :: 'a word)) = length bs"
    using assms by simp
next
  fix i assume "i < length (le_bytes n (le_word bs :: 'a word))"
  then have i: "i < n" by simp
  show "le_bytes n (le_word bs :: 'a word) ! i = bs ! i"
  proof (rule bit_word_eqI)
    fix j assume "j < LENGTH(8)"
    then have j: "j < 8" by simp
    then have "(8 * i + j) div 8 = i" "(8 * i + j) mod 8 = j" by auto
    moreover from i j assms have "8 * i + j < LENGTH('a)" by simp
    ultimately show "bit (le_bytes n (le_word bs :: 'a word) ! i) j \<longleftrightarrow> bit (bs ! i) j"
      using i j assms by (auto simp: le_bytes_def bit_simps bit_le_word)
  qed
qed

lemma field_codec_le:
  "LENGTH('a) = 8 * n \<Longrightarrow> field_codec (le_bytes n) (le_word :: bytes \<Rightarrow> 'a :: len word) n"
  by unfold_locales (simp_all add: le_word_le_bytes le_bytes_le_word)

lemma field_codec_be:
  "LENGTH('a) = 8 * n \<Longrightarrow>
     field_codec (\<lambda>x. rev (le_bytes n x)) (\<lambda>bs. le_word (rev bs) :: 'a :: len word) n"
  by unfold_locales (simp_all add: le_word_le_bytes le_bytes_le_word)

subsection \<open>The host's memory image of an integer\<close>

datatype host = BADVPN_LITTLE_ENDIAN | BADVPN_BIG_ENDIAN

text \<open>What \<open>memcpy\<close> from and to an integer object sees: its bytes in host order.\<close>

fun host_store :: "host \<Rightarrow> nat \<Rightarrow> 'a :: len word \<Rightarrow> bytes" where
  "host_store BADVPN_LITTLE_ENDIAN n x = le_bytes n x"
| "host_store BADVPN_BIG_ENDIAN n x = rev (le_bytes n x)"

fun host_load :: "host \<Rightarrow> bytes \<Rightarrow> 'a :: len word" where
  "host_load BADVPN_LITTLE_ENDIAN bs = le_word bs"
| "host_load BADVPN_BIG_ENDIAN bs = le_word (rev bs)"

lemma length_host_store [simp, wire_len]: "length (host_store h n x) = n"
  by (cases h) simp_all

lemma host_load_store:
  "LENGTH('a) = 8 * n \<Longrightarrow> host_load h (host_store h n (x :: 'a :: len word)) = x"
  by (cases h) (simp_all add: le_word_le_bytes)

lemma host_store_load:
  "LENGTH('a) = 8 * n \<Longrightarrow> length bs = n \<Longrightarrow> host_store h n (host_load h bs :: 'a :: len word) = bs"
  by (cases h) (simp_all add: le_bytes_le_word)

subsection \<open>Byte reversal and order conversion\<close>

definition badvpn_reverse16 :: "host \<Rightarrow> u16 \<Rightarrow> u16" where
  "badvpn_reverse16 h x = (let b = host_store h 2 x in host_load h [b ! 1, b ! 0])"

definition badvpn_reverse32 :: "host \<Rightarrow> u32 \<Rightarrow> u32" where
  "badvpn_reverse32 h x = (let b = host_store h 4 x in host_load h [b ! 3, b ! 2, b ! 1, b ! 0])"

definition badvpn_reverse64 :: "host \<Rightarrow> u64 \<Rightarrow> u64" where
  "badvpn_reverse64 h x = (let b = host_store h 8 x in
     host_load h [b ! 7, b ! 6, b ! 5, b ! 4, b ! 3, b ! 2, b ! 1, b ! 0])"

definition hton8 :: "u8 \<Rightarrow> u8" where "hton8 x = x"
definition htol8 :: "u8 \<Rightarrow> u8" where "htol8 x = x"

fun hton16 :: "host \<Rightarrow> u16 \<Rightarrow> u16" where
  "hton16 BADVPN_LITTLE_ENDIAN x = badvpn_reverse16 BADVPN_LITTLE_ENDIAN x"
| "hton16 BADVPN_BIG_ENDIAN x = x"

fun hton32 :: "host \<Rightarrow> u32 \<Rightarrow> u32" where
  "hton32 BADVPN_LITTLE_ENDIAN x = badvpn_reverse32 BADVPN_LITTLE_ENDIAN x"
| "hton32 BADVPN_BIG_ENDIAN x = x"

fun hton64 :: "host \<Rightarrow> u64 \<Rightarrow> u64" where
  "hton64 BADVPN_LITTLE_ENDIAN x = badvpn_reverse64 BADVPN_LITTLE_ENDIAN x"
| "hton64 BADVPN_BIG_ENDIAN x = x"

fun htol16 :: "host \<Rightarrow> u16 \<Rightarrow> u16" where
  "htol16 BADVPN_LITTLE_ENDIAN x = x"
| "htol16 BADVPN_BIG_ENDIAN x = badvpn_reverse16 BADVPN_BIG_ENDIAN x"

fun htol32 :: "host \<Rightarrow> u32 \<Rightarrow> u32" where
  "htol32 BADVPN_LITTLE_ENDIAN x = x"
| "htol32 BADVPN_BIG_ENDIAN x = badvpn_reverse32 BADVPN_BIG_ENDIAN x"

fun htol64 :: "host \<Rightarrow> u64 \<Rightarrow> u64" where
  "htol64 BADVPN_LITTLE_ENDIAN x = x"
| "htol64 BADVPN_BIG_ENDIAN x = badvpn_reverse64 BADVPN_BIG_ENDIAN x"

definition ntoh8 :: "u8 \<Rightarrow> u8" where "ntoh8 x = hton8 x"
definition ntoh16 :: "host \<Rightarrow> u16 \<Rightarrow> u16" where "ntoh16 h x = hton16 h x"
definition ntoh32 :: "host \<Rightarrow> u32 \<Rightarrow> u32" where "ntoh32 h x = hton32 h x"
definition ntoh64 :: "host \<Rightarrow> u64 \<Rightarrow> u64" where "ntoh64 h x = hton64 h x"
definition ltoh8 :: "u8 \<Rightarrow> u8" where "ltoh8 x = htol8 x"
definition ltoh16 :: "host \<Rightarrow> u16 \<Rightarrow> u16" where "ltoh16 h x = htol16 h x"
definition ltoh32 :: "host \<Rightarrow> u32 \<Rightarrow> u32" where "ltoh32 h x = htol32 h x"
definition ltoh64 :: "host \<Rightarrow> u64 \<Rightarrow> u64" where "ltoh64 h x = htol64 h x"

subsection \<open>Reading and writing integers at byte pointers\<close>

text \<open>
  A pointer into a buffer is the suffix of the buffer it points at; a writer is given by the
  bytes it stores, in address order.
\<close>

definition badvpn_read_le8 :: "bytes \<Rightarrow> u8" where
  "badvpn_read_le8 p = push_bit 0 (p ! 0)"

definition badvpn_read_le16 :: "bytes \<Rightarrow> u16" where
  "badvpn_read_le16 p = push_bit 8 (ucast (p ! 1)) OR push_bit 0 (ucast (p ! 0))"

definition badvpn_read_le32 :: "bytes \<Rightarrow> u32" where
  "badvpn_read_le32 p = push_bit 24 (ucast (p ! 3)) OR push_bit 16 (ucast (p ! 2)) OR
     push_bit 8 (ucast (p ! 1)) OR push_bit 0 (ucast (p ! 0))"

definition badvpn_read_le64 :: "bytes \<Rightarrow> u64" where
  "badvpn_read_le64 p = push_bit 56 (ucast (p ! 7)) OR push_bit 48 (ucast (p ! 6)) OR
     push_bit 40 (ucast (p ! 5)) OR push_bit 32 (ucast (p ! 4)) OR
     push_bit 24 (ucast (p ! 3)) OR push_bit 16 (ucast (p ! 2)) OR
     push_bit 8 (ucast (p ! 1)) OR push_bit 0 (ucast (p ! 0))"

definition badvpn_read_be8 :: "bytes \<Rightarrow> u8" where
  "badvpn_read_be8 p = push_bit 0 (p ! 0)"

definition badvpn_read_be16 :: "bytes \<Rightarrow> u16" where
  "badvpn_read_be16 p = push_bit 8 (ucast (p ! 0)) OR push_bit 0 (ucast (p ! 1))"

definition badvpn_read_be32 :: "bytes \<Rightarrow> u32" where
  "badvpn_read_be32 p = push_bit 24 (ucast (p ! 0)) OR push_bit 16 (ucast (p ! 1)) OR
     push_bit 8 (ucast (p ! 2)) OR push_bit 0 (ucast (p ! 3))"

definition badvpn_read_be64 :: "bytes \<Rightarrow> u64" where
  "badvpn_read_be64 p = push_bit 56 (ucast (p ! 0)) OR push_bit 48 (ucast (p ! 1)) OR
     push_bit 40 (ucast (p ! 2)) OR push_bit 32 (ucast (p ! 3)) OR
     push_bit 24 (ucast (p ! 4)) OR push_bit 16 (ucast (p ! 5)) OR
     push_bit 8 (ucast (p ! 6)) OR push_bit 0 (ucast (p ! 7))"

definition badvpn_write_le8 :: "u8 \<Rightarrow> bytes" where
  "badvpn_write_le8 x = [drop_bit 0 x]"

definition badvpn_write_le16 :: "u16 \<Rightarrow> bytes" where
  "badvpn_write_le16 x = [ucast (drop_bit 0 x), ucast (drop_bit 8 x)]"

definition badvpn_write_le32 :: "u32 \<Rightarrow> bytes" where
  "badvpn_write_le32 x =
     [ucast (drop_bit 0 x), ucast (drop_bit 8 x), ucast (drop_bit 16 x), ucast (drop_bit 24 x)]"

definition badvpn_write_le64 :: "u64 \<Rightarrow> bytes" where
  "badvpn_write_le64 x =
     [ucast (drop_bit 0 x), ucast (drop_bit 8 x), ucast (drop_bit 16 x), ucast (drop_bit 24 x),
      ucast (drop_bit 32 x), ucast (drop_bit 40 x), ucast (drop_bit 48 x), ucast (drop_bit 56 x)]"

definition badvpn_write_be8 :: "u8 \<Rightarrow> bytes" where
  "badvpn_write_be8 x = [drop_bit 0 x]"

definition badvpn_write_be16 :: "u16 \<Rightarrow> bytes" where
  "badvpn_write_be16 x = [ucast (drop_bit 8 x), ucast (drop_bit 0 x)]"

definition badvpn_write_be32 :: "u32 \<Rightarrow> bytes" where
  "badvpn_write_be32 x =
     [ucast (drop_bit 24 x), ucast (drop_bit 16 x), ucast (drop_bit 8 x), ucast (drop_bit 0 x)]"

definition badvpn_write_be64 :: "u64 \<Rightarrow> bytes" where
  "badvpn_write_be64 x =
     [ucast (drop_bit 56 x), ucast (drop_bit 48 x), ucast (drop_bit 40 x), ucast (drop_bit 32 x),
      ucast (drop_bit 24 x), ucast (drop_bit 16 x), ucast (drop_bit 8 x), ucast (drop_bit 0 x)]"

subsection \<open>The readers and writers are the byte images\<close>

lemma upt_small: "[0..<2] = [0, 1 :: nat]" "[0..<4] = [0, 1, 2, 3 :: nat]"
  "[0..<8] = [0, 1, 2, 3, 4, 5, 6, 7 :: nat]"
  by (simp_all add: upt_rec)

lemma badvpn_write_le_eq:
  "badvpn_write_le16 x16 = le_bytes 2 x16" "badvpn_write_le32 x32 = le_bytes 4 x32"
  "badvpn_write_le64 x64 = le_bytes 8 x64"
  by (simp_all add: badvpn_write_le16_def badvpn_write_le32_def badvpn_write_le64_def
      le_bytes_def upt_small)

lemma badvpn_write_be_eq:
  "badvpn_write_be16 x16 = rev (le_bytes 2 x16)" "badvpn_write_be32 x32 = rev (le_bytes 4 x32)"
  "badvpn_write_be64 x64 = rev (le_bytes 8 x64)"
  by (simp_all add: badvpn_write_be16_def badvpn_write_be32_def badvpn_write_be64_def
      le_bytes_def upt_small)

lemma length2E: assumes "length xs = 2" obtains a b where "xs = [a, b]"
  using assms by (auto simp: numeral_2_eq_2 length_Suc_conv)

lemma length4E: assumes "length xs = 4" obtains a b c d where "xs = [a, b, c, d]"
  using assms by (auto simp: eval_nat_numeral length_Suc_conv)

lemma length8E:
  assumes "length xs = 8" obtains a b c d e f g h where "xs = [a, b, c, d, e, f, g, h]"
  using assms by (auto simp: eval_nat_numeral length_Suc_conv)

lemmas read_defs = badvpn_read_le16_def badvpn_read_le32_def badvpn_read_le64_def
  badvpn_read_be16_def badvpn_read_be32_def badvpn_read_be64_def

lemma badvpn_read_le16_eq: "length bs = 2 \<Longrightarrow> badvpn_read_le16 bs = le_word bs"
  by (erule length2E) (simp add: read_defs push_bit_or or.commute)

lemma badvpn_read_le32_eq: "length bs = 4 \<Longrightarrow> badvpn_read_le32 bs = le_word bs"
  by (erule length4E) (simp add: read_defs push_bit_or or.commute or.left_commute)

lemma badvpn_read_le64_eq: "length bs = 8 \<Longrightarrow> badvpn_read_le64 bs = le_word bs"
  by (erule length8E) (simp add: read_defs push_bit_or or.commute or.left_commute)

lemma badvpn_read_be16_eq: "length bs = 2 \<Longrightarrow> badvpn_read_be16 bs = le_word (rev bs)"
  by (erule length2E) (simp add: read_defs push_bit_or or.commute)

lemma badvpn_read_be32_eq: "length bs = 4 \<Longrightarrow> badvpn_read_be32 bs = le_word (rev bs)"
  by (erule length4E) (simp add: read_defs push_bit_or or.commute or.left_commute)

lemma badvpn_read_be64_eq: "length bs = 8 \<Longrightarrow> badvpn_read_be64 bs = le_word (rev bs)"
  by (erule length8E) (simp add: read_defs push_bit_or or.commute or.left_commute)

lemmas read_eqs = badvpn_read_le16_eq badvpn_read_le32_eq badvpn_read_le64_eq
  badvpn_read_be16_eq badvpn_read_be32_eq badvpn_read_be64_eq

interpretation le16: field_codec badvpn_write_le16 badvpn_read_le16 2
  by unfold_locales (simp_all add: badvpn_write_le_eq read_eqs le_word_le_bytes le_bytes_le_word)

interpretation le32: field_codec badvpn_write_le32 badvpn_read_le32 4
  by unfold_locales (simp_all add: badvpn_write_le_eq read_eqs le_word_le_bytes le_bytes_le_word)

interpretation le64: field_codec badvpn_write_le64 badvpn_read_le64 8
  by unfold_locales (simp_all add: badvpn_write_le_eq read_eqs le_word_le_bytes le_bytes_le_word)

interpretation be16: field_codec badvpn_write_be16 badvpn_read_be16 2
  by unfold_locales (simp_all add: badvpn_write_be_eq read_eqs le_word_le_bytes le_bytes_le_word)

interpretation be32: field_codec badvpn_write_be32 badvpn_read_be32 4
  by unfold_locales (simp_all add: badvpn_write_be_eq read_eqs le_word_le_bytes le_bytes_le_word)

interpretation be64: field_codec badvpn_write_be64 badvpn_read_be64 8
  by unfold_locales (simp_all add: badvpn_write_be_eq read_eqs le_word_le_bytes le_bytes_le_word)

lemmas [wire_len, simp] = le16.put_width le32.put_width le64.put_width
  be16.put_width be32.put_width be64.put_width

lemmas [wire_simps, simp] = le16.get_put le32.get_put le64.get_put
  be16.get_put be32.get_put be64.get_put

subsection \<open>Wire images do not depend on the host\<close>

lemma rev_nth2: "length b = 2 \<Longrightarrow> [b ! 1, b ! 0] = rev b"
  by (erule length2E) simp

lemma rev_nth4: "length b = 4 \<Longrightarrow> [b ! 3, b ! 2, b ! 1, b ! 0] = rev b"
  by (erule length4E) simp

lemma rev_nth8:
  "length b = 8 \<Longrightarrow> [b ! 7, b ! 6, b ! 5, b ! 4, b ! 3, b ! 2, b ! 1, b ! 0] = rev b"
  by (erule length8E) simp

lemma host_store_reverse16: "host_store h 2 (badvpn_reverse16 h x) = rev (host_store h 2 x)"
  by (simp add: badvpn_reverse16_def Let_def rev_nth2 [simplified] host_store_load)

lemma host_store_reverse32: "host_store h 4 (badvpn_reverse32 h x) = rev (host_store h 4 x)"
  by (simp add: badvpn_reverse32_def Let_def rev_nth4 [simplified] host_store_load)

lemma host_store_reverse64: "host_store h 8 (badvpn_reverse64 h x) = rev (host_store h 8 x)"
  by (simp add: badvpn_reverse64_def Let_def rev_nth8 [simplified] host_store_load)

lemmas host_store_reverse = host_store_reverse16 host_store_reverse32 host_store_reverse64

lemma host_store_hton16: "host_store h 2 (hton16 h x) = badvpn_write_be16 x"
  by (cases h) (simp_all add: badvpn_write_be_eq host_store_reverse del: host_store.simps(1),
      simp_all)

lemma host_store_hton32: "host_store h 4 (hton32 h x) = badvpn_write_be32 x"
  by (cases h) (simp_all add: badvpn_write_be_eq host_store_reverse del: host_store.simps(1),
      simp_all)

lemma host_store_hton64: "host_store h 8 (hton64 h x) = badvpn_write_be64 x"
  by (cases h) (simp_all add: badvpn_write_be_eq host_store_reverse del: host_store.simps(1),
      simp_all)

lemma host_store_htol16: "host_store h 2 (htol16 h x) = badvpn_write_le16 x"
  by (cases h) (simp_all add: badvpn_write_le_eq host_store_reverse del: host_store.simps(2),
      simp_all)

lemma host_store_htol32: "host_store h 4 (htol32 h x) = badvpn_write_le32 x"
  by (cases h) (simp_all add: badvpn_write_le_eq host_store_reverse del: host_store.simps(2),
      simp_all)

lemma host_store_htol64: "host_store h 8 (htol64 h x) = badvpn_write_le64 x"
  by (cases h) (simp_all add: badvpn_write_le_eq host_store_reverse del: host_store.simps(2),
      simp_all)

lemma host_store_inj:
  "LENGTH('a) = 8 * n \<Longrightarrow> host_store h n (x :: 'a :: len word) = host_store h n y \<longleftrightarrow> x = y"
  by (metis host_load_store)

lemma badvpn_reverse_twice:
  "badvpn_reverse16 h (badvpn_reverse16 h x16) = x16"
  "badvpn_reverse32 h (badvpn_reverse32 h x32) = x32"
  "badvpn_reverse64 h (badvpn_reverse64 h x64) = x64"
  using host_store_inj [where n = 2 and h = h and x = "badvpn_reverse16 h (badvpn_reverse16 h x16)"
      and y = x16]
    host_store_inj [where n = 4 and h = h and x = "badvpn_reverse32 h (badvpn_reverse32 h x32)"
      and y = x32]
    host_store_inj [where n = 8 and h = h and x = "badvpn_reverse64 h (badvpn_reverse64 h x64)"
      and y = x64]
  by (simp_all add: host_store_reverse)

lemma ntoh_hton:
  "ntoh16 h (hton16 h x16) = x16" "ntoh32 h (hton32 h x32) = x32" "ntoh64 h (hton64 h x64) = x64"
  by (cases h; simp add: ntoh16_def ntoh32_def ntoh64_def badvpn_reverse_twice)+

lemma ltoh_htol:
  "ltoh16 h (htol16 h x16) = x16" "ltoh32 h (htol32 h x32) = x32" "ltoh64 h (htol64 h x64) = x64"
  by (cases h; simp add: ltoh16_def ltoh32_def ltoh64_def badvpn_reverse_twice)+

lemma ltoh16_load:
  assumes "length bs = 2"
  shows "ltoh16 h (host_load h bs) = badvpn_read_le16 bs"
proof -
  have "host_store h 2 (htol16 h (badvpn_read_le16 bs)) = bs"
    using assms by (simp add: host_store_htol16 le16.put_get)
  then have "host_load h bs = htol16 h (badvpn_read_le16 bs)"
    using host_load_store [where 'a = 16 and n = 2 and h = h and x = "htol16 h (badvpn_read_le16 bs)"]
    by simp
  then show ?thesis by (simp add: ltoh_htol)
qed

lemma ntoh16_load:
  assumes "length bs = 2"
  shows "ntoh16 h (host_load h bs) = badvpn_read_be16 bs"
proof -
  have "host_store h 2 (hton16 h (badvpn_read_be16 bs)) = bs"
    using assms by (simp add: host_store_hton16 be16.put_get)
  then have "host_load h bs = hton16 h (badvpn_read_be16 bs)"
    using host_load_store [where 'a = 16 and n = 2 and h = h and x = "hton16 h (badvpn_read_be16 bs)"]
    by simp
  then show ?thesis by (simp add: ntoh_hton)
qed

end
