(* ===== verification/IpProto.thy ===== *)
theory IpProto
  imports Byteorder
begin

text \<open>
  Internet headers and checksums: \<open>src/misc/ipv4_proto.h\<close>, \<open>src/misc/ipv6_proto.h\<close> and
  \<open>src/misc/udp_proto.h\<close>. A header is a record with the fields of the packed C struct, each
  an integer object of the host; \<open>memcpy\<close> from and to a packet goes through the host image of
  the fields. The packet checkers return the parsed header and where the payload lies.
\<close>

subsection \<open>Header structures\<close>

record ipv4_header =
  version4_ihl4 :: u8
  ds :: u8
  total_length :: u16
  identification :: u16
  flags3_fragmentoffset13 :: u16
  ttl :: u8
  protocol :: u8
  ip_checksum :: u16
  source_address :: u32
  destination_address :: u32

definition ipv4_header_bytes :: "host \<Rightarrow> ipv4_header \<Rightarrow> bytes" where
  "ipv4_header_bytes h hdr = [version4_ihl4 hdr, ds hdr] @ host_store h 2 (total_length hdr) @
     host_store h 2 (identification hdr) @ host_store h 2 (flags3_fragmentoffset13 hdr) @
     [ttl hdr, protocol hdr] @ host_store h 2 (ip_checksum hdr) @
     host_store h 4 (source_address hdr) @ host_store h 4 (destination_address hdr)"

definition ipv4_header_load :: "host \<Rightarrow> bytes \<Rightarrow> ipv4_header" where
  "ipv4_header_load h p = \<lparr>version4_ihl4 = p ! 0, ds = p ! 1,
     total_length = host_load h (mem_read p 2 2), identification = host_load h (mem_read p 4 2),
     flags3_fragmentoffset13 = host_load h (mem_read p 6 2), ttl = p ! 8, protocol = p ! 9,
     ip_checksum = host_load h (mem_read p 10 2),
     source_address = host_load h (mem_read p 12 4),
     destination_address = host_load h (mem_read p 16 4)\<rparr>"

definition IPV4_PROTOCOL_ICMP :: u8 where "IPV4_PROTOCOL_ICMP = 1"
definition IPV4_PROTOCOL_UDP :: u8 where "IPV4_PROTOCOL_UDP = 17"

definition IPV4_GET_VERSION :: "ipv4_header \<Rightarrow> u8" where
  "IPV4_GET_VERSION hdr = drop_bit 4 (version4_ihl4 hdr AND 0xF0)"

definition IPV4_GET_IHL :: "ipv4_header \<Rightarrow> u8" where
  "IPV4_GET_IHL hdr = drop_bit 0 (version4_ihl4 hdr AND 0x0F)"

definition IPV4_MAKE_VERSION_IHL :: "nat \<Rightarrow> u8" where
  "IPV4_MAKE_VERSION_IHL sz = of_nat (sz div 4 + 64)"

record udp_header =
  source_port :: u16
  dest_port :: u16
  udp_length :: u16
  udp_cksum :: u16

definition udp_header_bytes :: "host \<Rightarrow> udp_header \<Rightarrow> bytes" where
  "udp_header_bytes h hdr = host_store h 2 (source_port hdr) @ host_store h 2 (dest_port hdr) @
     host_store h 2 (udp_length hdr) @ host_store h 2 (udp_cksum hdr)"

definition udp_header_load :: "host \<Rightarrow> bytes \<Rightarrow> udp_header" where
  "udp_header_load h p = \<lparr>source_port = host_load h (mem_read p 0 2),
     dest_port = host_load h (mem_read p 2 2), udp_length = host_load h (mem_read p 4 2),
     udp_cksum = host_load h (mem_read p 6 2)\<rparr>"

record ipv6_header =
  version4_tc4 :: u8
  tc4_fl4 :: u8
  fl :: u16
  payload_length :: u16
  next_header :: u8
  hop_limit :: u8
  source_address6 :: bytes
  destination_address6 :: bytes

definition IPV6_NEXT_UDP :: u8 where "IPV6_NEXT_UDP = 17"
definition IPV6_NEXT_ICMP :: u8 where "IPV6_NEXT_ICMP = 58"

definition ipv6_header_bytes :: "host \<Rightarrow> ipv6_header \<Rightarrow> bytes" where
  "ipv6_header_bytes h hdr = [version4_tc4 hdr, tc4_fl4 hdr] @ host_store h 2 (fl hdr) @
     host_store h 2 (payload_length hdr) @ [next_header hdr, hop_limit hdr] @
     source_address6 hdr @ destination_address6 hdr"

definition ipv6_header_load :: "host \<Rightarrow> bytes \<Rightarrow> ipv6_header" where
  "ipv6_header_load h p = \<lparr>version4_tc4 = p ! 0, tc4_fl4 = p ! 1,
     fl = host_load h (mem_read p 2 2), payload_length = host_load h (mem_read p 4 2),
     next_header = p ! 6, hop_limit = p ! 7,
     source_address6 = mem_read p 8 16, destination_address6 = mem_read p 24 16\<rparr>"

subsection \<open>Checksums\<close>

text \<open>The summing loop: \<open>n\<close> big-endian 16-bit words from \<open>p\<close> are added to \<open>t\<close>.\<close>

fun sum_words :: "bytes \<Rightarrow> nat \<Rightarrow> u32 \<Rightarrow> u32" where
  "sum_words p 0 t = t"
| "sum_words p (Suc n) t = sum_words (drop 2 p) n (t + ucast (badvpn_read_be16 p))"

text \<open>The loop that folds the carries back in.\<close>

lemma unat_fold_step:
  "unat ((t :: u32) AND 0xFFFF) = unat t mod 65536" "unat (drop_bit 16 t) = unat t div 65536"
proof -
  have "(0xFFFF :: u32) = mask 16" by (simp add: mask_eq_exp_minus_1)
  then show "unat (t AND 0xFFFF) = unat t mod 65536" by (simp only: unat_and_mask) simp
qed (simp add: unat_shiftr)

lemma unat_fold_sum: "unat ((t AND 0xFFFF) + drop_bit 16 (t :: u32)) = unat t mod 65536 + unat t div 65536"
proof -
  have "unat t < 2 ^ 32" by (rule order.strict_trans2 [OF unsigned_less]) simp
  then have "unat t mod 65536 + unat t div 65536 < 2 ^ 32" by simp
  then show ?thesis by (simp add: unat_word_ariths unat_fold_step)
qed

function fold_carries :: "u32 \<Rightarrow> u32" where
  "fold_carries t = (if drop_bit 16 t \<noteq> 0 then fold_carries ((t AND 0xFFFF) + drop_bit 16 t) else t)"
  by auto
termination
proof (relation "measure unat", simp)
  fix t :: u32 assume "drop_bit 16 t \<noteq> 0"
  then have "unat t div 65536 \<noteq> 0" by (simp add: unat_eq_0 flip: unat_fold_step)
  then show "((t AND 0xFFFF) + drop_bit 16 t, t) \<in> measure unat"
    using div_mult_mod_eq [of "unat t" 65536] unfolding in_measure unat_fold_sum by linarith
qed

declare fold_carries.simps [simp del]

definition ipv4_checksum :: "host \<Rightarrow> ipv4_header \<Rightarrow> bytes \<Rightarrow> u16" where
  "ipv4_checksum h hdr extra =
     (let t = sum_words (ipv4_header_bytes h hdr) (20 div 2) 0;
          t = sum_words extra (length extra div 2) t
      in hton16 h (ucast (NOT (fold_carries t))))"

definition udp_checksum_summer :: "bytes \<Rightarrow> u32" where
  "udp_checksum_summer p = sum_words p (length p div 2) 0"

definition udp_payload_sum :: "host \<Rightarrow> bytes \<Rightarrow> u32" where
  "udp_payload_sum h payload =
     (if length payload mod 2 = 0 then udp_checksum_summer payload
      else udp_checksum_summer (butlast payload) +
        udp_checksum_summer (host_store h 2 (hton16 h (push_bit 8 (ucast (last payload))))))"

text \<open>The common end of both UDP checksums; \<open>t\<close> stays a 32-bit value until it is returned.\<close>

definition udp_checksum_finish :: "host \<Rightarrow> u32 \<Rightarrow> u16" where
  "udp_checksum_finish h t =
     (let t = NOT (fold_carries t); t = (if t = 0 then 0xFFFF else t) in hton16 h (ucast t))"

definition udp_checksum :: "host \<Rightarrow> udp_header \<Rightarrow> bytes \<Rightarrow> u32 \<Rightarrow> u32 \<Rightarrow> u16" where
  "udp_checksum h hdr payload source_addr dest_addr =
     (let t = udp_checksum_summer (host_store h 4 source_addr);
          t = t + udp_checksum_summer (host_store h 4 dest_addr);
          t = t + udp_checksum_summer (host_store h 2 (hton16 h 17));
          t = t + udp_checksum_summer (host_store h 2 (hton16 h (of_nat (8 + length payload))));
          t = t + udp_checksum_summer (udp_header_bytes h hdr);
          t = t + udp_payload_sum h payload
      in udp_checksum_finish h t)"

definition udp_ip6_checksum :: "host \<Rightarrow> udp_header \<Rightarrow> bytes \<Rightarrow> bytes \<Rightarrow> bytes \<Rightarrow> u16" where
  "udp_ip6_checksum h hdr payload source_addr dest_addr =
     (let t = udp_checksum_summer source_addr;
          t = t + udp_checksum_summer dest_addr;
          t = t + udp_checksum_summer (host_store h 4 (hton32 h (of_nat (8 + length payload))));
          t = t + udp_checksum_summer (host_store h 4 (hton32 h 17));
          t = t + udp_checksum_summer (udp_header_bytes h hdr);
          t = t + udp_payload_sum h payload
      in udp_checksum_finish h t)"

subsection \<open>Packet checkers\<close>

text \<open>The payload is given by its offset in the data and its length.\<close>

definition ipv4_check :: "host \<Rightarrow> bytes \<Rightarrow> (ipv4_header \<times> nat \<times> nat) option" where
  "ipv4_check h data =
     (if length data < 20 then None
      else let hdr = ipv4_header_load h data in
        if IPV4_GET_VERSION hdr \<noteq> 4 then None
        else let header_len = unat (IPV4_GET_IHL hdr) * 4 in
          if header_len < 20 then None
          else if header_len > length data then None
          else let tl = unat (ntoh16 h (total_length hdr)) in
            if tl < header_len then None
            else if tl > length data then None
            else let checksum_in_packet = ip_checksum hdr;
                     computed = ipv4_checksum h (hdr\<lparr>ip_checksum := hton16 h 0\<rparr>) (mem_read data 20 (header_len - 20))
              in if checksum_in_packet \<noteq> computed then None
                 else Some (hdr, header_len, tl - header_len))"

definition ipv6_check :: "host \<Rightarrow> bytes \<Rightarrow> (ipv6_header \<times> nat \<times> nat) option" where
  "ipv6_check h data =
     (if length data < 40 then None
      else let hdr = ipv6_header_load h data in
        if drop_bit 4 (ntoh8 (version4_tc4 hdr)) \<noteq> 6 then None
        else let pl = unat (ntoh16 h (payload_length hdr)) in
          if pl > length data - 40 then None
          else Some (hdr, 40, pl))"

definition udp_check :: "host \<Rightarrow> bytes \<Rightarrow> (udp_header \<times> nat \<times> nat) option" where
  "udp_check h data =
     (if length data < 8 then None
      else let hdr = udp_header_load h data; ul = unat (ntoh16 h (udp_length hdr)) in
        if ul < 8 then None
        else if ul > 8 + (length data - 8) then None
        else Some (hdr, 8, ul - 8))"

subsection \<open>One's complement sums\<close>

text \<open>The sum of the big-endian 16-bit words of a byte string, padded with a zero byte.\<close>

fun be_sum :: "bytes \<Rightarrow> nat" where
  "be_sum (a # b # r) = unat a * 256 + unat b + be_sum r"
| "be_sum [a] = unat a * 256"
| "be_sum [] = 0"

definition ones_sum :: "nat \<Rightarrow> nat" where
  "ones_sum n = (if n = 0 then 0 else if n mod 65535 = 0 then 65535 else n mod 65535)"

lemma be_sum_le: "be_sum p \<le> 65535 * ((length p + 1) div 2)"
proof (induction p rule: be_sum.induct)
  case (1 a b r)
  then show ?case using unat_byte_le [of a] unat_byte_le [of b] by simp
next
  case (2 a)
  then show ?case using unat_byte_le [of a] by simp
qed simp

lemma be_sum_append: "even (length xs) \<Longrightarrow> be_sum (xs @ ys) = be_sum xs + be_sum ys"
  by (induction xs rule: be_sum.induct) simp_all

lemma unat_read_be16: "unat (badvpn_read_be16 (a # b # r)) = unat a * 256 + unat b"
proof -
  have "unat (ucast b :: u16) = unat b" "unat (push_bit 8 (ucast a) :: u16) = unat a * 256"
    using unat_byte_le [of a] unat_byte_le [of b]
    by (simp_all add: unat_shiftl unat_ucast_up_byte)
  then show ?thesis
    using unat_byte_le [of b] by (simp add: badvpn_read_be16_def unat_or_disjoint [where k = 8])
qed

lemma sum_words_eq:
  "2 * n \<le> length p \<Longrightarrow> unat t + be_sum (take (2 * n) p) < 2 ^ 32 \<Longrightarrow>
     unat (sum_words p n t) = unat t + be_sum (take (2 * n) p)"
proof (induction n arbitrary: p t)
  case (Suc n)
  then obtain a b r where p: "p = a # b # r" by (cases p; cases "tl p") auto
  have w: "unat (ucast (badvpn_read_be16 p) :: u32) = unat a * 256 + unat b"
    using unat_byte_le [of a] unat_byte_le [of b]
    by (simp only: p unat_ucast_up unat_read_be16) (simp add: unat_ucast_up unat_read_be16)
  have "unat (t + ucast (badvpn_read_be16 p)) = unat t + unat a * 256 + unat b"
    using Suc.prems(2) unfolding unat_word_ariths w by (simp add: p)
  then show ?case using Suc.IH [of r "t + ucast (badvpn_read_be16 p)"] Suc.prems p by simp
qed simp

lemma udp_checksum_summer_eq:
  assumes "even (length p)" "length p \<le> 131072"
  shows "unat (udp_checksum_summer p) = be_sum p"
proof -
  have "be_sum p < 2 ^ 32" using be_sum_le [of p] assms by simp
  then show ?thesis
    unfolding udp_checksum_summer_def using sum_words_eq [of "length p div 2" p 0] assms by simp
qed

lemma fold_carries_eq: "unat (fold_carries t) = ones_sum (unat t)"
proof (induction t rule: fold_carries.induct)
  case (1 t)
  let ?n = "unat t"
  have high: "drop_bit 16 t = 0 \<longleftrightarrow> ?n < 65536"
    using unat_fold_step(2) [of t] by (simp add: unat_eq_0 [symmetric] div_eq_0_iff)
  show ?case
  proof (cases "?n < 65536")
    case True
    then show ?thesis using high by (auto simp: fold_carries.simps [of t] ones_sum_def mod_if)
  next
    case False
    have "?n = (?n mod 65536 + ?n div 65536) + 65535 * (?n div 65536)"
      using div_mult_mod_eq [of ?n 65536] by linarith
    then have "?n mod 65535 = (?n mod 65536 + ?n div 65536) mod 65535"
      by (metis mod_mult_self2)
    moreover have "?n mod 65536 + ?n div 65536 \<noteq> 0" using False by (simp add: div_eq_0_iff)
    ultimately show ?thesis
      using 1 False high by (simp add: fold_carries.simps [of t] unat_fold_sum ones_sum_def)
  qed
qed

lemma ones_sum_le: "ones_sum n \<le> 65535"
  using mod_less_divisor [of 65535 n] by (auto simp: ones_sum_def)

lemma ones_sum_add: "ones_sum (n + (65535 - ones_sum n)) = 65535"
proof -
  have "(n + (65535 - ones_sum n)) mod 65535 = 0"
  proof (cases "n mod 65535 = 0")
    case True
    then have "n + (65535 - ones_sum n) = n \<or> n + (65535 - ones_sum n) = n + 65535"
      by (auto simp: ones_sum_def)
    with True show ?thesis by (auto simp: mod_add_self2)
  next
    case False
    then have "ones_sum n = n mod 65535" by (auto simp: ones_sum_def)
    moreover have "n mod 65535 < 65535" by simp
    ultimately have "n + (65535 - ones_sum n) = n div 65535 * 65535 + 65535"
      using div_mult_mod_eq [of n 65535] by linarith
    then show ?thesis by simp
  qed
  moreover have "n + (65535 - ones_sum n) \<noteq> 0" by (auto simp: ones_sum_def)
  ultimately show ?thesis by (simp add: ones_sum_def)
qed

lemma unat_not_low:
  assumes "unat (t :: u32) \<le> 65535"
  shows "unat (ucast (NOT t) :: u16) = 65535 - unat t"
proof -
  have "unat (NOT t) mod 65536 = (65535 - unat t + 65535 * 65536) mod 65536"
    using assms by (simp add: unat_not)
  also have "\<dots> = 65535 - unat t" by (simp only: mod_mult_self1) simp
  finally show ?thesis by (simp add: unat_ucast_down)
qed

lemma length_headers [simp, wire_len]:
  "length (ipv4_header_bytes h hdr) = 20" "length (udp_header_bytes h uh) = 8"
  by (simp_all add: ipv4_header_bytes_def udp_header_bytes_def)

lemma be_sum_hton16 [simp]: "be_sum (host_store h 2 (hton16 h x)) = unat x"
proof -
  obtain a b where ab: "badvpn_write_be16 x = [a, b]"
    by (rule length2E [of "badvpn_write_be16 x"]) simp_all
  then have "badvpn_read_be16 [a, b] = x" using be16.get_put [of x] by simp
  then show ?thesis using unat_read_be16 [of a b "[]"] by (simp add: host_store_hton16 ab)
qed

lemma be_sum_write_be16 [simp]: "be_sum (badvpn_write_be16 x) = unat x"
  using be_sum_hton16 [of BADVPN_LITTLE_ENDIAN x] unfolding host_store_hton16 .

lemma ntoh16_zero [simp]: "hton16 h 0 = 0"
  by (cases h) (simp_all add: badvpn_reverse16_def Let_def le_bytes_def upt_small)

lemma hton16_eq_0_iff [simp]: "hton16 h x = 0 \<longleftrightarrow> x = 0"
  using ntoh_hton(1) [of h x] by (auto simp: ntoh16_def)

lemma unat_checksum_value:
  "unat (ucast (NOT (fold_carries t)) :: u16) = 65535 - ones_sum (unat t)"
  by (subst unat_not_low) (simp_all add: fold_carries_eq ones_sum_le)

lemma ipv4_checksum_eq:
  assumes "even (length extra)" "length extra \<le> 65534"
  shows "\<exists>c. ipv4_checksum h hdr extra = hton16 h c \<and>
    unat c = 65535 - ones_sum (be_sum (ipv4_header_bytes h hdr @ extra))"
proof -
  let ?b = "ipv4_header_bytes h hdr"
  have b: "be_sum ?b \<le> 655350" and e: "be_sum extra \<le> 65535 * 32767"
    using be_sum_le [of ?b] be_sum_le [of extra] assms by simp_all
  have t: "unat (sum_words ?b 10 0) = be_sum ?b"
    using sum_words_eq [of 10 ?b 0] b by simp
  have "unat (sum_words extra (length extra div 2) (sum_words ?b 10 0)) = be_sum (?b @ extra)"
    using sum_words_eq [of "length extra div 2" extra "sum_words ?b 10 0"] b e t assms
    by (simp add: be_sum_append)
  then show ?thesis
    unfolding ipv4_checksum_def Let_def by (auto simp: unat_checksum_value)
qed

lemma be_sum_ipv4_checksum_field:
  "be_sum (ipv4_header_bytes h (hdr\<lparr>ip_checksum := hton16 h c\<rparr>)) =
     be_sum (ipv4_header_bytes h (hdr\<lparr>ip_checksum := hton16 h 0\<rparr>)) + unat c"
  by (simp add: ipv4_header_bytes_def be_sum_append del: ntoh16_zero)



text \<open>What the UDP checksums sum up: the pseudo-header, the UDP header and the payload.\<close>

definition udp_pseudo4 :: "host \<Rightarrow> nat \<Rightarrow> u32 \<Rightarrow> u32 \<Rightarrow> bytes" where
  "udp_pseudo4 h n source_addr dest_addr = host_store h 4 source_addr @ host_store h 4 dest_addr @
     badvpn_write_be16 17 @ badvpn_write_be16 (of_nat (8 + n))"

lemma unat_add_small:
  "unat (t :: u32) = x \<Longrightarrow> unat u = y \<Longrightarrow> x + y < 4294967296 \<Longrightarrow> unat (t + u) = x + y"
  by (simp add: unat_word_ariths)

lemma udp_payload_sum_eq:
  assumes "length payload \<le> 65535"
  shows "unat (udp_payload_sum h payload) = be_sum payload"
proof (cases "even (length payload)")
  case True
  then show ?thesis using assms by (simp add: udp_payload_sum_def udp_checksum_summer_eq even_iff_mod_2_eq_zero)
next
  case False
  then have ne: "payload \<noteq> []" and ev: "even (length (butlast payload))" by auto
  have l: "unat (push_bit 8 (ucast (last payload)) :: u16) = unat (last payload) * 256"
    using unat_byte_le [of "last payload"] by (simp add: unat_shiftl unat_ucast_up_byte)
  have "unat (udp_checksum_summer (butlast payload) +
      udp_checksum_summer (host_store h 2 (hton16 h (push_bit 8 (ucast (last payload)))))) =
    be_sum (butlast payload) + unat (last payload) * 256"
    using be_sum_le [of "butlast payload"] unat_byte_le [of "last payload"] ev assms l
    by (intro unat_add_small) (simp_all add: udp_checksum_summer_eq)
  also have "\<dots> = be_sum (butlast payload @ [last payload])" using ev by (simp add: be_sum_append)
  finally show ?thesis
    using False ne by (simp add: udp_payload_sum_def even_iff_mod_2_eq_zero)
qed

lemma udp_checksum_finish_eq:
  "\<exists>c. udp_checksum_finish h t = hton16 h c \<and> unat c = 65535 - ones_sum (unat t)"
proof -
  have "unat (NOT (fold_carries t)) \<noteq> 0"
    using ones_sum_le [of "unat t"] by (simp add: unat_not fold_carries_eq)
  then have "NOT (fold_carries t) \<noteq> 0" by (metis unat_0)
  then show ?thesis
    unfolding udp_checksum_finish_def Let_def by (auto simp: unat_checksum_value)
qed

lemma udp_checksum_eq:
  assumes "length payload \<le> 65535"
  shows "\<exists>c. udp_checksum h hdr payload sa da = hton16 h c \<and>
    unat c = 65535 - ones_sum (be_sum (udp_pseudo4 h (length payload) sa da @ udp_header_bytes h hdr @ payload))"
proof -
  let ?t = "udp_checksum_summer (host_store h 4 sa) + udp_checksum_summer (host_store h 4 da) +
    udp_checksum_summer (host_store h 2 (hton16 h 17)) +
    udp_checksum_summer (host_store h 2 (hton16 h (of_nat (8 + length payload)))) +
    udp_checksum_summer (udp_header_bytes h hdr) + udp_payload_sum h payload"
  have "unat ?t = be_sum (host_store h 4 sa) + be_sum (host_store h 4 da) +
    be_sum (host_store h 2 (hton16 h 17)) + be_sum (host_store h 2 (hton16 h (of_nat (8 + length payload)))) +
    be_sum (udp_header_bytes h hdr) + be_sum payload"
    using be_sum_le [of "host_store h 4 sa"] be_sum_le [of "host_store h 4 da"]
      be_sum_le [of "host_store h 2 (hton16 h 17)"]
      be_sum_le [of "host_store h 2 (hton16 h (of_nat (8 + length payload)))"]
      be_sum_le [of "udp_header_bytes h hdr"] be_sum_le [of payload] assms
    by (intro unat_add_small udp_checksum_summer_eq udp_payload_sum_eq) (simp_all del: be_sum_hton16 of_nat_add)
  also have "\<dots> = be_sum (udp_pseudo4 h (length payload) sa da @ udp_header_bytes h hdr @ payload)"
    by (simp add: udp_pseudo4_def be_sum_append del: of_nat_add)
  finally show ?thesis
    using udp_checksum_finish_eq [of h ?t] unfolding udp_checksum_def Let_def by auto
qed

text \<open>
  C37: \<open>udp_checksum\<close> returns zero, which on the wire means that there is no checksum, exactly
  when the one's complement sum is zero modulo \<open>0xFFFF\<close>: the replacement of a zero checksum by
  \<open>0xFFFF\<close> never happens, because it tests the 32-bit complement before the truncation to 16 bits.
\<close>

theorem udp_checksum_zero_iff:
  assumes "length payload \<le> 65535"
  shows "udp_checksum h hdr payload sa da = 0 \<longleftrightarrow>
    be_sum (udp_pseudo4 h (length payload) sa da @ udp_header_bytes h hdr @ payload) mod 65535 = 0"
proof -
  let ?n = "be_sum (udp_pseudo4 h (length payload) sa da @ udp_header_bytes h hdr @ payload)"
  obtain c where c: "udp_checksum h hdr payload sa da = hton16 h c" "unat c = 65535 - ones_sum ?n"
    using udp_checksum_eq [OF assms, of h hdr sa da] by auto
  have "17 \<le> ?n"
    by (simp add: udp_pseudo4_def be_sum_append)
  then have "65535 - ones_sum ?n = 0 \<longleftrightarrow> ?n mod 65535 = 0"
    using mod_less_divisor [of 65535 ?n] by (auto simp: ones_sum_def)
  moreover have "c = 0 \<longleftrightarrow> unat c = 0" by (simp add: unat_eq_0)
  ultimately show ?thesis unfolding c(1) c(2) [symmetric] by (simp add: c(2))
qed

theorem udp_checksum_zero_iff_witness:
  "udp_checksum BADVPN_BIG_ENDIAN \<lparr>source_port = 0xFFCE, dest_port = 0, udp_length = 0x10, udp_cksum = 0\<rparr>
     [0, 0, 0, 0, 0, 0, 0, 0] 0 0 = 0"
  by (subst udp_checksum_zero_iff)
    (simp_all add: udp_pseudo4_def udp_header_bytes_def le_bytes_def upt_small badvpn_write_be16_def)

subsection \<open>Checking what was built\<close>

lemma host_load_store_widths [simp]:
  "host_load h (host_store h 2 (x16 :: u16)) = x16" "host_load h (host_store h 4 (x32 :: u32)) = x32"
  by (simp_all add: host_load_store)

lemma mem_read_prefix: "length xs = p \<Longrightarrow> mem_read (xs @ ys) p n = take n ys"
  by (simp add: mem_read_def)

lemma host_store2_cases: obtains a b where "host_store h 2 (x :: u16) = [a, b]"
  by (rule length2E [of "host_store h 2 x"]) simp_all

lemma host_store4_cases: obtains a b c d where "host_store h 4 (x :: u32) = [a, b, c, d]"
  by (rule length4E [of "host_store h 4 x"]) simp_all

lemma ipv4_header_load_bytes [simp]: "ipv4_header_load h (ipv4_header_bytes h hdr @ r) = hdr"
proof -
  obtain a0 a1 where a: "host_store h 2 (total_length hdr) = [a0, a1]" by (rule host_store2_cases)
  obtain b0 b1 where b: "host_store h 2 (identification hdr) = [b0, b1]" by (rule host_store2_cases)
  obtain c0 c1 where c: "host_store h 2 (flags3_fragmentoffset13 hdr) = [c0, c1]" by (rule host_store2_cases)
  obtain d0 d1 where d: "host_store h 2 (ip_checksum hdr) = [d0, d1]" by (rule host_store2_cases)
  obtain e0 e1 e2 e3 where e: "host_store h 4 (source_address hdr) = [e0, e1, e2, e3]"
    by (rule host_store4_cases)
  obtain f0 f1 f2 f3 where f: "host_store h 4 (destination_address hdr) = [f0, f1, f2, f3]"
    by (rule host_store4_cases)
  note v = host_load_store_widths [of h]
  show ?thesis
    using v(1) [of "total_length hdr"] v(1) [of "identification hdr"]
      v(1) [of "flags3_fragmentoffset13 hdr"] v(1) [of "ip_checksum hdr"]
      v(2) [of "source_address hdr"] v(2) [of "destination_address hdr"]
    unfolding a b c d e f
    by (simp add: ipv4_header_load_def ipv4_header_bytes_def mem_read_def a b c d e f)
qed

lemma udp_header_load_bytes [simp]: "udp_header_load h (udp_header_bytes h hdr @ r) = hdr"
proof -
  obtain a0 a1 where a: "host_store h 2 (source_port hdr) = [a0, a1]" by (rule host_store2_cases)
  obtain b0 b1 where b: "host_store h 2 (dest_port hdr) = [b0, b1]" by (rule host_store2_cases)
  obtain c0 c1 where c: "host_store h 2 (udp_length hdr) = [c0, c1]" by (rule host_store2_cases)
  obtain d0 d1 where d: "host_store h 2 (udp_cksum hdr) = [d0, d1]" by (rule host_store2_cases)
  note v = host_load_store_widths(1) [of h]
  show ?thesis
    using v [of "source_port hdr"] v [of "dest_port hdr"] v [of "udp_length hdr"] v [of "udp_cksum hdr"]
    unfolding a b c d
    by (simp add: udp_header_load_def udp_header_bytes_def mem_read_def a b c d)
qed

lemma length_ipv6_header [simp]:
  "length (source_address6 hdr) = 16 \<Longrightarrow> length (destination_address6 hdr) = 16 \<Longrightarrow>
     length (ipv6_header_bytes h hdr) = 40"
  by (simp add: ipv6_header_bytes_def)

lemma ipv6_header_load_bytes [simp]:
  assumes "length (source_address6 hdr) = 16" "length (destination_address6 hdr) = 16"
  shows "ipv6_header_load h (ipv6_header_bytes h hdr @ r) = hdr"
proof -
  obtain a0 a1 where a: "host_store h 2 (fl hdr) = [a0, a1]" by (rule host_store2_cases)
  obtain b0 b1 where b: "host_store h 2 (payload_length hdr) = [b0, b1]" by (rule host_store2_cases)
  note v = host_load_store_widths(1) [of h]
  show ?thesis
    using v [of "fl hdr"] v [of "payload_length hdr"] assms unfolding a b
    by (simp add: ipv6_header_load_def ipv6_header_bytes_def mem_read_def a b)
qed

lemma unat_of_nat_u16: "n \<le> 65535 \<Longrightarrow> unat (of_nat n :: u16) = n"
  by (simp add: unsigned_of_nat take_bit_nat_eq_self)

lemma ipv4_check_build:
  assumes "version4_ihl4 hdr = 0x45" and "total_length hdr = hton16 h (of_nat (20 + length payload))"
    and "ip_checksum hdr = ipv4_checksum h (hdr\<lparr>ip_checksum := hton16 h 0\<rparr>) []"
    and "20 + length payload \<le> 65535"
  shows "ipv4_check h (ipv4_header_bytes h hdr @ payload) = Some (hdr, 20, length payload)"
proof -
  have "IPV4_GET_VERSION hdr = 4" "unat (IPV4_GET_IHL hdr) = 5"
    by (simp_all add: IPV4_GET_VERSION_def IPV4_GET_IHL_def assms(1))
  moreover have "unat (ntoh16 h (total_length hdr)) = 20 + length payload"
    unfolding assms(2) ntoh_hton using assms(4) by (rule unat_of_nat_u16)
  ultimately show ?thesis
    using assms(3) by (simp add: ipv4_check_def Let_def mem_read_def)
qed

lemma udp_check_build:
  assumes "udp_length hdr = hton16 h (of_nat (8 + length payload))" and "8 + length payload \<le> 65535"
  shows "udp_check h (udp_header_bytes h hdr @ payload) = Some (hdr, 8, length payload)"
proof -
  have "unat (ntoh16 h (udp_length hdr)) = 8 + length payload"
    unfolding assms(1) ntoh_hton using assms(2) by (rule unat_of_nat_u16)
  then show ?thesis by (simp add: udp_check_def Let_def)
qed

lemma ipv6_check_build:
  assumes "version4_tc4 hdr = 0x60" and "payload_length hdr = hton16 h (of_nat (length payload))"
    and "length payload \<le> 65535"
    and len: "length (source_address6 hdr) = 16" "length (destination_address6 hdr) = 16"
  shows "ipv6_check h (ipv6_header_bytes h hdr @ payload) = Some (hdr, 40, length payload)"
proof -
  have "unat (ntoh16 h (payload_length hdr)) = length payload"
    unfolding assms(2) ntoh_hton using assms(3) by (rule unat_of_nat_u16)
  then show ?thesis
    using len by (simp add: ipv6_check_def Let_def assms(1) ntoh8_def hton8_def)
qed

end
