(* ===== verification/Misc_Arith.thy ===== *)
theory Misc_Arith
  imports Badvpn_Prelude
begin

text \<open>
  The arithmetic helpers of \<open>src/misc\<close>: modular addition (\<open>modadd.h\<close>), minimum and maximum
  (\<open>minmax.h\<close>), three-way comparison (\<open>compare.h\<close>), alignment and rounded division
  (\<open>balign.h\<close>), overflow predicates (\<open>overflow.h\<close>) and overflow-tracking sizes
  (\<open>bsize.h\<close>). C \<open>int\<close> values are HOL integers and the lemmas show
  where they stay in range; \<open>size_t\<close> values whose wrap-around matters are words.
\<close>

subsection \<open>Modular addition, minimum, comparison\<close>

definition bmodadd_int :: "int \<Rightarrow> int \<Rightarrow> int \<Rightarrow> int" where
  "bmodadd_int x y m = (if y \<ge> m - x then y - (m - x) else x + y)"

definition bmin_int :: "int \<Rightarrow> int \<Rightarrow> int" where
  "bmin_int a b = (if a < b then a else b)"

definition bmax_int :: "int \<Rightarrow> int \<Rightarrow> int" where
  "bmax_int a b = (if a > b then a else b)"

definition B_COMPARE :: "'a :: linorder \<Rightarrow> 'a \<Rightarrow> int" where
  "B_COMPARE a b = of_bool (a > b) - of_bool (a < b)"

definition B_COMPARE_COMBINE :: "int \<Rightarrow> int \<Rightarrow> int" where
  "B_COMPARE_COMBINE cmp1 cmp2 = (if cmp1 \<noteq> 0 then cmp1 else cmp2)"

lemma bmin_int_min [simp]: "bmin_int a b = min a b"
  by (simp add: bmin_int_def min_def)

lemma bmax_int_max [simp]: "bmax_int a b = max a b"
  by (simp add: bmax_int_def max_def)

lemma B_COMPARE_iff [simp]:
  "B_COMPARE a b = 0 \<longleftrightarrow> a = b" "B_COMPARE a b < 0 \<longleftrightarrow> a < b" "0 < B_COMPARE a b \<longleftrightarrow> b < a"
  "B_COMPARE a b \<le> 0 \<longleftrightarrow> a \<le> b"
  by (auto simp: B_COMPARE_def of_bool_def)

lemma bmodadd_int_mod:
  assumes "0 \<le> x" "x < m" "0 \<le> y" "y < m"
  shows "bmodadd_int x y m = (x + y) mod m"
proof (cases "y \<ge> m - x")
  case True
  have "(x + y) mod m = (x + y - m) mod m"
    using mod_add_self2 [of "x + y - m" m] by simp
  also have "\<dots> = x + y - m" using True assms by (intro mod_pos_pos_trivial) simp_all
  finally show ?thesis using True by (simp add: bmodadd_int_def)
qed (use assms in \<open>simp add: bmodadd_int_def\<close>)

lemma bmodadd_int_bounds:
  assumes "0 \<le> x" "x < m" "0 \<le> y" "y < m"
  shows "0 \<le> bmodadd_int x y m" "bmodadd_int x y m < m"
  using assms by (simp_all add: bmodadd_int_mod)

text \<open>
  Unlike the plain sum \<open>x + y\<close>, every intermediate value of the macro is between \<open>0\<close> and
  the modulus, so it fits the type whenever the modulus does.
\<close>

lemma bmodadd_int_no_overflow:
  assumes "0 \<le> x" "x < m" "0 \<le> y" "y < m" "m \<le> INT_MAX"
  shows "in_int_range (m - x)" "y \<ge> m - x \<Longrightarrow> in_int_range (y - (m - x))"
    "y < m - x \<Longrightarrow> in_int_range (x + y)"
  using assms by (auto simp: in_int_range_def c_limits)

subsection \<open>Alignment\<close>

definition balign_up_overflows :: "size_t \<Rightarrow> size_t \<Rightarrow> bool" where
  "balign_up_overflows x n = (let r = x mod n in r \<noteq> 0 \<and> x > (-1) - (n - r))"

definition balign_up :: "size_t \<Rightarrow> size_t \<Rightarrow> size_t" where
  "balign_up x n = (let r = x mod n in if r \<noteq> 0 then x + (n - r) else x)"

definition balign_down :: "size_t \<Rightarrow> size_t \<Rightarrow> size_t" where
  "balign_down x n = x - x mod n"

text \<open>Rounded-up division cannot wrap, so its operands are plain naturals.\<close>

definition bdivide_up :: "nat \<Rightarrow> nat \<Rightarrow> nat" where
  "bdivide_up a b = (let r = a mod b in if r > 0 then a div b + 1 else a div b)"

lemma bdivide_up_ge:
  assumes "0 < b" shows "a \<le> b * bdivide_up a b"
proof (cases "a mod b = 0")
  case True
  then show ?thesis using mult_div_mod_eq [of b a] by (simp add: bdivide_up_def)
next
  case False
  have "a = b * (a div b) + a mod b" by simp
  also have "\<dots> \<le> b * (a div b) + b" using mod_less_divisor [OF assms, of a] by linarith
  finally show ?thesis using False by (simp add: bdivide_up_def)
qed

lemma bdivide_up_le_iff: "0 < b \<Longrightarrow> bdivide_up a b \<le> k \<longleftrightarrow> a \<le> b * k"
proof
  assume b: "0 < b" and k: "bdivide_up a b \<le> k"
  have "a \<le> b * bdivide_up a b" by (rule bdivide_up_ge) fact
  also have "\<dots> \<le> b * k" using k by simp
  finally show "a \<le> b * k" .
next
  assume b: "0 < b" and a: "a \<le> b * k"
  show "bdivide_up a b \<le> k"
  proof (cases "a mod b = 0")
    case True
    with a b have "a div b \<le> k" by (metis div_le_mono nonzero_mult_div_cancel_left not_gr_zero)
    with True show ?thesis by (simp add: bdivide_up_def)
  next
    case False
    then have "b * (a div b) < a" using mult_div_mod_eq [of b a] by linarith
    with a have "b * (a div b) < b * k" by linarith
    then have "a div b < k" using b by simp
    then show ?thesis using False by (simp add: bdivide_up_def)
  qed
qed

lemma bdivide_up_mono: "0 < b \<Longrightarrow> a \<le> a' \<Longrightarrow> bdivide_up a b \<le> bdivide_up a' b"
  by (meson bdivide_up_ge bdivide_up_le_iff order_trans)

lemma bdivide_up_0 [simp]: "bdivide_up 0 b = 0"
  by (simp add: bdivide_up_def)

lemma bdivide_up_mult [simp]: "0 < b \<Longrightarrow> bdivide_up (b * k) b = k"
  by (simp add: bdivide_up_def)

subsection \<open>Overflow predicates\<close>

text \<open>The unsigned predicate on a \<open>w\<close>-bit type, and the signed one on \<open>int\<close>.\<close>

definition add_unsigned_overflows :: "'a :: len word \<Rightarrow> 'a word \<Rightarrow> bool" where
  "add_unsigned_overflows a b = (b > (-1) - a)"

definition add_int_overflows :: "int \<Rightarrow> int \<Rightarrow> int" where
  "add_int_overflows a b =
     (if (a < 0) \<noteq> (b < 0) then 0
      else if a < 0 then - of_bool (a < INT_MIN - b)
      else of_bool (a > INT_MAX - b))"

lemma add_unsigned_overflows_iff:
  "add_unsigned_overflows (a :: 'a :: len word) b \<longleftrightarrow> unat a + unat b \<ge> 2 ^ LENGTH('a)"
proof -
  have "unat ((-1 :: 'a word) - a) = 2 ^ LENGTH('a) - 1 - unat a"
    by (simp add: unat_sub unat_max_word)
  moreover have "unat a < 2 ^ LENGTH('a)" by simp
  ultimately have "unat ((-1 :: 'a word) - a) < unat b \<longleftrightarrow> unat a + unat b \<ge> 2 ^ LENGTH('a)"
    by linarith
  then show ?thesis
    by (simp add: add_unsigned_overflows_def word_less_nat_alt)
qed

lemma add_int_overflows_iff:
  assumes "in_int_range a" "in_int_range b"
  shows "add_int_overflows a b \<noteq> 0 \<longleftrightarrow> \<not> in_int_range (a + b)"
  using assms by (auto simp: add_int_overflows_def in_int_range_def c_limits)

subsection \<open>Sizes with overflow tracking\<close>

record bsize_t =
  is_overflow :: bool
  bs_value :: size_t

definition bsize_fromsize :: "size_t \<Rightarrow> bsize_t" where
  "bsize_fromsize v = \<lparr>is_overflow = False, bs_value = v\<rparr>"

definition bsize_fromint :: "int \<Rightarrow> bsize_t" where
  "bsize_fromint v = \<lparr>is_overflow = (v < 0 \<or> v > SIZE_MAX), bs_value = of_int v\<rparr>"

definition bsize_overflow :: bsize_t where
  "bsize_overflow = \<lparr>is_overflow = True, bs_value = 0\<rparr>"

definition bsize_tosize :: "bsize_t \<Rightarrow> size_t option" where
  "bsize_tosize s = (if is_overflow s then None else Some (bs_value s))"

definition bsize_toint :: "bsize_t \<Rightarrow> int option" where
  "bsize_toint s = (if is_overflow s \<or> uint (bs_value s) > INT_MAX then None
                    else Some (uint (bs_value s)))"

definition bsize_add :: "bsize_t \<Rightarrow> bsize_t \<Rightarrow> bsize_t" where
  "bsize_add s1 s2 =
     \<lparr>is_overflow = (is_overflow s1 \<or> is_overflow s2 \<or> bs_value s2 > (-1) - bs_value s1),
      bs_value = bs_value s1 + bs_value s2\<rparr>"

definition bsize_max :: "bsize_t \<Rightarrow> bsize_t \<Rightarrow> bsize_t" where
  "bsize_max s1 s2 =
     \<lparr>is_overflow = (is_overflow s1 \<or> is_overflow s2),
      bs_value = of_bool (bs_value s1 > bs_value s2) * bs_value s1
               + of_bool (bs_value s1 \<le> bs_value s2) * bs_value s2\<rparr>"

definition bsize_mul :: "bsize_t \<Rightarrow> bsize_t \<Rightarrow> bsize_t" where
  "bsize_mul s1 s2 =
     \<lparr>is_overflow = (is_overflow s1 \<or> is_overflow s2 \<or>
        (bs_value s1 \<noteq> 0 \<and> bs_value s2 > (-1) div bs_value s1)),
      bs_value = bs_value s1 * bs_value s2\<rparr>"

text \<open>The exact arithmetic it stands for: a natural below \<open>2 ^ 64\<close>, or an overflow.\<close>

definition bsize_abs :: "bsize_t \<Rightarrow> nat option" where
  "bsize_abs s = (if is_overflow s then None else Some (unat (bs_value s)))"

definition fits_size :: "nat \<Rightarrow> nat option" where
  "fits_size n = (if n < 2 ^ 64 then Some n else None)"

lemma bsize_abs_fromsize: "bsize_abs (bsize_fromsize v) = Some (unat v)"
  by (simp add: bsize_abs_def bsize_fromsize_def)

lemma bsize_abs_add:
  "bsize_abs (bsize_add s1 s2) =
     Option.bind (bsize_abs s1) (\<lambda>a. Option.bind (bsize_abs s2) (\<lambda>b. fits_size (a + b)))"
  using add_unsigned_overflows_iff [of "bs_value s1" "bs_value s2"]
  by (auto simp: bsize_abs_def bsize_add_def fits_size_def add_unsigned_overflows_def unat_word_ariths)

lemma bsize_abs_max:
  "bsize_abs (bsize_max s1 s2) =
     Option.bind (bsize_abs s1) (\<lambda>a. Option.bind (bsize_abs s2) (\<lambda>b. Some (max a b)))"
  by (auto simp: bsize_abs_def bsize_max_def max_def word_le_nat_alt word_less_nat_alt)

lemma div_less_iff_mult: "0 < (a :: nat) \<Longrightarrow> m div a < b \<longleftrightarrow> m < a * b"
  by (metis div_less_iff_less_mult mult.commute)

lemma bsize_abs_mul:
  "bsize_abs (bsize_mul s1 s2) =
     Option.bind (bsize_abs s1) (\<lambda>a. Option.bind (bsize_abs s2) (\<lambda>b. fits_size (a * b)))"
proof -
  let ?a = "unat (bs_value s1)" and ?b = "unat (bs_value s2)"
  have "(bs_value s1 \<noteq> 0 \<and> bs_value s2 > (-1) div bs_value s1) \<longleftrightarrow> ?a * ?b \<ge> 2 ^ 64"
  proof (cases "bs_value s1 = 0")
    case False
    then have "0 < ?a" by (simp add: unat_gt_0)
    then have "(2 ^ 64 - 1) div ?a < ?b \<longleftrightarrow> ?a * ?b \<ge> 2 ^ 64"
      by (simp add: div_less_iff_mult) linarith
    with False show ?thesis
      by (simp add: word_less_nat_alt unat_div unat_max_word)
  qed simp
  then show ?thesis
    by (auto simp: bsize_abs_def bsize_mul_def fits_size_def unat_word_ariths)
qed

end
