(* ===== verification/BSort.thy ===== *)
theory BSort
  imports Misc_Arith "HOL-Library.Multiset"
begin

text \<open>
  The insertion sort of \<open>src/misc/bsort.h\<close> and its one client, the resolver configuration of
  \<open>src/ncd/modules/net_dns.c\<close>, which asks for a stable sort of the registered DNS lines.
\<close>

subsection \<open>The sort\<close>

text \<open>
  \<open>BInsertionSort\<close> works on an array of \<open>count\<close> elements of \<open>esize\<close> bytes, here a list of
  elements; \<open>compatator\<close> is the caller's three-way comparison. The inner loop swaps the
  element at \<open>j\<close> downwards until it meets one that is not greater.
\<close>

fun bsort_inner :: "('a \<Rightarrow> 'a \<Rightarrow> int) \<Rightarrow> 'a list \<Rightarrow> nat \<Rightarrow> 'a list" where
  "bsort_inner compatator arr 0 = arr"
| "bsort_inner compatator arr (Suc j) =
     (let x = arr ! j; y = arr ! Suc j in
      if compatator x y \<le> 0 then arr
      else bsort_inner compatator (arr[j := y, Suc j := x]) j)"

fun bsort_outer :: "('a \<Rightarrow> 'a \<Rightarrow> int) \<Rightarrow> 'a list \<Rightarrow> nat list \<Rightarrow> 'a list" where
  "bsort_outer compatator arr [] = arr"
| "bsort_outer compatator arr (i # is) = bsort_outer compatator (bsort_inner compatator arr i) is"

definition BInsertionSort :: "('a \<Rightarrow> 'a \<Rightarrow> int) \<Rightarrow> 'a list \<Rightarrow> 'a list" where
  "BInsertionSort compatator arr = bsort_outer compatator arr [0..<length arr]"

subsection \<open>The contract of a comparison callback\<close>

text \<open>The sign of the callback is a total preorder. Nothing more is needed for a stable sort.\<close>

locale comparator =
  fixes cmp :: "'a \<Rightarrow> 'a \<Rightarrow> int"
  assumes cmp_total: "cmp x y \<le> 0 \<or> cmp y x \<le> 0"
    and cmp_trans: "cmp x y \<le> 0 \<Longrightarrow> cmp y z \<le> 0 \<Longrightarrow> cmp x z \<le> 0"
begin

abbreviation le :: "'a \<Rightarrow> 'a \<Rightarrow> bool" where "le x y \<equiv> cmp x y \<le> 0"
abbreviation same :: "'a \<Rightarrow> 'a \<Rightarrow> bool" where "same z y \<equiv> le z y \<and> le y z"

text \<open>One run of the inner loop moves its element left over the strictly greater ones.\<close>

lemma bsort_inner_splits:
  "\<exists>us vs. xs = us @ vs \<and> bsort_inner cmp (xs @ x # ys) (length xs) = us @ x # vs @ ys \<and>
     (us \<noteq> [] \<longrightarrow> le (last us) x) \<and> (\<forall>v\<in>set vs. \<not> le v x)"
proof (induction xs arbitrary: ys rule: rev_induct)
  case Nil
  show ?case by simp
next
  case (snoc a xs)
  show ?case
  proof (cases "le a x")
    case True
    then show ?thesis
      by (intro exI [of _ "xs @ [a]"] exI [of _ "[]"]) (simp add: nth_append)
  next
    case False
    have swap: "((xs @ [a]) @ x # ys)[length xs := x, Suc (length xs) := a] = xs @ x # a # ys"
      by (simp add: list_update_append)
    obtain us vs where "xs = us @ vs"
      "bsort_inner cmp (xs @ x # a # ys) (length xs) = us @ x # vs @ a # ys"
      "us \<noteq> [] \<longrightarrow> le (last us) x" "\<forall>v\<in>set vs. \<not> le v x"
      using snoc [of "a # ys"] by auto
    with False swap show ?thesis
      by (intro exI [of _ us] exI [of _ "vs @ [a]"]) (simp add: nth_append)
  qed
qed

lemma le_last:
  "sorted_wrt le us \<Longrightarrow> le (last us) x \<Longrightarrow> u \<in> set us \<Longrightarrow> le u x"
  by (induction us rule: rev_induct) (auto simp: sorted_wrt_append intro: cmp_trans)

lemma bsort_inner_step:
  assumes "sorted_wrt le xs"
  obtains zs where "bsort_inner cmp (xs @ x # ys) (length xs) = zs @ ys"
    "sorted_wrt le zs" "mset zs = mset (xs @ [x])"
    "\<And>z. filter (same z) zs = filter (same z) (xs @ [x])"
proof -
  obtain us vs where xs: "xs = us @ vs"
    and r: "bsort_inner cmp (xs @ x # ys) (length xs) = us @ x # vs @ ys"
    and us: "us \<noteq> [] \<longrightarrow> le (last us) x" and vs: "\<forall>v\<in>set vs. \<not> le v x"
    using bsort_inner_splits [of xs x ys] by blast
  have "sorted_wrt le (us @ x # vs)"
    using assms us vs cmp_total by (auto simp: xs sorted_wrt_append dest: le_last)
  moreover have "filter (same z) (us @ x # vs) = filter (same z) (xs @ [x])" for z
  proof (cases "same z x")
    case True
    with vs have "filter (same z) vs = []"
      by (auto simp: filter_empty_conv intro: cmp_trans)
    then show ?thesis by (simp add: xs)
  qed (auto simp: xs)
  ultimately show thesis using r that [of "us @ x # vs"] by (simp add: xs)
qed

lemma bsort_outer_correct:
  assumes "sorted_wrt le xs"
  shows "\<exists>zs. bsort_outer cmp (xs @ ys) [length xs..<length (xs @ ys)] = zs \<and> sorted_wrt le zs \<and>
    mset zs = mset (xs @ ys) \<and> (\<forall>z. filter (same z) zs = filter (same z) (xs @ ys))"
  using assms
proof (induction ys arbitrary: xs)
  case Nil
  then show ?case by simp
next
  case (Cons y ys)
  obtain zs where zs: "bsort_inner cmp (xs @ y # ys) (length xs) = zs @ ys"
    "sorted_wrt le zs" "mset zs = mset (xs @ [y])" and
    st: "\<And>z. filter (same z) zs = filter (same z) (xs @ [y])"
    by (rule bsort_inner_step [OF Cons.prems, of y ys]) (rule that)
  have len: "length zs = Suc (length xs)"
    using mset_eq_length [OF zs(3)] by simp
  have up: "[length xs..<length (xs @ y # ys)] = length xs # [length zs..<length (zs @ ys)]"
    by (simp add: len upt_conv_Cons del: upt_Suc)
  obtain ws where "bsort_outer cmp (zs @ ys) [length zs..<length (zs @ ys)] = ws"
    "sorted_wrt le ws" "mset ws = mset (zs @ ys)"
    "\<forall>z. filter (same z) ws = filter (same z) (zs @ ys)"
    using Cons.IH [OF zs(2)] by blast
  with zs st up show ?case by (simp del: upt_Suc)
qed

theorem BInsertionSort_sorts:
  "sorted_wrt le (BInsertionSort cmp arr)"
  "mset (BInsertionSort cmp arr) = mset arr"
  "filter (same z) (BInsertionSort cmp arr) = filter (same z) arr"
  using bsort_outer_correct [of "[]" arr] by (auto simp: BInsertionSort_def)

end

subsection \<open>Name servers in priority order\<close>

record dns_entry =
  line :: string
  priority :: int

definition dns_sort_comparator :: "dns_entry \<Rightarrow> dns_entry \<Rightarrow> int" where
  "dns_sort_comparator e1 e2 = B_COMPARE (priority e1) (priority e2)"

interpretation dns: comparator dns_sort_comparator
  by unfold_locales (auto simp: dns_sort_comparator_def)

lemma dns_le_iff: "dns_sort_comparator e1 e2 \<le> 0 \<longleftrightarrow> priority e1 \<le> priority e2"
  by (simp add: dns_sort_comparator_def)

text \<open>
  The module's state is the list of its instances, each with its list of entries.
  \<open>concat_ok\<close> is the outcome of the allocations of \<open>add_dns_entry\<close>.
\<close>

type_synonym dns_instance = "dns_entry list"

definition add_dns_entry ::
  "bool \<Rightarrow> dns_instance \<Rightarrow> string \<Rightarrow> string \<Rightarrow> int \<Rightarrow> dns_instance option" where
  "add_dns_entry concat_ok entries type value prio =
     (if concat_ok
      then Some (entries @ [\<lparr>line = type @ '' '' @ value @ [CHR 0x0A], priority = prio\<rparr>])
      else None)"

definition count_entries :: "dns_instance list \<Rightarrow> nat" where
  "count_entries g = foldl (\<lambda>c entries. foldl (\<lambda>c e. c + 1) c entries) 0 g"

text \<open>The sort array is filled instance by instance, in list order.\<close>

definition dns_sort_array :: "dns_instance list \<Rightarrow> dns_entry list" where
  "dns_sort_array g = foldl (\<lambda>arr entries. foldl (\<lambda>arr e. arr @ [e]) arr entries) [] g"

text \<open>
  \<open>set_servers\<close> with the outcomes of its allocations and of writing the file as arguments:
  it returns the function's result and the text handed to \<open>NCDIfConfig_set_resolv_conf\<close>.
\<close>

definition set_servers ::
  "bool \<Rightarrow> bool \<Rightarrow> (string \<Rightarrow> bool) \<Rightarrow> dns_instance list \<Rightarrow> bool \<times> string option" where
  "set_servers array_ok expstring_ok set_resolv_conf g =
     (if \<not> array_ok then (False, None)
      else let sort_entries = BInsertionSort dns_sort_comparator (dns_sort_array g) in
        if \<not> expstring_ok then (False, None)
        else let estr = foldl (\<lambda>estr e. estr @ line e) [] sort_entries in
          if \<not> set_resolv_conf estr then (False, Some estr)
          else (True, Some estr))"

lemma foldl_snoc: "foldl (\<lambda>arr e. arr @ [f e]) acc xs = acc @ map f xs"
  by (induction xs arbitrary: acc) simp_all

lemma foldl_append: "foldl (\<lambda>acc e. acc @ f e) acc xs = acc @ concat (map f xs)"
  by (induction xs arbitrary: acc) simp_all

lemma foldl_count: "foldl (\<lambda>c e. Suc c) c xs = c + length xs"
  by (induction xs arbitrary: c) simp_all

lemma dns_sort_array_concat: "dns_sort_array g = concat g"
proof -
  have "foldl (\<lambda>arr entries. foldl (\<lambda>arr e. arr @ [e]) arr entries) acc g = acc @ concat g" for acc
    by (induction g arbitrary: acc) (simp_all add: foldl_snoc [where f = "\<lambda>e. e", simplified])
  then show ?thesis by (simp add: dns_sort_array_def)
qed

lemma count_entries_length: "count_entries g = length (dns_sort_array g)"
proof -
  have "foldl (\<lambda>c entries. foldl (\<lambda>c e. c + 1) c entries) c g = c + length (concat g)" for c
    by (induction g arbitrary: c) (simp_all add: foldl_count)
  then show ?thesis by (simp add: count_entries_def dns_sort_array_concat)
qed

text \<open>
  C31: \<open>set_servers\<close> writes the lines of all entries of all instances, each exactly once, in
  order of increasing priority, and lines of equal priority stay in the order in which the
  instances and their entries are listed.
\<close>

theorem set_servers_stable:
  "\<exists>es. set_servers True True wr g = (wr (concat (map line es)), Some (concat (map line es))) \<and>
     mset es = mset (concat g) \<and>
     sorted (map priority es) \<and>
     (\<forall>p. filter (\<lambda>e. priority e = p) es = filter (\<lambda>e. priority e = p) (concat g))"
proof -
  let ?es = "BInsertionSort dns_sort_comparator (concat g)"
  have "sorted (map priority ?es)"
    using dns.BInsertionSort_sorts(1) [of "concat g"] by (simp add: sorted_map dns_le_iff)
  moreover have "filter (\<lambda>e. priority e = p) ?es = filter (\<lambda>e. priority e = p) (concat g)" for p
  proof -
    have "(\<lambda>e. priority e = p) =
      (\<lambda>e. dns_sort_comparator \<lparr>line = [], priority = p\<rparr> e \<le> 0 \<and>
           dns_sort_comparator e \<lparr>line = [], priority = p\<rparr> \<le> 0)"
      by (auto simp: fun_eq_iff dns_le_iff)
    then show ?thesis
      using dns.BInsertionSort_sorts(3) [of "\<lparr>line = [], priority = p\<rparr>" "concat g"] by simp
  qed
  ultimately show ?thesis
    using dns.BInsertionSort_sorts(2) [of "concat g"]
    by (intro exI [of _ ?es]) (simp add: set_servers_def Let_def dns_sort_array_concat foldl_append)
qed

end
