(* ===== verification/ParseNumber.thy ===== *)
theory ParseNumber
  imports Badvpn_Prelude
begin

text \<open>
  Numeric strings: \<open>src/misc/parse_number.h\<close>. A \<open>MemRef\<close> (pointer and length) is the string
  it refers to; \<open>uintmax_t\<close> is a 64-bit word, so that the multiplication in the digit loop wraps
  exactly as in C and the absence of overflow is a theorem.
\<close>

subsection \<open>Digits\<close>

text \<open>The \<open>switch\<close> statements as tables from characters to digit values, \<open>-1\<close> by default.\<close>

definition decode_decimal_digit :: "char \<Rightarrow> int" where
  "decode_decimal_digit c =
     (case map_of (zip ''0123456789'' [0..9]) c of Some d \<Rightarrow> d | None \<Rightarrow> -1)"

definition decode_hex_digit :: "char \<Rightarrow> int" where
  "decode_hex_digit c =
     (case map_of (zip ''0123456789'' [0..9] @ zip ''ABCDEF'' [10..15] @ zip ''abcdef'' [10..15]) c
      of Some d \<Rightarrow> d | None \<Rightarrow> -1)"

subsection \<open>Parsing\<close>

definition uintmax_max_str :: string where
  "uintmax_max_str = ''18446744073709551615''"

text \<open>\<open>memcmp\<close> of two byte strings of one length: the sign of the first difference.\<close>

fun memcmp :: "char list \<Rightarrow> char list \<Rightarrow> int" where
  "memcmp (a # as) (b # bs) =
     (if of_char a < (of_char b :: nat) then -1
      else if of_char a > (of_char b :: nat) then 1 else memcmp as bs)"
| "memcmp _ _ = 0"

fun parse_no_overflow_loop :: "string \<Rightarrow> u64 \<Rightarrow> u64 option" where
  "parse_no_overflow_loop [] n = Some n"
| "parse_no_overflow_loop (c # str) n =
     (if of_char c < (48 :: nat) \<or> of_char c > (57 :: nat) then None
      else parse_no_overflow_loop str (10 * n + (of_nat (of_char c) - 48)))"

definition parse_no_overflow :: "string \<Rightarrow> u64 option" where
  "parse_no_overflow str = parse_no_overflow_loop str 0"

fun skip_zeros :: "string \<Rightarrow> string" where
  "skip_zeros (c # str) = (if c = CHR ''0'' then skip_zeros str else c # str)"
| "skip_zeros [] = []"

definition parse_unsigned_integer :: "string \<Rightarrow> u64 option" where
  "parse_unsigned_integer str0 =
     (if length str0 = 0 then None
      else let str = skip_zeros str0 in
        if length str > length uintmax_max_str \<or>
           (length str = length uintmax_max_str \<and> memcmp str uintmax_max_str > 0) then None
        else parse_no_overflow str)"

fun parse_hex_loop :: "string \<Rightarrow> u64 \<Rightarrow> u64 option" where
  "parse_hex_loop [] n = Some n"
| "parse_hex_loop (c # str) n =
     (let digit = decode_hex_digit c in
      if digit < 0 then None
      else if n > (-1) div 16 then None
      else let n = n * 16 in
        if of_int digit > (-1) - n then None
        else parse_hex_loop str (n + of_int digit))"

definition parse_unsigned_hex_integer :: "string \<Rightarrow> u64 option" where
  "parse_unsigned_hex_integer str = (if length str = 0 then None else parse_hex_loop str 0)"

definition parse_signmag_integer :: "string \<Rightarrow> (int \<times> u64) option" where
  "parse_signmag_integer str =
     (let (sign, str) =
        (case str of [] \<Rightarrow> (1, str)
         | c # rest \<Rightarrow> if c = CHR ''+'' \<or> c = CHR ''-''
                       then (1 - 2 * of_bool (c = CHR ''-''), rest) else (1, str))
      in case parse_unsigned_integer str of None \<Rightarrow> None | Some mag \<Rightarrow> Some (sign, mag))"

subsection \<open>Printing\<close>

text \<open>The generator fills the caller's buffer from the end of the representation backwards.\<close>

lemma word_div10_less:
  assumes "x div 10 \<noteq> 0"
  shows "unat (x div 10 :: u64) < unat x"
proof -
  have "x \<noteq> 0" using assms by auto
  then have "0 < unat x" by (simp add: unat_gt_0)
  then show ?thesis by (simp add: unat_div)
qed

function compute_decimal_repr_size_loop :: "u64 \<Rightarrow> int \<Rightarrow> int" where
  "compute_decimal_repr_size_loop x sz =
     (let sz = sz + 1; x' = x div 10 in
      if x' > 0 then compute_decimal_repr_size_loop x' sz else sz)"
  by pat_completeness auto
termination
  by (relation "measure (\<lambda>(x, sz). unat x)") (auto simp: word_neq_0_conv intro: word_div10_less)

definition compute_decimal_repr_size :: "u64 \<Rightarrow> int" where
  "compute_decimal_repr_size x = compute_decimal_repr_size_loop x 0"

function generate_decimal_repr_loop :: "u64 \<Rightarrow> char list \<Rightarrow> nat \<Rightarrow> char list" where
  "generate_decimal_repr_loop x out p =
     (let p' = p - 1; out' = out[p' := char_of (48 + unat (x mod 10))]; x' = x div 10 in
      if x' > 0 then generate_decimal_repr_loop x' out' p' else out')"
  by pat_completeness auto
termination
  by (relation "measure (\<lambda>(x, out, p). unat x)") (auto simp: word_neq_0_conv intro: word_div10_less)

definition generate_decimal_repr :: "u64 \<Rightarrow> char list \<Rightarrow> int \<Rightarrow> char list" where
  "generate_decimal_repr x out repr_size = generate_decimal_repr_loop x out (nat repr_size)"

definition generate_decimal_repr_string :: "u64 \<Rightarrow> char list \<Rightarrow> int \<times> char list" where
  "generate_decimal_repr_string x out =
     (let repr_size = compute_decimal_repr_size x;
          out = generate_decimal_repr x out repr_size
      in (repr_size, out[nat repr_size := CHR 0x00]))"

declare compute_decimal_repr_size_loop.simps [simp del]
  generate_decimal_repr_loop.simps [simp del]

subsection \<open>What a digit string denotes\<close>

definition is_digit :: "char \<Rightarrow> bool" where
  "is_digit c \<longleftrightarrow> 48 \<le> (of_char c :: nat) \<and> (of_char c :: nat) \<le> 57"

definition digit_val :: "char \<Rightarrow> nat" where
  "digit_val c = of_char c - 48"

fun decimal_val :: "string \<Rightarrow> nat" where
  "decimal_val [] = 0"
| "decimal_val (c # s) = digit_val c * 10 ^ length s + decimal_val s"

lemma digit_val_less: "is_digit c \<Longrightarrow> digit_val c < 10"
  by (auto simp: is_digit_def digit_val_def)

lemma decimal_val_append: "decimal_val (s @ t) = decimal_val s * 10 ^ length t + decimal_val t"
  by (induction s) (simp_all add: algebra_simps power_add)

lemma decimal_val_less: "\<forall>c\<in>set s. is_digit c \<Longrightarrow> decimal_val s < 10 ^ length s"
proof (induction s)
  case (Cons c s)
  then have "digit_val c * 10 ^ length s \<le> 9 * 10 ^ length s"
    using digit_val_less [of c] by (intro mult_right_mono) auto
  moreover have "decimal_val s < 10 ^ length s" using Cons by simp
  ultimately show ?case unfolding decimal_val.simps length_Cons power_Suc by linarith
qed simp

lemma memcmp_decimal:
  assumes "length s = length t" "\<forall>c\<in>set s. is_digit c" "\<forall>c\<in>set t. is_digit c"
  shows "memcmp s t > 0 \<longleftrightarrow> decimal_val s > decimal_val t"
  using assms
proof (induction s t rule: list_induct2)
  case (Cons a s b t)
  have val: "digit_val x * 10 ^ n + v < digit_val y * 10 ^ n + w"
    if "digit_val x < digit_val y" "v < 10 ^ n" for x y n v w
  proof -
    have "digit_val x * 10 ^ n + v < Suc (digit_val x) * 10 ^ n" using that by simp
    also have "\<dots> \<le> digit_val y * 10 ^ n" using that by (intro mult_right_mono) auto
    finally show ?thesis by simp
  qed
  have less: "decimal_val s < 10 ^ length s" "decimal_val t < 10 ^ length t"
    using Cons.prems by (auto intro: decimal_val_less)
  have dig: "is_digit a" "is_digit b" using Cons.prems by auto
  consider (lt) "digit_val a < digit_val b" | (gt) "digit_val a > digit_val b"
    | (eq) "digit_val a = digit_val b" by linarith
  then show ?case
  proof cases
    case lt
    with val [of a b "decimal_val s" "length s" "decimal_val t"] less dig Cons.hyps show ?thesis
      by (auto simp: digit_val_def is_digit_def)
  next
    case gt
    with val [of b a "decimal_val t" "length t" "decimal_val s"] less dig Cons.hyps show ?thesis
      by (auto simp: digit_val_def is_digit_def)
  next
    case eq
    with dig Cons show ?thesis by (auto simp: digit_val_def is_digit_def)
  qed
qed simp

lemma of_nat_digit:
  "is_digit c \<Longrightarrow> (of_nat (of_char c) - 48 :: u64) = of_nat (digit_val c)"
  by (simp add: is_digit_def digit_val_def)

lemma parse_no_overflow_loop_eq:
  "parse_no_overflow_loop s (of_nat a) =
     (if \<forall>c\<in>set s. is_digit c then Some (of_nat (a * 10 ^ length s + decimal_val s)) else None)"
proof (induction s arbitrary: a)
  case (Cons c s)
  show ?case
  proof (cases "is_digit c")
    case True
    then have "(10 * of_nat a + (of_nat (of_char c) - 48) :: u64) = of_nat (10 * a + digit_val c)"
      by (simp add: of_nat_digit)
    with True Cons.IH [of "10 * a + digit_val c"] show ?thesis
      by (simp add: is_digit_def algebra_simps)
  qed (auto simp: is_digit_def)
qed simp

lemma skip_zeros_split: "\<exists>n. s = replicate n (CHR ''0'') @ skip_zeros s"
proof (induction s)
  case (Cons c s)
  then show ?case
    by (metis append_Cons append_Nil replicate_0 replicate_Suc skip_zeros.simps(1))
qed simp

lemma skip_zeros_hd: "skip_zeros s = c # t \<Longrightarrow> c \<noteq> CHR ''0''"
  by (induction s rule: skip_zeros.induct) (auto split: if_splits)

lemma decimal_val_zeros [simp]: "decimal_val (replicate n (CHR ''0'')) = 0"
  by (induction n) (simp_all add: digit_val_def)

lemma skip_zeros_props:
  "decimal_val (skip_zeros s) = decimal_val s"
  "(\<forall>c\<in>set (skip_zeros s). is_digit c) \<longleftrightarrow> (\<forall>c\<in>set s. is_digit c)"
proof -
  obtain n where n: "s = replicate n (CHR ''0'') @ skip_zeros s" using skip_zeros_split by blast
  show "decimal_val (skip_zeros s) = decimal_val s"
    by (subst (2) n) (simp add: decimal_val_append)
  have "is_digit (CHR ''0'')" by (simp add: is_digit_def)
  then show "(\<forall>c\<in>set (skip_zeros s). is_digit c) \<longleftrightarrow> (\<forall>c\<in>set s. is_digit c)"
    by (subst (2) n) (auto simp: in_set_replicate)
qed

lemma decimal_val_ge:
  assumes "s = c # t" "is_digit c" "c \<noteq> CHR ''0''"
  shows "10 ^ (length s - 1) \<le> decimal_val s"
proof -
  have "of_char c \<noteq> (48 :: nat)"
  proof
    assume "of_char c = (48 :: nat)"
    then have "of_char c = (of_char (CHR ''0'') :: nat)" by simp
    then show False using assms by (metis char_of_char)
  qed
  with assms have "1 \<le> digit_val c" by (auto simp: digit_val_def is_digit_def)
  then have "1 * 10 ^ length t \<le> digit_val c * 10 ^ length t" by (rule mult_right_mono) simp
  also have "\<dots> \<le> decimal_val s" using assms by simp
  finally show ?thesis using assms by simp
qed

lemma uintmax_max_str_props:
  "length uintmax_max_str = 20" "decimal_val uintmax_max_str = 2 ^ 64 - 1"
  "\<forall>c\<in>set uintmax_max_str. is_digit c"
  by (simp_all add: uintmax_max_str_def digit_val_def is_digit_def)

text \<open>The length and \<open>memcmp\<close> test rejects exactly the digit strings of \<open>2 ^ 64\<close> and above.\<close>

lemma overflow_check_iff:
  assumes dig: "\<forall>c\<in>set s. is_digit c"
  shows "(length (skip_zeros s) > length uintmax_max_str \<or>
      length (skip_zeros s) = length uintmax_max_str \<and> memcmp (skip_zeros s) uintmax_max_str > 0)
    \<longleftrightarrow> decimal_val s \<ge> 2 ^ 64"
proof -
  let ?t = "skip_zeros s"
  have dt: "\<forall>c\<in>set ?t. is_digit c" and v: "decimal_val s = decimal_val ?t"
    using dig by (simp_all add: skip_zeros_props)
  have pow: "(10 :: nat) ^ 19 < 2 ^ 64" "(2 :: nat) ^ 64 < 10 ^ 20" by simp_all
  consider "length ?t < 20" | "length ?t = 20" | "length ?t > 20" by linarith
  then show ?thesis
  proof cases
    case 1
    then have "(10 :: nat) ^ length ?t \<le> 10 ^ 19" by (intro power_increasing) auto
    with decimal_val_less [OF dt] pow have "decimal_val ?t < 2 ^ 64" by linarith
    with 1 show ?thesis by (simp add: v uintmax_max_str_props not_le)
  next
    case 2
    then have "memcmp ?t uintmax_max_str > 0 \<longleftrightarrow> decimal_val ?t > 2 ^ 64 - 1"
      using memcmp_decimal [of ?t uintmax_max_str] dt uintmax_max_str_props by simp
    with 2 show ?thesis by (simp add: v uintmax_max_str_props) linarith
  next
    case 3
    then obtain c t where ct: "?t = c # t" by (cases ?t) auto
    have "10 ^ (length ?t - 1) \<le> decimal_val ?t"
      using decimal_val_ge [OF ct] dt skip_zeros_hd [OF ct] ct by auto
    moreover have "(10 :: nat) ^ 20 \<le> 10 ^ (length ?t - 1)"
      using 3 by (intro power_increasing) auto
    ultimately have "decimal_val ?t \<ge> 2 ^ 64" using pow by linarith
    with 3 show ?thesis by (simp add: v uintmax_max_str_props)
  qed
qed

lemma parse_unsigned_integer_eq:
  "parse_unsigned_integer s =
     (if s \<noteq> [] \<and> (\<forall>c\<in>set s. is_digit c) \<and> decimal_val s < 2 ^ 64
      then Some (of_nat (decimal_val s)) else None)"
proof (cases "\<forall>c\<in>set s. is_digit c")
  case True
  then have dt: "\<forall>c\<in>set (skip_zeros s). is_digit c" by (simp add: skip_zeros_props)
  have "parse_no_overflow (skip_zeros s) = Some (of_nat (decimal_val s))"
    using parse_no_overflow_loop_eq [of "skip_zeros s" 0] dt
    by (simp add: parse_no_overflow_def skip_zeros_props)
  with True overflow_check_iff [OF True] show ?thesis
    by (auto simp: parse_unsigned_integer_def Let_def not_less)
next
  case False
  then have "\<not> (\<forall>c\<in>set (skip_zeros s). is_digit c)" by (simp add: skip_zeros_props)
  then have "parse_no_overflow (skip_zeros s) = None"
    using parse_no_overflow_loop_eq [of "skip_zeros s" 0] by (simp add: parse_no_overflow_def)
  then show ?thesis unfolding parse_unsigned_integer_def Let_def using False by simp
qed

text \<open>
  C21: \<open>parse_unsigned_integer\<close> accepts exactly the non-empty strings of decimal digits (leading
  zeros allowed) whose value fits \<open>uintmax_t\<close>, and returns that value: no digit string is
  rejected for its leading zeros, and none overflows.
\<close>

theorem parse_unsigned_integer_spec:
  "parse_unsigned_integer s = Some n \<longleftrightarrow>
     s \<noteq> [] \<and> list_all is_digit s \<and> decimal_val s < 2 ^ 64 \<and> unat n = decimal_val s"
proof -
  have "of_nat (decimal_val s) = n \<longleftrightarrow> unat n = decimal_val s" if "decimal_val s < 2 ^ 64"
    using that by (simp add: of_nat_eq_iff_unat)
  then show ?thesis by (auto simp: parse_unsigned_integer_eq list_all_iff)
qed

subsection \<open>Hexadecimal strings\<close>

fun hex_val :: "string \<Rightarrow> nat" where
  "hex_val [] = 0"
| "hex_val (c # s) = nat (decode_hex_digit c) * 16 ^ length s + hex_val s"

definition is_hex :: "char \<Rightarrow> bool" where
  "is_hex c \<longleftrightarrow> decode_hex_digit c \<ge> 0"

lemma decode_hex_digit_le: "decode_hex_digit c \<le> 15"
  by (auto simp: decode_hex_digit_def split: option.split if_splits dest!: set_zip_rightD)

lemma parse_hex_loop_eq:
  assumes "a < 2 ^ 64"
  shows "parse_hex_loop s (of_nat a) =
     (if list_all is_hex s \<and> a * 16 ^ length s + hex_val s < 2 ^ 64
      then Some (of_nat (a * 16 ^ length s + hex_val s)) else None)"
  using assms
proof (induction s arbitrary: a)
  case (Cons c s)
  let ?d = "nat (decode_hex_digit c)" and ?T = "a * 16 ^ length (c # s) + hex_val (c # s)"
  show ?case
  proof (cases "is_hex c")
    case True
    then have d: "decode_hex_digit c = int ?d" "?d < 16"
      using decode_hex_digit_le [of c] by (auto simp: is_hex_def)
    have T: "?T = (16 * a + ?d) * 16 ^ length s + hex_val s" by (simp add: algebra_simps)
    have ua: "unat (of_nat a :: u64) = a" using Cons.prems by (simp add: unat_of_nat)
    have g1: "(of_nat a :: u64) > (-1) div 16 \<longleftrightarrow> a \<ge> 2 ^ 60"
      by (simp add: word_less_nat_alt unat_div unat_max_word ua) linarith
    show ?thesis
    proof (cases "a < 2 ^ 60")
      case False
      then have "2 ^ 64 \<le> (16 * a + ?d) * 1" by simp
      also have "\<dots> \<le> (16 * a + ?d) * 16 ^ length s" by (intro mult_left_mono) auto
      also have "\<dots> \<le> ?T" unfolding T by simp
      finally show ?thesis using True False g1 by (simp add: is_hex_def Let_def)
    next
      case True': True
      then have m: "(of_nat a * 16 :: u64) = of_nat (16 * a)" and lt: "16 * a + ?d < 2 ^ 64"
        using d by (simp_all add: mult.commute)
      have "unat (of_nat (16 * a) :: u64) = 16 * a"
        using lt unat_of_nat [of "16 * a", where 'a = 64] by (simp del: of_nat_mult)
      moreover have "unat (of_nat ?d :: u64) = ?d" using d by (simp add: unat_of_nat)
      ultimately have g2: "\<not> (of_int (decode_hex_digit c) > (-1) - (of_nat (16 * a) :: u64))"
        using lt d by (simp add: word_less_nat_alt unat_sub unat_max_word word_le_nat_alt)
      have add: "(of_nat (16 * a) + of_int (decode_hex_digit c) :: u64) = of_nat (16 * a + ?d)"
        using d(1) by (metis of_int_of_nat_eq of_nat_add)
      have "\<not> decode_hex_digit c < 0" "\<not> (of_nat a :: u64) > (-1) div 16"
        using True True' g1 by (auto simp: is_hex_def)
      then have "parse_hex_loop (c # s) (of_nat a) = parse_hex_loop s (of_nat (16 * a + ?d))"
        using g2 by (simp only: parse_hex_loop.simps Let_def m add if_False)
      then show ?thesis using True by (simp only: Cons.IH [OF lt] T list.pred_inject simp_thms)
    qed
  qed (simp add: is_hex_def)
qed simp


subsection \<open>The decimal representation\<close>

text \<open>The digits of a number, most significant first: what \<open>printf\<close> writes for \<open>%u\<close>.\<close>

fun dec_digits :: "nat \<Rightarrow> string" where
  "dec_digits n = (if n < 10 then [char_of (48 + n)] else dec_digits (n div 10) @ [char_of (48 + n mod 10)])"

declare dec_digits.simps [simp del]

lemma digit_char:
  assumes "d < 10"
  shows "is_digit (char_of (48 + d :: nat))" "digit_val (char_of (48 + d)) = d"
  using assms by (simp_all add: is_digit_def digit_val_def)

lemma dec_digits_props:
  "decimal_val (dec_digits n) = n \<and> list_all is_digit (dec_digits n) \<and> dec_digits n \<noteq> []"
proof (induction n rule: dec_digits.induct)
  case (1 n)
  show ?case
  proof (cases "n < 10")
    case True
    then show ?thesis by (simp add: dec_digits.simps [of n] digit_char)
  next
    case False
    with 1 show ?thesis
      by (simp add: dec_digits.simps [of n] decimal_val_append digit_char list_all_append)
  qed
qed

lemma dec_digits_length_le: "n < 10 ^ k \<Longrightarrow> 0 < k \<Longrightarrow> length (dec_digits n) \<le> k"
proof (induction k arbitrary: n)
  case (Suc k)
  show ?case
  proof (cases "n < 10")
    case True
    then show ?thesis by (simp add: dec_digits.simps)
  next
    case False
    with Suc.prems have "n div 10 < 10 ^ k" "0 < k" by (auto simp: less_mult_imp_div_less mult.commute
        intro: Suc_pred intro!: gr0I)
    with Suc.IH [of "n div 10"] False show ?thesis by (simp add: dec_digits.simps [of n])
  qed
qed simp

lemma word_div10: "unat (x div 10 :: u64) = unat x div 10" "unat (x mod 10 :: u64) = unat x mod 10"
  by (simp_all add: unat_div unat_mod)

lemma word_div10_pos: "(x div 10 :: u64) > 0 \<longleftrightarrow> \<not> unat x < 10"
  by (simp add: word_less_nat_alt word_div10) linarith

lemma compute_decimal_repr_size_loop_eq:
  "compute_decimal_repr_size_loop x sz = sz + int (length (dec_digits (unat x)))"
proof (induction x sz rule: compute_decimal_repr_size_loop.induct)
  case (1 x sz)
  then show ?case
    by (simp add: compute_decimal_repr_size_loop.simps [of x] dec_digits.simps [of "unat x"]
        word_div10_pos word_div10 Let_def)
qed

lemma compute_decimal_repr_size_eq:
  "compute_decimal_repr_size x = int (length (dec_digits (unat x)))"
  by (simp add: compute_decimal_repr_size_def compute_decimal_repr_size_loop_eq)

lemma mem_write_snoc:
  assumes "length ds + 1 \<le> p" "p \<le> length out"
  shows "mem_write (out[p - 1 := d]) (p - 1 - length ds) ds = mem_write out (p - (length ds + 1)) (ds @ [d])"
proof -
  obtain q where q: "p = Suc q" using assms by (cases p) auto
  then have "drop q (out[q := d]) = d # drop (Suc q) out"
    using assms by (simp add: upd_conv_take_nth_drop)
  then show ?thesis using assms q by (simp add: mem_write_def)
qed

lemma generate_decimal_repr_loop_eq:
  assumes "length (dec_digits (unat x)) \<le> p" "p \<le> length out"
  shows "generate_decimal_repr_loop x out p =
    mem_write out (p - length (dec_digits (unat x))) (dec_digits (unat x))"
  using assms
proof (induction x out p rule: generate_decimal_repr_loop.induct)
  case (1 x out p)
  let ?d = "char_of (48 + unat (x mod 10))"
  show ?case
  proof (cases "unat x < 10")
    case True
    with "1.prems" show ?thesis
      by (simp add: generate_decimal_repr_loop.simps [of x] dec_digits.simps [of "unat x"] Let_def
          word_div10_pos word_div10 mem_write_def upd_conv_take_nth_drop)
  next
    case False
    let ?ds = "dec_digits (unat x div 10)"
    have ds: "dec_digits (unat x) = ?ds @ [?d]"
      using False by (simp add: dec_digits.simps [of "unat x"] word_div10)
    have "generate_decimal_repr_loop x out p = generate_decimal_repr_loop (x div 10) (out[p - 1 := ?d]) (p - 1)"
      using False by (simp add: generate_decimal_repr_loop.simps [of x] Let_def word_div10_pos)
    also have "\<dots> = mem_write (out[p - 1 := ?d]) (p - 1 - length ?ds) ?ds"
      using "1.IH" [OF refl refl refl] "1.prems" False ds by (simp add: word_div10_pos word_div10)
    also have "\<dots> = mem_write out (p - (length ?ds + 1)) (?ds @ [?d])"
      using "1.prems" ds by (intro mem_write_snoc) auto
    finally show ?thesis by (simp add: ds)
  qed
qed

text \<open>
  C23: in a buffer with room for it, \<open>generate_decimal_repr_string\<close> writes a null-terminated
  string at the start, leaves the rest of the buffer alone, returns the string's length, and
  \<open>parse_unsigned_integer\<close> reads the string back as the same number.
\<close>

theorem decimal_roundtrip:
  assumes "compute_decimal_repr_size x < int (length out)"
  defines "r \<equiv> generate_decimal_repr_string x out"
  shows "parse_unsigned_integer (take (nat (fst r)) (snd r)) = Some x \<and>
    snd r ! nat (fst r) = CHR 0x00 \<and> CHR 0x00 \<notin> set (take (nat (fst r)) (snd r)) \<and>
    length (snd r) = length out \<and> drop (nat (fst r) + 1) (snd r) = drop (nat (fst r) + 1) out \<and>
    fst r \<le> 20"
proof -
  let ?ds = "dec_digits (unat x)"
  have len: "length ?ds < length out" using assms by (simp add: compute_decimal_repr_size_eq)
  then have r: "r = (int (length ?ds), (?ds @ drop (length ?ds) out)[length ?ds := CHR 0x00])"
    by (simp add: r_def generate_decimal_repr_string_def generate_decimal_repr_def Let_def
        compute_decimal_repr_size_eq generate_decimal_repr_loop_eq mem_write_def)
  have x: "unat x < 2 ^ 64" using unsigned_less [of x] by simp
  then have "unat x < 10 ^ 20" by simp
  then have "length ?ds \<le> 20" by (rule dec_digits_length_le) simp
  moreover have "parse_unsigned_integer ?ds = Some x"
    using dec_digits_props [of "unat x"] x by (simp add: parse_unsigned_integer_eq list_all_iff)
  moreover have "CHR 0x00 \<notin> set ?ds"
    using dec_digits_props [of "unat x"] by (auto simp: list_all_iff is_digit_def)
  ultimately show ?thesis using len by (simp add: r list_update_append nth_append)
qed

theorem decimal_roundtrip_witness:
  "parse_unsigned_integer (take 2 (snd (generate_decimal_repr_string 42 (replicate 21 CHR ''x'')))) = Some 42"
proof -
  have "compute_decimal_repr_size 42 = 2"
    by (simp add: compute_decimal_repr_size_eq dec_digits.simps)
  moreover have "fst (generate_decimal_repr_string 42 (replicate 21 CHR ''x'')) = 2"
    by (simp add: generate_decimal_repr_string_def Let_def compute_decimal_repr_size_eq dec_digits.simps)
  ultimately show ?thesis
    using decimal_roundtrip [of 42 "replicate 21 CHR ''x''"] by simp
qed

end
