(* ===== verification/IpAddr.thy ===== *)
theory IpAddr
  imports Byteorder ParseNumber
begin

text \<open>
  IPv4 addresses: \<open>src/misc/ipaddr.h\<close>, with the searching helpers it uses from
  \<open>src/misc/memref.h\<close>. A \<open>uint32_t\<close> address holds its four bytes in network order in the
  host's memory, so the host's byte order is a parameter and every result is stated through
  \<open>ntoh32\<close> or the memory image.
\<close>

subsection \<open>Searching\<close>

fun find_char_from :: "string \<Rightarrow> char \<Rightarrow> nat \<Rightarrow> nat option" where
  "find_char_from [] ch i = None"
| "find_char_from (c # cs) ch i = (if c = ch then Some i else find_char_from cs ch (Suc i))"

definition MemRef_FindChar :: "string \<Rightarrow> char \<Rightarrow> nat option" where
  "MemRef_FindChar str ch = find_char_from str ch 0"

definition MemRef_SubTo :: "string \<Rightarrow> nat \<Rightarrow> string" where
  "MemRef_SubTo str len = take len str"

definition MemRef_SubFrom :: "string \<Rightarrow> nat \<Rightarrow> string" where
  "MemRef_SubFrom str offset = drop offset str"

subsection \<open>Parsing\<close>

record ipv4_ifaddr =
  ifaddr_addr :: u32
  ifaddr_prefix :: int

text \<open>The inner \<open>for\<close>: the position of the next dot, or the length if there is none.\<close>

fun dot_pos :: "string \<Rightarrow> nat" where
  "dot_pos [] = 0"
| "dot_pos (c # cs) = (if c \<noteq> CHR ''.'' then Suc (dot_pos cs) else 0)"

lemma dot_pos_le: "dot_pos cs \<le> length cs"
  by (induction cs) auto

text \<open>The outer loop, with the bytes of \<open>*out_addr\<close> written so far.\<close>

function ipv4_addr_loop :: "string \<Rightarrow> nat \<Rightarrow> bytes \<Rightarrow> bytes option" where
  "ipv4_addr_loop name i out =
     (let j = dot_pos name in
      if (j = length name \<and> i < 3) \<or> (j < length name \<and> i = 3) then None
      else if j < 1 \<or> j > 3 then None
      else case parse_unsigned_integer (MemRef_SubTo name j) of None \<Rightarrow> None
        | Some d \<Rightarrow>
            if d > 255 then None
            else let out = out @ [ucast d] in
              if i = 3 then Some out
              else ipv4_addr_loop (drop (j + 1) name) (i + 1) out)"
  by pat_completeness auto
termination
proof (relation "measure (\<lambda>(name, i, out). length name)", goal_cases)
  case (2 name i out)
  then show ?case using dot_pos_le [of name] by auto
qed simp

declare ipv4_addr_loop.simps [simp del]

definition ipaddr_parse_ipv4_addr :: "host \<Rightarrow> string \<Rightarrow> u32 option" where
  "ipaddr_parse_ipv4_addr h name = map_option (host_load h) (ipv4_addr_loop name 0 [])"

definition ipaddr_parse_ipv4_prefix :: "string \<Rightarrow> int option" where
  "ipaddr_parse_ipv4_prefix str =
     (case parse_unsigned_integer str of None \<Rightarrow> None
      | Some d \<Rightarrow> if d > 32 then None else Some (uint d))"

definition ipaddr_parse_ipv4_ifaddr :: "host \<Rightarrow> string \<Rightarrow> ipv4_ifaddr option" where
  "ipaddr_parse_ipv4_ifaddr h str =
     (case MemRef_FindChar str (CHR ''/'') of None \<Rightarrow> None
      | Some slash_pos \<Rightarrow>
          (case ipaddr_parse_ipv4_addr h (MemRef_SubTo str slash_pos) of None \<Rightarrow> None
           | Some addr \<Rightarrow>
               (case ipaddr_parse_ipv4_prefix (MemRef_SubFrom str (slash_pos + 1)) of None \<Rightarrow> None
                | Some prefix \<Rightarrow> Some \<lparr>ifaddr_addr = addr, ifaddr_prefix = prefix\<rparr>)))"

subsection \<open>Masks\<close>

text \<open>The mask loop runs \<open>i\<close> from \<open>0\<close>, setting bit \<open>32 - i - 1\<close>.\<close>

definition mask_loop :: "nat \<Rightarrow> u32" where
  "mask_loop prefix = foldl (\<lambda>t i. t OR push_bit (32 - i - 1) 1) 0 [0..<prefix]"

definition ipaddr_ipv4_mask_from_prefix :: "host \<Rightarrow> int \<Rightarrow> u32" where
  "ipaddr_ipv4_mask_from_prefix h prefix = hton32 h (mask_loop (nat prefix))"

function prefix_from_mask_loop :: "u32 \<Rightarrow> u32 \<Rightarrow> nat \<Rightarrow> nat" where
  "prefix_from_mask_loop m t i =
     (if i \<le> 32 then
        if m = t then i
        else prefix_from_mask_loop m (if i < 32 then t OR push_bit (32 - i - 1) 1 else t) (i + 1)
      else i)"
  by pat_completeness auto
termination
  by (relation "measure (\<lambda>(m, t, i). 33 - i)") auto

declare prefix_from_mask_loop.simps [simp del]

definition ipaddr_ipv4_prefix_from_mask :: "host \<Rightarrow> u32 \<Rightarrow> int option" where
  "ipaddr_ipv4_prefix_from_mask h msk =
     (let i = prefix_from_mask_loop (ntoh32 h msk) 0 0 in
      if \<not> i \<le> 32 then None else Some (int i))"

definition ipaddr_ipv4_ifaddr_from_addr_mask :: "host \<Rightarrow> u32 \<Rightarrow> u32 \<Rightarrow> ipv4_ifaddr option" where
  "ipaddr_ipv4_ifaddr_from_addr_mask h addr msk =
     (case ipaddr_ipv4_prefix_from_mask h msk of None \<Rightarrow> None
      | Some prefix \<Rightarrow> Some \<lparr>ifaddr_addr = addr, ifaddr_prefix = prefix\<rparr>)"

definition ipaddr_ipv4_addrs_in_network :: "host \<Rightarrow> u32 \<Rightarrow> u32 \<Rightarrow> int \<Rightarrow> bool" where
  "ipaddr_ipv4_addrs_in_network h addr1 addr2 netprefix =
     (let msk = ipaddr_ipv4_mask_from_prefix h netprefix in (addr1 AND msk) = (addr2 AND msk))"

subsection \<open>Printing\<close>

text \<open>The \<open>sprintf\<close> conversions \<open>%u\<close> and (for a non-negative argument) \<open>%d\<close> write the decimal digits.\<close>

definition ipaddr_print_addr :: "host \<Rightarrow> u32 \<Rightarrow> string" where
  "ipaddr_print_addr h addr =
     (let b = host_store h 4 addr in
      dec_digits (unat (b ! 0)) @ ''.'' @ dec_digits (unat (b ! 1)) @ ''.'' @
      dec_digits (unat (b ! 2)) @ ''.'' @ dec_digits (unat (b ! 3)))"

definition ipaddr_print_ifaddr :: "host \<Rightarrow> ipv4_ifaddr \<Rightarrow> string" where
  "ipaddr_print_ifaddr h ifaddr =
     (let b = host_store h 4 (ifaddr_addr ifaddr) in
      dec_digits (unat (b ! 0)) @ ''.'' @ dec_digits (unat (b ! 1)) @ ''.'' @
      dec_digits (unat (b ! 2)) @ ''.'' @ dec_digits (unat (b ! 3)) @ ''/'' @
      dec_digits (nat (ifaddr_prefix ifaddr)))"

subsection \<open>Text round trip\<close>

lemma dec_digits_no_char: "\<not> is_digit c \<Longrightarrow> c \<notin> set (dec_digits n)"
  using dec_digits_props [of n] by (auto simp: list_all_iff)

lemma parse_dec_digits: "n < 2 ^ 64 \<Longrightarrow> parse_unsigned_integer (dec_digits n) = Some (of_nat n)"
  using dec_digits_props [of n] by (simp add: parse_unsigned_integer_eq list_all_iff)

lemma dec_byte_length: "dec_digits (unat (b :: u8)) \<noteq> []" "length (dec_digits (unat b)) \<le> 3"
proof -
  have "unat b < 2 ^ 8" using unsigned_less [of b] by simp
  then have "unat b < 10 ^ 3" by simp
  then show "length (dec_digits (unat b)) \<le> 3" by (rule dec_digits_length_le) simp
  show "dec_digits (unat b) \<noteq> []" using dec_digits_props [of "unat b"] by simp
qed

lemma dot_pos_append:
  "CHR ''.'' \<notin> set s \<Longrightarrow> dot_pos (s @ t) = length s + dot_pos t"
  by (induction s) auto

lemma ipv4_addr_loop_octet:
  fixes b :: u8
  assumes "i < 3"
  shows "ipv4_addr_loop (dec_digits (unat b) @ CHR ''.'' # rest) i out = ipv4_addr_loop rest (i + 1) (out @ [b])"
proof -
  let ?ds = "dec_digits (unat b)"
  have b: "unat b < 256" using unsigned_less [of b] by simp
  have j: "dot_pos (?ds @ CHR ''.'' # rest) = length ?ds"
    using dec_digits_no_char [of "CHR ''.''" "unat b"] by (simp add: dot_pos_append is_digit_def)
  have p: "parse_unsigned_integer ?ds = Some (of_nat (unat b))" using b by (simp add: parse_dec_digits)
  have d: "\<not> (of_nat (unat b) :: u64) > 255" "ucast (of_nat (unat b) :: u64) = b"
    using b by (simp_all add: word_less_nat_alt unat_ucast_up_byte)
  show ?thesis
    using assms dec_byte_length [of b] d
    by (subst ipv4_addr_loop.simps) (simp add: j p MemRef_SubTo_def Let_def)
qed

lemma ipv4_addr_loop_last:
  fixes b :: u8
  shows "ipv4_addr_loop (dec_digits (unat b)) 3 out = Some (out @ [b])"
proof -
  let ?ds = "dec_digits (unat b)"
  have b: "unat b < 256" using unsigned_less [of b] by simp
  have j: "dot_pos ?ds = length ?ds"
    using dec_digits_no_char [of "CHR ''.''" "unat b"] dot_pos_append [of ?ds "[]"]
    by (simp add: is_digit_def)
  have p: "parse_unsigned_integer ?ds = Some (of_nat (unat b))" using b by (simp add: parse_dec_digits)
  have d: "\<not> (of_nat (unat b) :: u64) > 255" "ucast (of_nat (unat b) :: u64) = b"
    using b by (simp_all add: word_less_nat_alt unat_ucast_up_byte)
  show ?thesis
    using dec_byte_length [of b] d
    by (subst ipv4_addr_loop.simps) (simp add: j p MemRef_SubTo_def Let_def)
qed

lemma ipv4_addr_loop_print:
  "ipv4_addr_loop (dec_digits (unat b0) @ ''.'' @ dec_digits (unat b1) @ ''.'' @
     dec_digits (unat b2) @ ''.'' @ dec_digits (unat b3)) 0 [] = Some [b0, b1, b2, b3]"
  using ipv4_addr_loop_octet [of 0 b0 "dec_digits (unat b1) @ ''.'' @ dec_digits (unat b2) @ ''.'' @ dec_digits (unat b3)" "[]"]
    ipv4_addr_loop_octet [of 1 b1 "dec_digits (unat b2) @ ''.'' @ dec_digits (unat b3)" "[b0]"]
    ipv4_addr_loop_octet [of 2 b2 "dec_digits (unat b3)" "[b0, b1]"]
    ipv4_addr_loop_last [of b3 "[b0, b1, b2]"]
  by (simp add: numeral_2_eq_2 numeral_3_eq_3)

lemma find_char_from_append:
  "ch \<notin> set s \<Longrightarrow> find_char_from (s @ ch # t) ch i = Some (i + length s)"
  by (induction s arbitrary: i) auto

lemma ipaddr_parse_print_addr: "ipaddr_parse_ipv4_addr h (ipaddr_print_addr h addr) = Some addr"
proof -
  have len: "length (host_store h 4 addr) = 4" by simp
  obtain b0 b1 b2 b3 where b: "host_store h 4 addr = [b0, b1, b2, b3]" by (rule length4E [OF len])
  have "host_load h [b0, b1, b2, b3] = addr"
    using host_load_store [where n = 4 and h = h and x = addr] by (simp add: b)
  moreover have "host_store h 4 addr ! 0 = b0" "host_store h 4 addr ! 1 = b1"
    "host_store h 4 addr ! 2 = b2" "host_store h 4 addr ! 3 = b3" by (simp_all add: b)
  ultimately show ?thesis
    unfolding ipaddr_parse_ipv4_addr_def ipaddr_print_addr_def Let_def
    by (simp only: ipv4_addr_loop_print option.map)
qed

lemma ipaddr_print_addr_no_slash: "CHR ''/'' \<notin> set (ipaddr_print_addr h addr)"
proof -
  have "CHR ''/'' \<notin> set (dec_digits n)" for n
    by (rule dec_digits_no_char) (simp add: is_digit_def)
  then show ?thesis by (simp add: ipaddr_print_addr_def Let_def)
qed

lemma ipaddr_print_ifaddr_eq:
  "ipaddr_print_ifaddr h ifaddr =
     ipaddr_print_addr h (ifaddr_addr ifaddr) @ CHR ''/'' # dec_digits (nat (ifaddr_prefix ifaddr))"
  by (simp add: ipaddr_print_ifaddr_def ipaddr_print_addr_def Let_def)

text \<open>
  C24: printing an interface address and parsing the text back gives the same address and
  prefix, on hosts of either byte order, for every prefix length the format allows.
\<close>

theorem ipv4_ifaddr_roundtrip:
  assumes "0 \<le> ifaddr_prefix a" and "ifaddr_prefix a \<le> 32"
  shows "ipaddr_parse_ipv4_ifaddr h (ipaddr_print_ifaddr h a) = Some a"
proof -
  let ?s = "ipaddr_print_addr h (ifaddr_addr a)" and ?n = "nat (ifaddr_prefix a)"
  have n: "?n \<le> 32" using assms by simp
  have "unat (of_nat ?n :: u64) = ?n" "uint (of_nat ?n :: u64) = int ?n"
    using n by (simp_all add: unat_of_nat uint_of_nat_small)
  then have "ipaddr_parse_ipv4_prefix (dec_digits ?n) = Some (ifaddr_prefix a)"
    using n assms by (simp add: ipaddr_parse_ipv4_prefix_def word_less_nat_alt parse_dec_digits)
  then show ?thesis
    using find_char_from_append [OF ipaddr_print_addr_no_slash, of h "ifaddr_addr a" "dec_digits ?n" 0]
    by (simp add: ipaddr_parse_ipv4_ifaddr_def ipaddr_print_ifaddr_eq MemRef_FindChar_def
        MemRef_SubTo_def MemRef_SubFrom_def ipaddr_parse_print_addr)
qed

theorem ipv4_ifaddr_roundtrip_witness:
  "ipaddr_parse_ipv4_ifaddr BADVPN_LITTLE_ENDIAN
     (ipaddr_print_ifaddr BADVPN_LITTLE_ENDIAN \<lparr>ifaddr_addr = 0x0100A8C0, ifaddr_prefix = 24\<rparr>)
   = Some \<lparr>ifaddr_addr = 0x0100A8C0, ifaddr_prefix = 24\<rparr>"
  by (rule ipv4_ifaddr_roundtrip) simp_all

subsection \<open>Masks and networks\<close>

lemma mask_loop_Suc: "mask_loop (Suc n) = mask_loop n OR push_bit (32 - n - 1) 1"
  by (simp add: mask_loop_def)

lemma bit_mask_loop:
  assumes "n \<le> 32"
  shows "bit (mask_loop n) k \<longleftrightarrow> 32 - n \<le> k \<and> k < 32"
  using assms
proof (induction n)
  case 0
  then show ?case by (simp add: mask_loop_def)
next
  case (Suc n)
  have "bit (push_bit (32 - n - 1) 1 :: u32) k \<longleftrightarrow> k = 32 - n - 1"
    using Suc.prems by (auto simp: bit_exp_iff)
  with Suc show ?case by (auto simp: mask_loop_Suc bit_simps)
qed

lemma mask_loop_inj:
  assumes "m \<le> 32" "n \<le> 32"
  shows "mask_loop m = mask_loop n \<longleftrightarrow> m = n"
proof (rule ccontr)
  assume "\<not> (mask_loop m = mask_loop n \<longleftrightarrow> m = n)"
  then have eq: "mask_loop m = mask_loop n" and "m \<noteq> n" by auto
  then consider "m < n" | "n < m" by linarith
  then show False
  proof cases
    case 1
    with eq bit_mask_loop [of m "32 - n"] bit_mask_loop [of n "32 - n"] assms show False by auto
  next
    case 2
    with eq bit_mask_loop [of m "32 - m"] bit_mask_loop [of n "32 - m"] assms show False by auto
  qed
qed

lemma prefix_from_mask_loop_eq:
  assumes "i \<le> 32"
  shows "prefix_from_mask_loop m (mask_loop i) i =
    (if \<exists>p. i \<le> p \<and> p \<le> 32 \<and> m = mask_loop p then LEAST p. i \<le> p \<and> p \<le> 32 \<and> m = mask_loop p else 33)"
  using assms
proof (induction "32 - i" arbitrary: i)
  case 0
  then have i: "i = 32" by simp
  have "prefix_from_mask_loop m (mask_loop 32) 33 = 33" by (simp add: prefix_from_mask_loop.simps)
  then show ?case
    by (auto simp: i prefix_from_mask_loop.simps [of m "mask_loop 32" 32] intro!: Least_equality)
next
  case (Suc d)
  show ?case
  proof (cases "m = mask_loop i")
    case True
    then show ?thesis
      using Suc.prems by (subst prefix_from_mask_loop.simps) (auto intro!: Least_equality [symmetric])
  next
    case False
    have i: "i < 32" using Suc by simp
    have ex: "i \<le> p \<and> p \<le> 32 \<and> m = mask_loop p \<longleftrightarrow> i + 1 \<le> p \<and> p \<le> 32 \<and> m = mask_loop p" for p
      using False by (auto simp: le_eq_less_or_eq)
    have "prefix_from_mask_loop m (mask_loop i) i = prefix_from_mask_loop m (mask_loop (i + 1)) (i + 1)"
      using False i by (subst prefix_from_mask_loop.simps) (simp add: mask_loop_Suc)
    then show ?thesis using Suc.hyps(1) [of "i + 1"] Suc.hyps(2) i by (simp only: ex)
  qed
qed

lemma prefix_from_mask_loop_mask:
  assumes "p \<le> 32"
  shows "prefix_from_mask_loop (mask_loop p) 0 0 = p"
proof -
  have eq: "q \<le> 32 \<and> mask_loop p = mask_loop q \<longleftrightarrow> q = p" for q
    using assms mask_loop_inj [of p q] by auto
  have "prefix_from_mask_loop (mask_loop p) (mask_loop 0) 0 = p"
    by (subst prefix_from_mask_loop_eq) (auto simp: eq intro: Least_equality)
  then show ?thesis by (simp add: mask_loop_def)
qed

text \<open>
  C34: the conversions between prefix lengths and netmasks are inverse to each other on
  either host: every prefix length from 0 to 32 is recovered from its mask, and a mask is accepted only
  if it is the mask of the prefix length returned.
\<close>

theorem ipv4_mask_prefix_inverse:
  "ipaddr_ipv4_prefix_from_mask h m = Some p \<longleftrightarrow>
     0 \<le> p \<and> p \<le> 32 \<and> m = ipaddr_ipv4_mask_from_prefix h p"
proof
  assume some: "ipaddr_ipv4_prefix_from_mask h m = Some p"
  let ?i = "prefix_from_mask_loop (ntoh32 h m) 0 0"
  have p: "p = int ?i" "?i \<le> 32"
    using some by (auto simp: ipaddr_ipv4_prefix_from_mask_def Let_def split: if_splits)
  let ?P = "\<lambda>q. q \<le> 32 \<and> ntoh32 h m = mask_loop q"
  have "mask_loop 0 = 0" by (simp add: mask_loop_def)
  with prefix_from_mask_loop_eq [of 0 "ntoh32 h m"] p(2)
  have ex: "\<exists>q. ?P q" and i: "?i = (LEAST q. ?P q)" by (auto split: if_splits)
  have "ntoh32 h m = mask_loop ?i" using LeastI_ex [OF ex] i by simp
  then have "m = hton32 h (mask_loop ?i)" by (metis ntoh32_def ntoh_hton(2))
  then show "0 \<le> p \<and> p \<le> 32 \<and> m = ipaddr_ipv4_mask_from_prefix h p"
    using p by (simp add: ipaddr_ipv4_mask_from_prefix_def)
next
  assume a: "0 \<le> p \<and> p \<le> 32 \<and> m = ipaddr_ipv4_mask_from_prefix h p"
  then have "ntoh32 h m = mask_loop (nat p)"
    by (simp add: ipaddr_ipv4_mask_from_prefix_def ntoh_hton)
  then show "ipaddr_ipv4_prefix_from_mask h m = Some p"
    using a prefix_from_mask_loop_mask [of "nat p"] nat_le_iff [of p 32]
    by (simp add: ipaddr_ipv4_prefix_from_mask_def Let_def)
qed

lemma bit_reverse32_le:
  assumes "i < 32"
  shows "bit (badvpn_reverse32 BADVPN_LITTLE_ENDIAN x) i \<longleftrightarrow> bit x (8 * (3 - i div 8) + i mod 8)"
proof -
  have "badvpn_reverse32 BADVPN_LITTLE_ENDIAN x = le_word (rev (le_bytes 4 x))"
    using rev_nth4 [of "le_bytes 4 x"]
    by (simp only: badvpn_reverse32_def Let_def host_store.simps host_load.simps length_le_bytes)
  moreover have "i div 8 < 4" using assms by auto
  moreover have "rev (le_bytes 4 x) ! (i div 8) = ucast (drop_bit (8 * (3 - i div 8)) x)"
    using \<open>i div 8 < 4\<close> nth_upt [of 0 "3 - i div 8" 4] by (simp add: rev_nth le_bytes_def)
  ultimately show ?thesis using assms by (simp add: bit_le_word bit_simps)
qed

lemma hton32_and: "hton32 h (x AND y) = hton32 h x AND hton32 h y"
proof (cases h)
  case BADVPN_LITTLE_ENDIAN
  show ?thesis
    unfolding BADVPN_LITTLE_ENDIAN
    by (rule bit_word_eqI) (simp add: bit_reverse32_le bit_and_iff)
qed simp

lemma hton32_inj: "hton32 h x = hton32 h y \<longleftrightarrow> x = y"
  by (metis ntoh_hton(2))

text \<open>
  C35: two addresses are in the same network of a prefix length exactly if their leading bits,
  as many as the prefix length says, agree when read in network order, on hosts of either byte order.
\<close>

theorem ipv4_addrs_in_network_iff:
  assumes "0 \<le> p" and "p \<le> 32"
  shows "ipaddr_ipv4_addrs_in_network h a b p \<longleftrightarrow>
    drop_bit (32 - nat p) (ntoh32 h a) = drop_bit (32 - nat p) (ntoh32 h b)"
proof -
  let ?m = "mask_loop (nat p)" and ?k = "32 - nat p"
  have p: "nat p \<le> 32" using assms by simp
  have "(a AND hton32 h ?m) = (b AND hton32 h ?m) \<longleftrightarrow>
      (ntoh32 h a AND ?m) = (ntoh32 h b AND ?m)"
    by (metis hton32_and hton32_inj ntoh32_def ntoh_hton(2))
  also have "\<dots> \<longleftrightarrow> (\<forall>i. ?k \<le> i \<and> i < 32 \<longrightarrow> bit (ntoh32 h a) i = bit (ntoh32 h b) i)"
    by (auto simp: bit_eq_iff bit_and_iff bit_mask_loop [OF p])
  also have "\<dots> \<longleftrightarrow> drop_bit ?k (ntoh32 h a) = drop_bit ?k (ntoh32 h b)"
  proof
    assume l: "\<forall>i. ?k \<le> i \<and> i < 32 \<longrightarrow> bit (ntoh32 h a) i = bit (ntoh32 h b) i"
    show "drop_bit ?k (ntoh32 h a) = drop_bit ?k (ntoh32 h b)"
    proof (rule bit_word_eqI)
      fix i assume "i < LENGTH(32)"
      show "bit (drop_bit ?k (ntoh32 h a)) i = bit (drop_bit ?k (ntoh32 h b)) i"
        using l [rule_format, of "?k + i"] bit_imp_le_length [of "ntoh32 h a" "?k + i"]
          bit_imp_le_length [of "ntoh32 h b" "?k + i"]
        by (auto simp: bit_drop_bit_eq)
    qed
  next
    assume r: "drop_bit ?k (ntoh32 h a) = drop_bit ?k (ntoh32 h b)"
    show "\<forall>i. ?k \<le> i \<and> i < 32 \<longrightarrow> bit (ntoh32 h a) i = bit (ntoh32 h b) i"
    proof (intro allI impI)
      fix i assume i: "?k \<le> i \<and> i < 32"
      have "bit (drop_bit ?k (ntoh32 h a)) (i - ?k) = bit (drop_bit ?k (ntoh32 h b)) (i - ?k)"
        using r by simp
      with i show "bit (ntoh32 h a) i = bit (ntoh32 h b) i" by (simp add: bit_drop_bit_eq)
    qed
  qed
  finally show ?thesis
    by (simp add: ipaddr_ipv4_addrs_in_network_def ipaddr_ipv4_mask_from_prefix_def Let_def)
qed

theorem ipv4_addrs_in_network_iff_witness:
  "ipaddr_ipv4_addrs_in_network BADVPN_BIG_ENDIAN 0xC0A80101 0xC0A801FE 24 \<longleftrightarrow>
     drop_bit 8 (ntoh32 BADVPN_BIG_ENDIAN 0xC0A80101) = drop_bit 8 (ntoh32 BADVPN_BIG_ENDIAN 0xC0A801FE)"
  using ipv4_addrs_in_network_iff [where p = 24 and h = BADVPN_BIG_ENDIAN and a = "0xC0A80101" and b = "0xC0A801FE"]
  by simp

end
