(* ===== verification/Baddr.thy ===== *)
theory Baddr
  imports BSort IpAddr
begin

text \<open>
  Network addresses: \<open>src/system/BAddr.h\<close>. The tagged unions \<open>BIPAddr\<close> and \<open>BAddr\<close> are
  datatypes with one constructor per tag. Ports and IPv4 addresses are in network byte order,
  as in the source. The name service (\<open>getaddrinfo\<close>) is a parameter, one function per address
  family, applied to the \<open>AI_NUMERICHOST\<close> flag and the host text.
\<close>

datatype BIPAddr = BIP_NONE | BIP_IPV4 u32 | BIP_IPV6 bytes

datatype BAddr = BADDR_NONE | BADDR_IPV4 u32 u16 | BADDR_IPV6 bytes u16
  | BADDR_PACKET u16 int int int bytes

definition BADDR_TYPE_NONE :: int where "BADDR_TYPE_NONE = 0"
definition BADDR_TYPE_IPV4 :: int where "BADDR_TYPE_IPV4 = 1"
definition BADDR_TYPE_IPV6 :: int where "BADDR_TYPE_IPV6 = 2"
definition BADDR_TYPE_PACKET :: int where "BADDR_TYPE_PACKET = 5"
definition BADDR_MAX_ADDR_LEN :: nat where "BADDR_MAX_ADDR_LEN = 128"

lemmas baddr_types = BADDR_TYPE_NONE_def BADDR_TYPE_IPV4_def BADDR_TYPE_IPV6_def BADDR_TYPE_PACKET_def

fun BAddr_type :: "BAddr \<Rightarrow> int" where
  "BAddr_type BADDR_NONE = BADDR_TYPE_NONE"
| "BAddr_type (BADDR_IPV4 _ _) = BADDR_TYPE_IPV4"
| "BAddr_type (BADDR_IPV6 _ _) = BADDR_TYPE_IPV6"
| "BAddr_type (BADDR_PACKET _ _ _ _ _) = BADDR_TYPE_PACKET"

subsection \<open>Construction and access\<close>

definition BIPAddr_InitInvalid :: BIPAddr where "BIPAddr_InitInvalid = BIP_NONE"
definition BIPAddr_InitIPv4 :: "u32 \<Rightarrow> BIPAddr" where "BIPAddr_InitIPv4 ip = BIP_IPV4 ip"
definition BIPAddr_InitIPv6 :: "bytes \<Rightarrow> BIPAddr" where "BIPAddr_InitIPv6 ip = BIP_IPV6 (take 16 ip)"

definition BIPAddr_IsInvalid :: "BIPAddr \<Rightarrow> bool" where
  "BIPAddr_IsInvalid addr = (case addr of BIP_NONE \<Rightarrow> True | _ \<Rightarrow> False)"

definition BIPAddr_InitLocalhost :: "host \<Rightarrow> int \<Rightarrow> BIPAddr" where
  "BIPAddr_InitLocalhost h addr_type =
     (if addr_type = BADDR_TYPE_IPV4 then BIP_IPV4 (hton32 h 0x7f000001)
      else if addr_type = BADDR_TYPE_IPV6 then BIP_IPV6 ((replicate 16 0)[15 := 1])
      else BIP_NONE)"

definition BAddr_MakeNone :: BAddr where "BAddr_MakeNone = BADDR_NONE"
definition BAddr_MakeIPv4 :: "u32 \<Rightarrow> u16 \<Rightarrow> BAddr" where "BAddr_MakeIPv4 ip port = BADDR_IPV4 ip port"
definition BAddr_MakeIPv6 :: "bytes \<Rightarrow> u16 \<Rightarrow> BAddr" where
  "BAddr_MakeIPv6 ip port = BADDR_IPV6 (take 16 ip) port"

definition BAddr_MakeFromIpaddrAndPort :: "BIPAddr \<Rightarrow> u16 \<Rightarrow> BAddr" where
  "BAddr_MakeFromIpaddrAndPort ipaddr port =
     (case ipaddr of BIP_NONE \<Rightarrow> BAddr_MakeNone | BIP_IPV4 ip \<Rightarrow> BAddr_MakeIPv4 ip port
      | BIP_IPV6 ip \<Rightarrow> BAddr_MakeIPv6 ip port)"

definition BAddr_InitNone :: BAddr where "BAddr_InitNone = BAddr_MakeNone"
definition BAddr_InitIPv4 :: "u32 \<Rightarrow> u16 \<Rightarrow> BAddr" where "BAddr_InitIPv4 ip port = BAddr_MakeIPv4 ip port"
definition BAddr_InitIPv6 :: "bytes \<Rightarrow> u16 \<Rightarrow> BAddr" where "BAddr_InitIPv6 ip port = BAddr_MakeIPv6 ip port"
definition BAddr_InitFromIpaddrAndPort :: "BIPAddr \<Rightarrow> u16 \<Rightarrow> BAddr" where
  "BAddr_InitFromIpaddrAndPort ipaddr port = BAddr_MakeFromIpaddrAndPort ipaddr port"

text \<open>The two last bytes of \<open>phys_addr\<close> are not written; \<open>old\<close> is what the object held.\<close>

definition BAddr_InitPacket :: "bytes \<Rightarrow> u16 \<Rightarrow> int \<Rightarrow> int \<Rightarrow> int \<Rightarrow> bytes \<Rightarrow> BAddr" where
  "BAddr_InitPacket old phys_proto interface_index header_type packet_type phys_addr =
     BADDR_PACKET phys_proto interface_index header_type packet_type
       (take 6 phys_addr @ drop 6 old)"

definition BAddr_IsInvalid :: "BAddr \<Rightarrow> bool" where
  "BAddr_IsInvalid addr \<longleftrightarrow> BAddr_type addr = BADDR_TYPE_NONE"

definition BAddr_GetPort :: "BAddr \<Rightarrow> u16" where
  "BAddr_GetPort addr = (case addr of BADDR_IPV4 ip port \<Rightarrow> port | BADDR_IPV6 ip port \<Rightarrow> port | _ \<Rightarrow> 0)"

definition BAddr_GetIPAddr :: "BAddr \<Rightarrow> BIPAddr" where
  "BAddr_GetIPAddr addr =
     (case addr of BADDR_IPV4 ip port \<Rightarrow> BIPAddr_InitIPv4 ip | BADDR_IPV6 ip port \<Rightarrow> BIPAddr_InitIPv6 ip
      | _ \<Rightarrow> BIPAddr_InitInvalid)"

definition BAddr_SetPort :: "BAddr \<Rightarrow> u16 \<Rightarrow> BAddr" where
  "BAddr_SetPort addr port =
     (case addr of BADDR_IPV4 ip _ \<Rightarrow> BADDR_IPV4 ip port | BADDR_IPV6 ip _ \<Rightarrow> BADDR_IPV6 ip port
      | a \<Rightarrow> a)"

subsection \<open>Comparison\<close>

text \<open>
  The sign of \<open>memcmp\<close>. Both operands have the same length wherever the source calls it; the
  other cases only make the function total.
\<close>

fun memcmp_bytes :: "bytes \<Rightarrow> bytes \<Rightarrow> int" where
  "memcmp_bytes (a # as) (b # bs) = (if a = b then memcmp_bytes as bs else B_COMPARE a b)"
| "memcmp_bytes [] [] = 0"
| "memcmp_bytes [] (b # bs) = -1"
| "memcmp_bytes (a # as) [] = 1"

definition BIPAddr_Compare :: "BIPAddr \<Rightarrow> BIPAddr \<Rightarrow> bool" where
  "BIPAddr_Compare addr1 addr2 =
     (case (addr1, addr2) of (BIP_IPV4 a, BIP_IPV4 b) \<Rightarrow> a = b
      | (BIP_IPV6 a, BIP_IPV6 b) \<Rightarrow> memcmp_bytes a b = 0 | _ \<Rightarrow> False)"

definition BAddr_Compare :: "BAddr \<Rightarrow> BAddr \<Rightarrow> bool" where
  "BAddr_Compare addr1 addr2 =
     (case (addr1, addr2) of
        (BADDR_IPV4 ip1 port1, BADDR_IPV4 ip2 port2) \<Rightarrow> ip1 = ip2 \<and> port1 = port2
      | (BADDR_IPV6 ip1 port1, BADDR_IPV6 ip2 port2) \<Rightarrow> memcmp_bytes ip1 ip2 = 0 \<and> port1 = port2
      | _ \<Rightarrow> False)"

definition BAddr_CompareOrder :: "host \<Rightarrow> BAddr \<Rightarrow> BAddr \<Rightarrow> int" where
  "BAddr_CompareOrder h addr1 addr2 =
     (let cmp = B_COMPARE (BAddr_type addr1) (BAddr_type addr2) in
      if cmp \<noteq> 0 then cmp
      else case (addr1, addr2) of
        (BADDR_IPV4 ip1 port1, BADDR_IPV4 ip2 port2) \<Rightarrow>
          let cmp = B_COMPARE (ntoh32 h ip1) (ntoh32 h ip2) in
          if cmp \<noteq> 0 then cmp else B_COMPARE (ntoh16 h port1) (ntoh16 h port2)
      | (BADDR_IPV6 ip1 port1, BADDR_IPV6 ip2 port2) \<Rightarrow>
          let cmp = memcmp_bytes ip1 ip2 in
          if cmp \<noteq> 0 then B_COMPARE cmp 0 else B_COMPARE (ntoh16 h port1) (ntoh16 h port2)
      | _ \<Rightarrow> 0)"

subsection \<open>Printing\<close>

text \<open>The conversions \<open>%x\<close>, \<open>%02x\<close> and \<open>%d\<close> of \<open>sprintf\<close>.\<close>

fun hex_digits :: "nat \<Rightarrow> string" where
  "hex_digits n = (if n < 16 then [''0123456789abcdef'' ! n]
     else hex_digits (n div 16) @ [''0123456789abcdef'' ! (n mod 16)])"

declare hex_digits.simps [simp del]

definition hex_digits2 :: "u8 \<Rightarrow> string" where
  "hex_digits2 b = (if unat b < 16 then ''0'' else '''') @ hex_digits (unat b)"

definition int_digits :: "int \<Rightarrow> string" where
  "int_digits i = (if i < 0 then ''-'' @ dec_digits (nat (- i)) else dec_digits (nat i))"

definition BIPAddr_Print :: "host \<Rightarrow> BIPAddr \<Rightarrow> string" where
  "BIPAddr_Print h addr =
     (case addr of BIP_NONE \<Rightarrow> ''(none)''
      | BIP_IPV4 ip \<Rightarrow> let b = host_store h 4 ip in
          dec_digits (unat (b ! 0)) @ ''.'' @ dec_digits (unat (b ! 1)) @ ''.'' @
          dec_digits (unat (b ! 2)) @ ''.'' @ dec_digits (unat (b ! 3))
      | BIP_IPV6 ptr \<Rightarrow> let w = (\<lambda>i. hex_digits (unat (badvpn_read_be16 (drop i ptr)))) in
          w 0 @ '':'' @ w 2 @ '':'' @ w 4 @ '':'' @ w 6 @ '':'' @
          w 8 @ '':'' @ w 10 @ '':'' @ w 12 @ '':'' @ w 14)"

definition BAddr_Print :: "host \<Rightarrow> BAddr \<Rightarrow> string" where
  "BAddr_Print h addr =
     (case addr of BADDR_NONE \<Rightarrow> ''(none)''
      | BADDR_IPV4 ip port \<Rightarrow>
          BIPAddr_Print h (BIPAddr_InitIPv4 ip) @ '':'' @ dec_digits (unat (ntoh16 h port))
      | BADDR_IPV6 ip port \<Rightarrow>
          BIPAddr_Print h (BIPAddr_InitIPv6 ip) @ '':'' @ dec_digits (unat (ntoh16 h port))
      | BADDR_PACKET proto ifindex htype ptype a \<Rightarrow>
          ''proto='' @ dec_digits (unat proto) @ '',ifindex='' @ int_digits ifindex @
          '',htype=eth,ptype='' @ int_digits ptype @ '',addr='' @
          hex_digits2 (a ! 0) @ '':'' @ hex_digits2 (a ! 1) @ '':'' @ hex_digits2 (a ! 2) @ '':'' @
          hex_digits2 (a ! 3) @ '':'' @ hex_digits2 (a ! 4) @ '':'' @ hex_digits2 (a ! 5))"

subsection \<open>Parsing\<close>

text \<open>\<open>strtol\<close> in base ten: the value and the unparsed rest of the text.\<close>

definition isspace :: "char \<Rightarrow> bool" where
  "isspace c \<longleftrightarrow> c \<in> set [CHR '' '', CHR 0x09, CHR 0x0A, CHR 0x0B, CHR 0x0C, CHR 0x0D]"

definition strtol10 :: "string \<Rightarrow> int \<times> string" where
  "strtol10 str =
     (let s = dropWhile isspace str;
          neg = (s \<noteq> [] \<and> s ! 0 = CHR ''-'');
          s = (if s \<noteq> [] \<and> (s ! 0 = CHR ''-'' \<or> s ! 0 = CHR ''+'') then drop 1 s else s);
          ds = takeWhile is_digit s
      in if ds = [] then (0, str)
         else let v = (if neg then - int (decimal_val ds) else int (decimal_val ds)) in
           (max (- (2 ^ 63)) (min (2 ^ 63 - 1) v), dropWhile is_digit s))"

text \<open>The scanning loops \<open>while (i < len && str[i] != c) i++\<close>.\<close>

function scan_to :: "char \<Rightarrow> string \<Rightarrow> nat \<Rightarrow> nat" where
  "scan_to c str i = (if i < length str \<and> str ! i \<noteq> c then scan_to c str (i + 1) else i)"
  by auto
termination by (relation "measure (\<lambda>(c, str, i). length str - i)") auto

declare scan_to.simps [simp del]

text \<open>
  The split of the text into address family, host text and port text. \<open>True\<close> is IPv6.
\<close>

definition BAddr_Parse2_split :: "string \<Rightarrow> (bool \<times> string \<times> string) option" where
  "BAddr_Parse2_split str =
     (let len = length str in
      if len < 1 \<or> len > 1000 then None
      else if str ! 0 = CHR ''['' then
        let i = scan_to (CHR '']'') str 1 in
        if i \<ge> len then None
        else if i + 1 \<ge> len \<or> str ! (i + 1) \<noteq> CHR '':'' then None
        else Some (True, mem_read str 1 (i - 1), drop (i + 2) str)
      else
        let i = scan_to (CHR '':'') str 0 in
        if i \<ge> len then None else Some (False, take i str, drop (i + 1) str))"

definition BAddr_Parse2_port :: "host \<Rightarrow> string \<Rightarrow> u16 option" where
  "BAddr_Parse2_port h port_str =
     (if length port_str \<ge> 6 then None
      else case strtol10 port_str of (conv_res, err) \<Rightarrow>
        if port_str = [] \<or> err \<noteq> [] then None
        else if conv_res < 0 \<or> conv_res > UINT16_MAX then None
        else Some (hton16 h (of_int conv_res)))"

text \<open>The name buffer is optional and has a length; the result carries what is stored in it.\<close>

definition BAddr_Parse2 ::
  "(bool \<Rightarrow> string \<Rightarrow> u32 option) \<Rightarrow> (bool \<Rightarrow> string \<Rightarrow> bytes option) \<Rightarrow> host \<Rightarrow> string \<Rightarrow>
     nat option \<Rightarrow> bool \<Rightarrow> (BAddr \<times> string option) option" where
  "BAddr_Parse2 resolve4 resolve6 h str name_len noresolve =
     (case BAddr_Parse2_split str of None \<Rightarrow> None
      | Some (is6, addr_str, port_str) \<Rightarrow>
          if length addr_str \<ge> 128 then None
          else case BAddr_Parse2_port h port_str of None \<Rightarrow> None
          | Some port \<Rightarrow>
              (case (if is6 then map_option (\<lambda>ip. BADDR_IPV6 ip port) (resolve6 noresolve addr_str)
                     else map_option (\<lambda>ip. BADDR_IPV4 ip port) (resolve4 noresolve addr_str)) of
                 None \<Rightarrow> None
               | Some addr \<Rightarrow>
                   (case name_len of None \<Rightarrow> Some (addr, None)
                    | Some n \<Rightarrow> if length addr_str \<ge> n then None else Some (addr, Some addr_str))))"

definition BAddr_Parse ::
  "(bool \<Rightarrow> string \<Rightarrow> u32 option) \<Rightarrow> (bool \<Rightarrow> string \<Rightarrow> bytes option) \<Rightarrow> host \<Rightarrow> string \<Rightarrow>
     nat option \<Rightarrow> (BAddr \<times> string option) option" where
  "BAddr_Parse resolve4 resolve6 h str name_len = BAddr_Parse2 resolve4 resolve6 h str name_len False"

definition BIPAddr_Resolve ::
  "(bool \<Rightarrow> string \<Rightarrow> u32 option) \<Rightarrow> (bool \<Rightarrow> string \<Rightarrow> bytes option) \<Rightarrow> string \<Rightarrow> bool \<Rightarrow> BIPAddr option" where
  "BIPAddr_Resolve resolve4 resolve6 str noresolve =
     (let len = length str;
          is6 = (len \<ge> 1 \<and> str ! 0 = CHR ''['' \<and> str ! (len - 1) = CHR '']'');
          addr_str = (if is6 then mem_read str 1 (len - 2) else str)
      in if length addr_str > BADDR_MAX_ADDR_LEN then None
         else if is6 then map_option BIP_IPV6 (resolve6 noresolve addr_str)
         else map_option BIP_IPV4 (resolve4 noresolve addr_str))"

subsection \<open>The order on addresses\<close>

lemma memcmp_eq_0 [simp]: "memcmp_bytes a b = 0 \<longleftrightarrow> a = b"
  by (induction a b rule: memcmp_bytes.induct) auto

lemma memcmp_swap: "memcmp_bytes b a = - memcmp_bytes a b"
  by (induction a b rule: memcmp_bytes.induct) (auto simp: B_COMPARE_def)

lemma memcmp_antisym: "memcmp_bytes a b \<le> 0 \<Longrightarrow> memcmp_bytes b a \<le> 0 \<Longrightarrow> a = b"
  using memcmp_swap [of b a] by simp

lemma memcmp_trans: "memcmp_bytes a b \<le> 0 \<Longrightarrow> memcmp_bytes b c \<le> 0 \<Longrightarrow> memcmp_bytes a c \<le> 0"
proof (induction a b arbitrary: c rule: memcmp_bytes.induct)
  case (1 x xs y ys)
  then show ?case by (cases c) (auto split: if_splits)
next
  case (3 y ys)
  then show ?case by (cases c) auto
qed auto

lemma ntoh_inj [simp]: "ntoh32 h x = ntoh32 h y \<longleftrightarrow> x = y" "ntoh16 h p = ntoh16 h q \<longleftrightarrow> p = q"
  by (metis ntoh_hton(2) ntoh32_def, metis ntoh_hton(1) ntoh16_def)

lemma memcmp_pos_iff: "0 < memcmp_bytes a b \<longleftrightarrow> memcmp_bytes b a < 0"
  using memcmp_swap [of b a] by linarith

lemma BAddr_CompareOrder_swap: "BAddr_CompareOrder h b a = - BAddr_CompareOrder h a b"
  by (cases a; cases b)
    (auto simp: BAddr_CompareOrder_def Let_def baddr_types B_COMPARE_def memcmp_pos_iff)

lemma BAddr_CompareOrder_trans:
  assumes "BAddr_CompareOrder h a b \<le> 0" "BAddr_CompareOrder h b c \<le> 0"
  shows "BAddr_CompareOrder h a c \<le> 0"
  using assms
  by (cases a; cases b; cases c)
    (auto simp: BAddr_CompareOrder_def Let_def baddr_types split: if_splits dest: memcmp_trans memcmp_antisym)

interpretation baddr: comparator "BAddr_CompareOrder h" for h
proof unfold_locales
  show "BAddr_CompareOrder h x y \<le> 0 \<or> BAddr_CompareOrder h y x \<le> 0" for x y
    using BAddr_CompareOrder_swap [of h y x] by linarith
qed (rule BAddr_CompareOrder_trans)



subsection \<open>Printing and parsing\<close>

lemma scan_to_append: "c \<notin> set s \<Longrightarrow> scan_to c (p @ s @ c # t) (length p) = length p + length s"
proof (induction s arbitrary: p)
  case Nil
  then show ?case by (simp add: scan_to.simps)
next
  case (Cons x s)
  then show ?case using Cons.IH [of "p @ [x]"] by (subst scan_to.simps) auto
qed

lemma strtol10_digits:
  assumes "list_all is_digit ds" "ds \<noteq> []" "decimal_val ds < 2 ^ 63"
  shows "strtol10 ds = (int (decimal_val ds), [])"
proof -
  obtain d r where ds: "ds = d # r" using assms(2) by (cases ds) auto
  have "is_digit d" using assms(1) ds by simp
  then have "\<not> isspace d" "d \<noteq> CHR ''-''" "d \<noteq> CHR ''+''" by (auto simp: isspace_def is_digit_def)
  moreover have tw: "takeWhile is_digit ds = ds" and dw: "dropWhile is_digit ds = []"
    using assms(1) by (auto simp: takeWhile_eq_all_conv list_all_iff)
  moreover have "dropWhile isspace ds = ds" "ds ! 0 = d"
    using ds \<open>\<not> isspace d\<close> by simp_all
  moreover have "max (- (2 ^ 63)) (min (2 ^ 63 - 1) (int (decimal_val ds))) = int (decimal_val ds)"
    using assms(3) by simp
  ultimately show ?thesis
    using assms(2) by (simp only: strtol10_def Let_def) (simp add: tw dw del: takeWhile_eq_all_conv dropWhile_eq_Nil_conv)
qed

lemma BAddr_Parse2_port_digits:
  assumes "n < 65536"
  shows "BAddr_Parse2_port h (dec_digits n) = Some (hton16 h (of_nat n))"
proof -
  have ds: "list_all is_digit (dec_digits n)" "dec_digits n \<noteq> []" "decimal_val (dec_digits n) = n"
    using dec_digits_props [of n] by simp_all
  have len: "length (dec_digits n) < 6" using dec_digits_length_le [of n 5] assms by simp
  have "strtol10 (dec_digits n) = (int n, [])" using strtol10_digits [OF ds(1,2)] ds(3) assms by simp
  then show ?thesis using ds(2) len assms by (simp add: BAddr_Parse2_port_def UINT16_MAX_def)
qed

lemma hton16_of_nat_unat: "hton16 h (of_nat (unat (ntoh16 h port))) = port"
  using ntoh_hton(1) [of h port] by (simp add: ntoh16_def)

lemma ipaddr_print_addr_props:
  "length (ipaddr_print_addr h ip) \<le> 15" "CHR '':'' \<notin> set (ipaddr_print_addr h ip)"
  "ipaddr_print_addr h ip \<noteq> []" "ipaddr_print_addr h ip ! 0 \<noteq> CHR ''[''"
proof -
  let ?b = "host_store h 4 ip"
  show "length (ipaddr_print_addr h ip) \<le> 15"
    using dec_byte_length(2) [of "?b ! 0"] dec_byte_length(2) [of "?b ! 1"]
      dec_byte_length(2) [of "?b ! 2"] dec_byte_length(2) [of "?b ! 3"]
    unfolding ipaddr_print_addr_def Let_def length_append by simp
  have no: "CHR '':'' \<notin> set (dec_digits n)" "CHR ''['' \<notin> set (dec_digits n)" for n
    by (rule dec_digits_no_char, simp add: is_digit_def)+
  then show "CHR '':'' \<notin> set (ipaddr_print_addr h ip)" by (simp add: ipaddr_print_addr_def Let_def)
  show "ipaddr_print_addr h ip \<noteq> []" by (simp add: ipaddr_print_addr_def Let_def)
  have "ipaddr_print_addr h ip ! 0 = dec_digits (unat (?b ! 0)) ! 0"
    using dec_byte_length(1) [of "?b ! 0"] by (simp add: ipaddr_print_addr_def Let_def nth_append)
  moreover have "dec_digits (unat (?b ! 0)) ! 0 \<in> set (dec_digits (unat (?b ! 0)))"
    using dec_byte_length(1) [of "?b ! 0"] by simp
  ultimately show "ipaddr_print_addr h ip ! 0 \<noteq> CHR ''[''" using no(2) by metis
qed

lemma BAddr_Print_IPv4:
  "BAddr_Print h (BADDR_IPV4 ip port) = ipaddr_print_addr h ip @ CHR '':'' # dec_digits (unat (ntoh16 h port))"
  by (simp add: BAddr_Print_def BIPAddr_Print_def BIPAddr_InitIPv4_def ipaddr_print_addr_def Let_def)

text \<open>
  C30: parsing the printed form of an IPv4 socket address gives it back, also into a name
  buffer of at least 16 bytes, if the name service maps a dotted quad to its address.
\<close>

theorem BAddr_print_parse_ipv4:
  assumes "\<And>a. resolve4 noresolve (ipaddr_print_addr h a) = Some a" and "16 \<le> n"
  shows "BAddr_Parse2 resolve4 resolve6 h (BAddr_Print h (BADDR_IPV4 ip port)) (Some n) noresolve =
    Some (BADDR_IPV4 ip port, Some (ipaddr_print_addr h ip))"
proof -
  let ?a = "ipaddr_print_addr h ip" and ?p = "dec_digits (unat (ntoh16 h port))"
  have n: "unat (ntoh16 h port) < 65536" using unat_u16_le [of "ntoh16 h port"] by simp
  then have "unat (ntoh16 h port) < 10 ^ 5" by simp
  then have lp: "length ?p \<le> 5" by (rule dec_digits_length_le) simp
  note a = ipaddr_print_addr_props [of h ip]
  have "BAddr_Parse2_split (?a @ CHR '':'' # ?p) = Some (False, ?a, ?p)"
    using scan_to_append [OF a(2), of "[]" ?p] a lp
    by (auto simp: BAddr_Parse2_split_def Let_def nth_append)
  then show ?thesis
    using a(1) assms BAddr_Parse2_port_digits [OF n, of h, unfolded hton16_of_nat_unat]
    by (simp add: BAddr_Parse2_def BAddr_Print_IPv4)
qed

theorem BAddr_print_parse_ipv4_witness:
  "BAddr_Parse2 (\<lambda>_. ipaddr_parse_ipv4_addr BADVPN_LITTLE_ENDIAN) (\<lambda>_ _. None) BADVPN_LITTLE_ENDIAN
     (BAddr_Print BADVPN_LITTLE_ENDIAN (BADDR_IPV4 0x0100007F 0x5000)) (Some 16) True =
   Some (BADDR_IPV4 0x0100007F 0x5000, Some (ipaddr_print_addr BADVPN_LITTLE_ENDIAN 0x0100007F))"
  by (rule BAddr_print_parse_ipv4) (simp_all add: ipaddr_parse_print_addr)

end
