(* ===== verification/TunUdp.thy ===== *)
theory TunUdp
  imports IpProto Baddr
begin

text \<open>
  UDP over the TUN device and over the DHCP client's link: the packet paths of
  \<open>src/tun2socks/tun2socks.c\<close> (\<open>process_device_udp_packet\<close>, the replies to echo requests, and
  \<open>udp_send_packet_to_device\<close>) and \<open>src/dhcpclient/DHCPIpUdpEncoder.c\<close> and
  \<open>DHCPIpUdpDecoder.c\<close>. What a path does to its surroundings (packets written to the device,
  datagrams submitted to a client object) is returned as a list of effects. The DNS
  interception of the Android build is not part of the model.
\<close>

subsection \<open>tun2socks: packets from the device\<close>

datatype udp_mode = UdpModeNone | UdpModeUdpgw | UdpModeSocks

record tun =
  mode :: udp_mode
  netif_ip6addr :: bool
  device_mtu :: int
  udp_mtu :: int

datatype tun_effect = BTap_Send bytes | SocksUdpClient_SubmitPacket BAddr BAddr bytes
  | SocksUdpGwClient_SubmitPacket BAddr BAddr bool bytes

text \<open>The largest UDP payload, computed when the program starts.\<close>

definition compute_udp_mtu :: "int \<Rightarrow> bool \<Rightarrow> int" where
  "compute_udp_mtu dev_mtu ip6 =
     (let mtu = dev_mtu - (20 + 8);
          mtu = (if ip6 then let ip6_mtu = dev_mtu - (40 + 8) in if mtu < ip6_mtu then ip6_mtu else mtu else mtu)
      in if mtu < 0 then 0 else mtu)"

definition ping_reply :: "bytes \<Rightarrow> bytes" where
  "ping_reply data =
     (let ip_source = mem_read data 12 4;
          data = mem_write data 12 (mem_read data 16 4);
          data = mem_write data 16 ip_source;
          data = data[20 := 0];
          data = data[22 := data ! 22 + 8]
      in if data ! 22 < 8 then data[23 := data ! 23 + 1] else data)"

definition ping6_reply :: "bytes \<Rightarrow> bytes" where
  "ping6_reply data =
     (let ip_source = mem_read data 8 16;
          data = mem_write data 8 (mem_read data 24 16);
          data = mem_write data 24 ip_source;
          data = data[40 := 129];
          data = data[42 := data ! 42 - 1]
      in if data ! 42 = 255 then data[43 := data ! 43 - 1] else data)"

text \<open>How the switch on the IP version ends: failure, return, or the parsed datagram.\<close>

datatype device_parse = ParseFail | ParseReturn "tun_effect list" | ParseUdp BAddr BAddr bytes

definition process_ipv4 :: "host \<Rightarrow> bytes \<Rightarrow> device_parse" where
  "process_ipv4 h data =
     (if length data < 20 then ParseFail
      else if data ! 9 = IPV4_PROTOCOL_ICMP then
        (if data ! 0 = 69 \<and> length data \<ge> 28 \<and> data ! 20 = 8 \<and> data ! 21 = 0
         then ParseReturn [BTap_Send (ping_reply data)] else ParseReturn [])
      else if data ! 9 \<noteq> IPV4_PROTOCOL_UDP then ParseFail
      else case ipv4_check h data of None \<Rightarrow> ParseFail
      | Some (iph, off, len) \<Rightarrow>
          let data = mem_read data off len in
          case udp_check h data of None \<Rightarrow> ParseFail
          | Some (udph, off, len) \<Rightarrow>
              let data = mem_read data off len;
                  checksum_in_packet = udp_cksum udph;
                  udph = udph\<lparr>udp_cksum := 0\<rparr>;
                  checksum_computed = udp_checksum h udph data (source_address iph) (destination_address iph)
              in if checksum_in_packet \<noteq> checksum_computed then ParseFail
                 else ParseUdp (BAddr_InitIPv4 (source_address iph) (source_port udph))
                        (BAddr_InitIPv4 (destination_address iph) (dest_port udph)) data)"

definition process_ipv6 :: "host \<Rightarrow> bool \<Rightarrow> bytes \<Rightarrow> device_parse" where
  "process_ipv6 h ip6 data =
     (if \<not> ip6 then ParseFail
      else if length data < 40 then ParseFail
      else if data ! 6 = IPV6_NEXT_ICMP then
        (if length data \<ge> 48 \<and> data ! 40 = 128 \<and> data ! 41 = 0
         then ParseReturn [BTap_Send (ping6_reply data)] else ParseReturn [])
      else if data ! 6 \<noteq> IPV6_NEXT_UDP then ParseFail
      else case ipv6_check h data of None \<Rightarrow> ParseFail
      | Some (iph, off, len) \<Rightarrow>
          let data = mem_read data off len in
          case udp_check h data of None \<Rightarrow> ParseFail
          | Some (udph, off, len) \<Rightarrow>
              let data = mem_read data off len;
                  checksum_in_packet = udp_cksum udph;
                  udph = udph\<lparr>udp_cksum := 0\<rparr>;
                  checksum_computed = udp_ip6_checksum h udph data (source_address6 iph) (destination_address6 iph)
              in if checksum_in_packet \<noteq> checksum_computed then ParseFail
                 else ParseUdp (BAddr_InitIPv6 (source_address6 iph) (source_port udph))
                        (BAddr_InitIPv6 (destination_address6 iph) (dest_port udph)) data)"

definition process_device_udp_packet :: "host \<Rightarrow> tun \<Rightarrow> bytes \<Rightarrow> bool \<times> tun_effect list" where
  "process_device_udp_packet h t data =
     (if mode t = UdpModeNone then (False, [])
      else let ip_version = (if length data > 0 then drop_bit 4 (data ! 0) else 0) in
        case (if ip_version = 4 then process_ipv4 h data
              else if ip_version = 6 then process_ipv6 h (netif_ip6addr t) data else ParseFail) of
          ParseFail \<Rightarrow> (False, [])
        | ParseReturn es \<Rightarrow> (True, es)
        | ParseUdp local_addr remote_addr data \<Rightarrow>
            if int (length data) > udp_mtu t then (False, [])
            else (True, case mode t of
                UdpModeSocks \<Rightarrow> [SocksUdpClient_SubmitPacket local_addr remote_addr data]
              | UdpModeUdpgw \<Rightarrow> [SocksUdpGwClient_SubmitPacket local_addr remote_addr False data]
              | UdpModeNone \<Rightarrow> []))"

subsection \<open>tun2socks: datagrams to the device\<close>

definition build_ipv4_udp :: "host \<Rightarrow> u32 \<Rightarrow> u16 \<Rightarrow> u32 \<Rightarrow> u16 \<Rightarrow> bytes \<Rightarrow> bytes" where
  "build_ipv4_udp h sa sp da dp data =
     (let iph = \<lparr>version4_ihl4 = IPV4_MAKE_VERSION_IHL 20, ds = hton8 0,
            total_length = hton16 h (of_nat (20 + 8 + length data)), identification = hton16 h 0,
            flags3_fragmentoffset13 = hton16 h 0, ttl = hton8 64, protocol = hton8 IPV4_PROTOCOL_UDP,
            ip_checksum = hton16 h 0, source_address = sa, destination_address = da\<rparr>;
          iph = iph\<lparr>ip_checksum := ipv4_checksum h iph []\<rparr>;
          udph = \<lparr>source_port = sp, dest_port = dp, udp_length = hton16 h (of_nat (8 + length data)),
            udp_cksum = hton16 h 0\<rparr>;
          udph = udph\<lparr>udp_cksum := udp_checksum h udph data (source_address iph) (destination_address iph)\<rparr>
      in ipv4_header_bytes h iph @ udp_header_bytes h udph @ data)"

definition build_ipv6_udp :: "host \<Rightarrow> bytes \<Rightarrow> u16 \<Rightarrow> bytes \<Rightarrow> u16 \<Rightarrow> bytes \<Rightarrow> bytes" where
  "build_ipv6_udp h sa sp da dp data =
     (let iph = \<lparr>version4_tc4 = hton8 (push_bit 4 6), tc4_fl4 = hton8 0, fl = hton16 h 0,
            payload_length = hton16 h (of_nat (8 + length data)), next_header = hton8 IPV6_NEXT_UDP,
            hop_limit = hton8 64, source_address6 = sa, destination_address6 = da\<rparr>;
          udph = \<lparr>source_port = sp, dest_port = dp, udp_length = hton16 h (of_nat (8 + length data)),
            udp_cksum = hton16 h 0\<rparr>;
          udph = udph\<lparr>udp_cksum := udp_ip6_checksum h udph data (source_address6 iph) (destination_address6 iph)\<rparr>
      in ipv6_header_bytes h iph @ udp_header_bytes h udph @ data)"

definition udp_send_packet_to_device :: "host \<Rightarrow> tun \<Rightarrow> BAddr \<Rightarrow> BAddr \<Rightarrow> bytes \<Rightarrow> tun_effect list" where
  "udp_send_packet_to_device h t local_addr remote_addr data =
     (case (local_addr, remote_addr) of
        (BADDR_IPV4 lip lport, BADDR_IPV4 rip rport) \<Rightarrow>
          if int (length data) > UINT16_MAX - (20 + 8) \<or> int (length data) > device_mtu t - (20 + 8) then []
          else [BTap_Send (build_ipv4_udp h rip rport lip lport data)]
      | (BADDR_IPV6 lip lport, BADDR_IPV6 rip rport) \<Rightarrow>
          if \<not> netif_ip6addr t then []
          else if int (length data) > UINT16_MAX - 8 \<or> int (length data) > device_mtu t - (40 + 8) then []
          else [BTap_Send (build_ipv6_udp h rip rport lip lport data)]
      | _ \<Rightarrow> [])"

subsection \<open>The DHCP client's encoder and decoder\<close>

definition DHCP_SERVER_PORT :: u16 where "DHCP_SERVER_PORT = 67"
definition DHCP_CLIENT_PORT :: u16 where "DHCP_CLIENT_PORT = 68"

text \<open>
  The encoder receives the payload behind the space for the headers and returns the packet; the
  decoder passes a payload on (\<open>Some\<close>) or drops the packet.
\<close>

definition DHCPIpUdpEncoder_input_handler_done :: "host \<Rightarrow> bytes \<Rightarrow> bytes" where
  "DHCPIpUdpEncoder_input_handler_done h data =
     (let iph = \<lparr>version4_ihl4 = IPV4_MAKE_VERSION_IHL 20, ds = hton8 0,
            total_length = hton16 h (of_nat (28 + length data)), identification = hton16 h 0,
            flags3_fragmentoffset13 = hton16 h 0, ttl = hton8 64, protocol = hton8 IPV4_PROTOCOL_UDP,
            ip_checksum = hton16 h 0, source_address = hton32 h 0, destination_address = hton32 h 0xFFFFFFFF\<rparr>;
          iph = iph\<lparr>ip_checksum := ipv4_checksum h iph []\<rparr>;
          udph = \<lparr>source_port = hton16 h DHCP_CLIENT_PORT, dest_port = hton16 h DHCP_SERVER_PORT,
            udp_length = hton16 h (of_nat (8 + length data)), udp_cksum = hton16 h 0\<rparr>;
          udph = udph\<lparr>udp_cksum := udp_checksum h udph data (source_address iph) (destination_address iph)\<rparr>
      in ipv4_header_bytes h iph @ udp_header_bytes h udph @ data)"

definition DHCPIpUdpDecoder_input_handler_send :: "host \<Rightarrow> bytes \<Rightarrow> bytes option" where
  "DHCPIpUdpDecoder_input_handler_send h data =
     (case ipv4_check h data of None \<Rightarrow> None
      | Some (iph, pl, pl_len) \<Rightarrow>
          if ntoh8 (protocol iph) \<noteq> IPV4_PROTOCOL_UDP then None
          else if pl_len < 8 then None
          else let udph = udp_header_load h (drop pl data) in
            if ntoh16 h (source_port udph) \<noteq> DHCP_SERVER_PORT then None
            else if ntoh16 h (dest_port udph) \<noteq> DHCP_CLIENT_PORT then None
            else let udph_length = unat (ntoh16 h (udp_length udph)) in
              if udph_length < 8 then None
              else if udph_length > length data - pl then None
              else let payload = mem_read data (pl + 8) (udph_length - 8) in
                if ntoh16 h (udp_cksum udph) \<noteq> 0 \<and>
                   udp_cksum udph \<noteq> udp_checksum h (udph\<lparr>udp_cksum := 0\<rparr>) payload (source_address iph) (destination_address iph)
                then None else Some payload)"

subsection \<open>What is sent is received\<close>

lemma version_ihl [simp]: "IPV4_MAKE_VERSION_IHL 20 = 0x45"
  by (simp add: IPV4_MAKE_VERSION_IHL_def)

lemma mem_read_suffix [simp]: "length xs = p \<Longrightarrow> length ys = n \<Longrightarrow> mem_read (xs @ ys) p n = ys"
  by (simp add: mem_read_def)

lemma ipv4_header_bytes_nth:
  "(ipv4_header_bytes h hdr @ r) ! 0 = version4_ihl4 hdr" "(ipv4_header_bytes h hdr @ r) ! 9 = protocol hdr"
  using arg_cong [OF ipv4_header_load_bytes [of h hdr r], of version4_ihl4]
    arg_cong [OF ipv4_header_load_bytes [of h hdr r], of protocol]
  by (simp_all add: ipv4_header_load_def del: ipv4_header_load_bytes)

lemma process_ipv4_build:
  assumes "length data \<le> 65535 - 28"
  shows "process_ipv4 h (build_ipv4_udp h sa sp da dp data) = ParseUdp (BADDR_IPV4 sa sp) (BADDR_IPV4 da dp) data"
    and "build_ipv4_udp h sa sp da dp data ! 0 = 0x45" "length (build_ipv4_udp h sa sp da dp data) = 28 + length data"
proof -
  define iph where "iph = (let iph = \<lparr>version4_ihl4 = IPV4_MAKE_VERSION_IHL 20, ds = hton8 0,
            total_length = hton16 h (of_nat (20 + 8 + length data)), identification = hton16 h 0,
            flags3_fragmentoffset13 = hton16 h 0, ttl = hton8 64, protocol = hton8 IPV4_PROTOCOL_UDP,
            ip_checksum = hton16 h 0, source_address = sa, destination_address = da\<rparr>
          in iph\<lparr>ip_checksum := ipv4_checksum h iph []\<rparr>)"
  define u0 where "u0 = \<lparr>source_port = sp, dest_port = dp, udp_length = hton16 h (of_nat (8 + length data)),
            udp_cksum = hton16 h 0\<rparr>"
  define udph where "udph = u0\<lparr>udp_cksum := udp_checksum h u0 data sa da\<rparr>"
  have b: "build_ipv4_udp h sa sp da dp data = ipv4_header_bytes h iph @ udp_header_bytes h udph @ data"
    by (simp add: build_ipv4_udp_def iph_def udph_def u0_def Let_def)
  have i: "version4_ihl4 iph = 0x45" "protocol iph = 17" "source_address iph = sa" "destination_address iph = da"
    by (simp_all add: iph_def hton8_def IPV4_PROTOCOL_UDP_def Let_def)
  have u: "udp_length udph = hton16 h (of_nat (8 + length data))" "udph\<lparr>udp_cksum := 0\<rparr> = u0"
    "udp_cksum udph = udp_checksum h u0 data sa da" "source_port udph = sp" "dest_port udph = dp"
    "source_port u0 = sp" "dest_port u0 = dp"
    by (simp_all add: udph_def u0_def)
  have "ipv4_check h (ipv4_header_bytes h iph @ (udp_header_bytes h udph @ data)) =
      Some (iph, 20, length (udp_header_bytes h udph @ data))"
    by (rule ipv4_check_build) (use assms in \<open>simp_all add: iph_def Let_def\<close>)
  moreover have "udp_check h (udp_header_bytes h udph @ data) = Some (udph, 8, length data)"
    by (rule udp_check_build) (use assms u in simp_all)
  ultimately show "process_ipv4 h (build_ipv4_udp h sa sp da dp data) = ParseUdp (BADDR_IPV4 sa sp) (BADDR_IPV4 da dp) data"
    unfolding b by (simp add: process_ipv4_def ipv4_header_bytes_nth i u Let_def IPV4_PROTOCOL_ICMP_def
        IPV4_PROTOCOL_UDP_def BAddr_InitIPv4_def BAddr_MakeIPv4_def)
  show "build_ipv4_udp h sa sp da dp data ! 0 = 0x45" "length (build_ipv4_udp h sa sp da dp data) = 28 + length data"
    unfolding b by (simp_all add: ipv4_header_bytes_nth i)
qed

lemma ipv6_header_bytes_nth:
  "(ipv6_header_bytes h hdr @ r) ! 0 = version4_tc4 hdr" "(ipv6_header_bytes h hdr @ r) ! 6 = next_header hdr"
proof -
  obtain a0 a1 where a: "host_store h 2 (fl hdr) = [a0, a1]" by (rule host_store2_cases)
  obtain b0 b1 where b: "host_store h 2 (payload_length hdr) = [b0, b1]" by (rule host_store2_cases)
  show "(ipv6_header_bytes h hdr @ r) ! 0 = version4_tc4 hdr" "(ipv6_header_bytes h hdr @ r) ! 6 = next_header hdr"
    by (simp_all add: ipv6_header_bytes_def a b)
qed

lemma process_ipv6_build:
  assumes "length data \<le> 65535 - 8" "length sa = 16" "length da = 16"
  shows "process_ipv6 h True (build_ipv6_udp h sa sp da dp data) = ParseUdp (BADDR_IPV6 sa sp) (BADDR_IPV6 da dp) data"
    and "build_ipv6_udp h sa sp da dp data ! 0 = 0x60" "length (build_ipv6_udp h sa sp da dp data) = 48 + length data"
proof -
  define iph where "iph = \<lparr>version4_tc4 = hton8 (push_bit 4 6), tc4_fl4 = hton8 0, fl = hton16 h 0,
            payload_length = hton16 h (of_nat (8 + length data)), next_header = hton8 IPV6_NEXT_UDP,
            hop_limit = hton8 64, source_address6 = sa, destination_address6 = da\<rparr>"
  define u0 where "u0 = \<lparr>source_port = sp, dest_port = dp, udp_length = hton16 h (of_nat (8 + length data)),
            udp_cksum = hton16 h 0\<rparr>"
  define udph where "udph = u0\<lparr>udp_cksum := udp_ip6_checksum h u0 data sa da\<rparr>"
  have b: "build_ipv6_udp h sa sp da dp data = ipv6_header_bytes h iph @ udp_header_bytes h udph @ data"
    by (simp add: build_ipv6_udp_def iph_def udph_def u0_def Let_def)
  have i: "version4_tc4 iph = 0x60" "next_header iph = 17" "source_address6 iph = sa" "destination_address6 iph = da"
    "payload_length iph = hton16 h (of_nat (8 + length data))"
    by (simp_all add: iph_def hton8_def IPV6_NEXT_UDP_def)
  have u: "udp_length udph = hton16 h (of_nat (8 + length data))" "udph\<lparr>udp_cksum := 0\<rparr> = u0"
    "udp_cksum udph = udp_ip6_checksum h u0 data sa da" "source_port udph = sp" "dest_port udph = dp"
    "source_port u0 = sp" "dest_port u0 = dp"
    by (simp_all add: udph_def u0_def)
  have "ipv6_check h (ipv6_header_bytes h iph @ (udp_header_bytes h udph @ data)) =
      Some (iph, 40, length (udp_header_bytes h udph @ data))"
    by (rule ipv6_check_build) (use assms i in simp_all)
  moreover have "udp_check h (udp_header_bytes h udph @ data) = Some (udph, 8, length data)"
    by (rule udp_check_build) (use assms u in simp_all)
  ultimately show "process_ipv6 h True (build_ipv6_udp h sa sp da dp data) = ParseUdp (BADDR_IPV6 sa sp) (BADDR_IPV6 da dp) data"
    unfolding b using assms by (simp add: process_ipv6_def ipv6_header_bytes_nth i u Let_def IPV6_NEXT_ICMP_def
        IPV6_NEXT_UDP_def BAddr_InitIPv6_def BAddr_MakeIPv6_def)
  show "build_ipv6_udp h sa sp da dp data ! 0 = 0x60" "length (build_ipv6_udp h sa sp da dp data) = 48 + length data"
    unfolding b using assms i by (simp_all add: ipv6_header_bytes_nth)
qed

text \<open>
  C19: a datagram that \<open>udp_send_packet_to_device\<close> writes to the device is a packet that
  \<open>process_device_udp_packet\<close> accepts, on hosts of either byte order: it submits the same payload,
  with the remote address in the role of the local one and vice versa, for IPv4 and IPv6. The
  packet fits the device MTU.
\<close>

theorem tun_udp_roundtrip:
  assumes "udp_send_packet_to_device h t local_addr remote_addr data = [BTap_Send packet]"
    and "list_all (\<lambda>a. case a of BADDR_IPV6 ip _ \<Rightarrow> length ip = 16 | _ \<Rightarrow> True) [local_addr, remote_addr]"
    and "mode t = UdpModeSocks" and "udp_mtu t = compute_udp_mtu (device_mtu t) (netif_ip6addr t)"
  shows "process_device_udp_packet h t packet = (True, [SocksUdpClient_SubmitPacket remote_addr local_addr data]) \<and>
    int (length packet) \<le> device_mtu t"
proof (cases local_addr)
  case (BADDR_IPV4 lip lport)
  then obtain rip rport where r: "remote_addr = BADDR_IPV4 rip rport"
    using assms(1) by (cases remote_addr) (auto simp: udp_send_packet_to_device_def)
  from BADDR_IPV4 r assms(1) have len: "length data \<le> 65535 - 28" "int (length data) \<le> device_mtu t - 28"
    and p: "packet = build_ipv4_udp h rip rport lip lport data"
    by (auto simp: udp_send_packet_to_device_def UINT16_MAX_def split: if_splits)
  have "int (length data) \<le> udp_mtu t" using len(2) unfolding assms(4) compute_udp_mtu_def Let_def by auto
  then show ?thesis
    using process_ipv4_build [OF len(1), of h rip rport lip lport] len(2) assms(3)
    unfolding p process_device_udp_packet_def Let_def BADDR_IPV4 r by simp
next
  case (BADDR_IPV6 lip lport)
  then obtain rip rport where r: "remote_addr = BADDR_IPV6 rip rport"
    using assms(1) by (cases remote_addr) (auto simp: udp_send_packet_to_device_def)
  from BADDR_IPV6 r assms(1) have len: "length data \<le> 65535 - 8" "int (length data) \<le> device_mtu t - 48"
    and p: "packet = build_ipv6_udp h rip rport lip lport data" and ip6: "netif_ip6addr t"
    by (auto simp: udp_send_packet_to_device_def UINT16_MAX_def split: if_splits)
  have l16: "length rip = 16" "length lip = 16" using assms(2) BADDR_IPV6 r by simp_all
  have "int (length data) \<le> udp_mtu t" using len(2) unfolding assms(4) compute_udp_mtu_def Let_def by auto
  then show ?thesis
    using process_ipv6_build [OF len(1) l16, of h rport lport] len(2) assms(3) ip6
    unfolding p process_device_udp_packet_def Let_def BADDR_IPV6 r by simp
qed (use assms(1) in \<open>auto simp: udp_send_packet_to_device_def\<close>)

theorem tun_udp_roundtrip_witness:
  "\<exists>packet. udp_send_packet_to_device BADVPN_LITTLE_ENDIAN
       \<lparr>mode = UdpModeSocks, netif_ip6addr = True, device_mtu = 1500, udp_mtu = 1472\<rparr>
       (BADDR_IPV4 0x0100000A 0x3500) (BADDR_IPV4 0x08080808 0x3500) [1, 2, 3] = [BTap_Send packet] \<and>
     process_device_udp_packet BADVPN_LITTLE_ENDIAN
       \<lparr>mode = UdpModeSocks, netif_ip6addr = True, device_mtu = 1500, udp_mtu = 1472\<rparr> packet =
     (True, [SocksUdpClient_SubmitPacket (BADDR_IPV4 0x08080808 0x3500) (BADDR_IPV4 0x0100000A 0x3500) [1, 2, 3]])"
proof -
  let ?t = "\<lparr>mode = UdpModeSocks, netif_ip6addr = True, device_mtu = 1500, udp_mtu = 1472\<rparr>"
  obtain packet where p: "udp_send_packet_to_device BADVPN_LITTLE_ENDIAN ?t
      (BADDR_IPV4 0x0100000A 0x3500) (BADDR_IPV4 0x08080808 0x3500) [1, 2, 3] = [BTap_Send packet]"
    by (simp add: udp_send_packet_to_device_def UINT16_MAX_def)
  show ?thesis
    using tun_udp_roundtrip [OF p] p by (simp add: compute_udp_mtu_def)
qed

text \<open>The DHCP client's packets are broadcasts from port 68 to port 67 of the same format.\<close>

lemma DHCPIpUdpEncoder_build:
  "DHCPIpUdpEncoder_input_handler_done h data =
     build_ipv4_udp h (hton32 h 0) (hton16 h 68) (hton32 h 0xFFFFFFFF) (hton16 h 67) data"
  by (simp add: DHCPIpUdpEncoder_input_handler_done_def build_ipv4_udp_def DHCP_CLIENT_PORT_def
      DHCP_SERVER_PORT_def)

text \<open>
  C28: what the DHCP encoder emits parses as a UDP datagram with a correct checksum from
  \<open>0.0.0.0:68\<close> to \<open>255.255.255.255:67\<close> that carries the payload, and the DHCP decoder passes on
  exactly the payload of every datagram built this way from port 67 to port 68.
\<close>

theorem dhcp_udp_encode_decode:
  assumes "length data \<le> 65535 - 28"
  shows "process_ipv4 h (DHCPIpUdpEncoder_input_handler_done h data) =
      ParseUdp (BADDR_IPV4 (hton32 h 0) (hton16 h 68)) (BADDR_IPV4 (hton32 h 0xFFFFFFFF) (hton16 h 67)) data \<and>
    DHCPIpUdpDecoder_input_handler_send h (build_ipv4_udp h sa (hton16 h 67) da (hton16 h 68) data) = Some data"
proof
  show "process_ipv4 h (DHCPIpUdpEncoder_input_handler_done h data) =
      ParseUdp (BADDR_IPV4 (hton32 h 0) (hton16 h 68)) (BADDR_IPV4 (hton32 h 0xFFFFFFFF) (hton16 h 67)) data"
    unfolding DHCPIpUdpEncoder_build by (rule process_ipv4_build(1) [OF assms])
  define iph where "iph = (let iph = \<lparr>version4_ihl4 = IPV4_MAKE_VERSION_IHL 20, ds = hton8 0,
            total_length = hton16 h (of_nat (20 + 8 + length data)), identification = hton16 h 0,
            flags3_fragmentoffset13 = hton16 h 0, ttl = hton8 64, protocol = hton8 IPV4_PROTOCOL_UDP,
            ip_checksum = hton16 h 0, source_address = sa, destination_address = da\<rparr>
          in iph\<lparr>ip_checksum := ipv4_checksum h iph []\<rparr>)"
  define u0 where "u0 = \<lparr>source_port = hton16 h 67, dest_port = hton16 h 68,
            udp_length = hton16 h (of_nat (8 + length data)), udp_cksum = hton16 h 0\<rparr>"
  define udph where "udph = u0\<lparr>udp_cksum := udp_checksum h u0 data sa da\<rparr>"
  have b: "build_ipv4_udp h sa (hton16 h 67) da (hton16 h 68) data =
      ipv4_header_bytes h iph @ udp_header_bytes h udph @ data"
    by (simp add: build_ipv4_udp_def iph_def udph_def u0_def Let_def)
  have u: "unat (ntoh16 h (udp_length udph)) = 8 + length data"
    using assms unat_of_nat_u16 [of "8 + length data"] by (simp add: udph_def u0_def ntoh_hton del: of_nat_add)
  have "ipv4_check h (ipv4_header_bytes h iph @ (udp_header_bytes h udph @ data)) =
      Some (iph, 20, length (udp_header_bytes h udph @ data))"
    by (rule ipv4_check_build) (use assms in \<open>simp_all add: iph_def Let_def\<close>)
  then show "DHCPIpUdpDecoder_input_handler_send h (build_ipv4_udp h sa (hton16 h 67) da (hton16 h 68) data) = Some data"
    unfolding b DHCPIpUdpDecoder_input_handler_send_def
    using mem_read_suffix [of "ipv4_header_bytes h iph @ udp_header_bytes h udph" 28 data "length data"]
    by (simp add: u Let_def) (simp add: udph_def u0_def iph_def Let_def ntoh_hton DHCP_SERVER_PORT_def
        DHCP_CLIENT_PORT_def ntoh8_def hton8_def)
qed

theorem dhcp_udp_encode_decode_witness:
  "DHCPIpUdpDecoder_input_handler_send BADVPN_BIG_ENDIAN
     (build_ipv4_udp BADVPN_BIG_ENDIAN 0xC0A80001 (hton16 BADVPN_BIG_ENDIAN 67) 0xFFFFFFFF (hton16 BADVPN_BIG_ENDIAN 68) [7])
   = Some [7]"
  using dhcp_udp_encode_decode [of "[7]" BADVPN_BIG_ENDIAN "0xC0A80001" "0xFFFFFFFF"] by simp

subsection \<open>Replies to echo requests\<close>

lemma ping_bytes:
  assumes "24 \<le> length data"
  obtains p s0 s1 s2 s3 d0 d1 d2 d3 ty co hi lo r where "length p = 12"
    "data = p @ [s0, s1, s2, s3] @ [d0, d1, d2, d3] @ [ty, co, hi, lo] @ r"
proof -
  have "data = take 12 data @ drop 12 data" by simp
  moreover have "12 \<le> length (drop 12 data)" using assms by simp
  then obtain s0 s1 s2 s3 d0 d1 d2 d3 ty co hi lo r where
    "drop 12 data = [s0, s1, s2, s3] @ [d0, d1, d2, d3] @ [ty, co, hi, lo] @ r"
    by (auto simp: Suc_le_length_iff numeral_eq_Suc simp del: drop_drop length_drop)
  moreover have "length (take 12 data) = 12" using assms by simp
  ultimately show ?thesis by (intro that) auto
qed

lemma ping_reply_bytes:
  assumes "length p = 12"
  shows "ping_reply (p @ [s0, s1, s2, s3] @ [d0, d1, d2, d3] @ [ty, co, hi, lo] @ r) =
    p @ [d0, d1, d2, d3] @ [s0, s1, s2, s3] @ [0, co, hi + 8, if hi + 8 < 8 then lo + 1 else lo] @ r"
  using assms by (simp add: ping_reply_def mem_read_def mem_write_def nth_append list_update_append Let_def)

lemma ones_sum_full: "ones_sum n = 65535 \<longleftrightarrow> n \<noteq> 0 \<and> n mod 65535 = 0"
  using mod_less_divisor [of 65535 n] by (auto simp: ones_sum_def)

lemma unat_byte_add: "unat (b + c :: u8) = (unat b + unat c) mod 256"
  by (simp add: unat_word_ariths)

text \<open>The arithmetic of updating a checksum byte by byte when a word of the sum drops by \<open>0x800\<close>.\<close>

lemma ping_sum_iff:
  fixes hi lo :: u8
  assumes "2048 + (unat hi * 256 + unat lo) + r = 65535 * k" "0 < k"
  defines "lo' \<equiv> if hi + 8 < 8 then lo + 1 else lo"
  shows "ones_sum (unat (hi + 8) * 256 + unat lo' + r) = 65535 \<longleftrightarrow> \<not> (0xF8 \<le> hi \<and> lo = 0xFF)"
proof -
  let ?h = "unat hi" and ?l = "unat lo"
  have b: "?h \<le> 255" "?l \<le> 255" by (rule unat_byte_le)+
  have wrap: "hi + 8 < 8 \<longleftrightarrow> 248 \<le> ?h"
    using b by (auto simp: word_less_nat_alt unat_byte_add mod_if)
  consider (low) "?h < 248" | (carry) "248 \<le> ?h" "?l < 255" | (both) "248 \<le> ?h" "?l = 255"
    using b by linarith
  then show ?thesis
  proof cases
    case low
    then have "unat (hi + 8) * 256 + unat lo' + r = 65535 * k"
      using wrap assms(1) by (simp add: lo'_def unat_byte_add)
    then show ?thesis using assms(2) low by (simp add: ones_sum_full word_le_nat_alt)
  next
    case carry
    then have "unat (hi + 8) = ?h - 248" "unat lo' = ?l + 1"
      using wrap b by (simp_all add: lo'_def unat_byte_add mod_if)
    then have "unat (hi + 8) * 256 + unat lo' + r = 65535 * (k - 1)" "unat lo' > 0"
      using assms(1) carry by (simp_all add: diff_mult_distrib diff_mult_distrib2)
    then show ?thesis using carry by (auto simp: ones_sum_full word_le_nat_alt word_unat_eq_iff)
  next
    case both
    then have "unat (hi + 8) = ?h - 248" "unat lo' = 0"
      using wrap b by (simp_all add: lo'_def unat_byte_add mod_if)
    then have eq: "unat (hi + 8) * 256 + unat lo' + r + 65791 = 65535 * k"
      using assms(1) both by (simp add: diff_mult_distrib)
    have "(unat (hi + 8) * 256 + unat lo' + r) mod 65535 \<noteq> 0"
    proof
      assume "(unat (hi + 8) * 256 + unat lo' + r) mod 65535 = 0"
      then have "65535 dvd unat (hi + 8) * 256 + unat lo' + r" unfolding mod_eq_0_iff_dvd .
      then obtain j where "unat (hi + 8) * 256 + unat lo' + r = 65535 * j" by (rule dvdE)
      with eq have "65535 * k = 65535 * (j + 1) + 256" by simp
      then have "65535 * k mod 65535 = (65535 * (j + 1) + 256) mod 65535" by simp
      then show False unfolding mod_mult_self1_is_0 mod_mult_self4 by simp
    qed
    then show ?thesis using both by (simp add: ones_sum_full word_le_nat_alt word_unat_eq_iff)
  qed
qed

text \<open>
  C36: the reply to an echo request with a correct ICMP checksum keeps the sum of the IP header,
  and its ICMP checksum is correct unless the high byte of the request's checksum is at least
  \<open>0xF8\<close> and its low byte is \<open>0xFF\<close>: then the carry out of the low byte is lost and the reply is
  sent with a wrong checksum.
\<close>

theorem ping_reply_checksum:
  assumes "process_ipv4 h data = ParseReturn [BTap_Send reply]"
    and "ones_sum (be_sum (drop 20 data)) = 65535"
  shows "be_sum (take 20 reply) = be_sum (take 20 data) \<and>
    (ones_sum (be_sum (drop 20 reply)) = 65535 \<longleftrightarrow> \<not> (0xF8 \<le> data ! 22 \<and> data ! 23 = 0xFF))"
proof -
  have req: "28 \<le> length data" "data ! 20 = 8" "data ! 21 = 0" "reply = ping_reply data"
    using assms(1) by (auto simp: process_ipv4_def Let_def split: if_splits option.splits prod.splits)
  then have "24 \<le> length data" by simp
  then obtain p s0 s1 s2 s3 d0 d1 d2 d3 ty co hi lo r where p: "length p = 12"
    and d: "data = p @ [s0, s1, s2, s3] @ [d0, d1, d2, d3] @ [ty, co, hi, lo] @ r"
    by (rule ping_bytes)
  from req p d have ty: "ty = 8" "co = 0" by (simp_all add: nth_append)
  have nth: "data ! 22 = hi" "data ! 23 = lo" using p d by (simp_all add: nth_append)
  let ?lo = "if hi + 8 < 8 then lo + 1 else lo"
  have rep: "reply = p @ [d0, d1, d2, d3] @ [s0, s1, s2, s3] @ [0, 0, hi + 8, ?lo] @ r"
    unfolding req(4) d ping_reply_bytes [OF p] ty ..
  have "be_sum (drop 20 data) = 2048 + (unat hi * 256 + unat lo) + be_sum r" using p d ty by simp
  then have "65535 dvd 2048 + (unat hi * 256 + unat lo) + be_sum r"
    using assms(2) unfolding ones_sum_full mod_eq_0_iff_dvd by simp
  then obtain k where k: "2048 + (unat hi * 256 + unat lo) + be_sum r = 65535 * k" by (rule dvdE)
  then have pos: "0 < k" by (cases k) simp_all
  have "be_sum (drop 20 reply) = unat (hi + 8) * 256 + unat ?lo + be_sum r" using p by (simp add: rep)
  moreover have "be_sum (take 20 reply) = be_sum (take 20 data)"
    using p by (simp add: rep d be_sum_append)
  ultimately show ?thesis using ping_sum_iff [OF k pos] by (simp only: nth)
qed

theorem ping_reply_checksum_witness:
  "\<exists>reply. process_ipv4 BADVPN_LITTLE_ENDIAN
       ([69, 0, 0, 28, 0, 0, 0, 0, 64, 1, 0, 0, 10, 0, 0, 1, 10, 0, 0, 2, 8, 0, 0xF8, 0xFF, 0xFE, 0xFF, 0, 0])
       = ParseReturn [BTap_Send reply] \<and> ones_sum (be_sum (drop 20 reply)) \<noteq> 65535"
proof -
  let ?d = "[69, 0, 0, 28, 0, 0, 0, 0, 64, 1, 0, 0, 10, 0, 0, 1, 10, 0, 0, 2, 8, 0, 0xF8, 0xFF, 0xFE, 0xFF, 0, 0] :: bytes"
  have "process_ipv4 BADVPN_LITTLE_ENDIAN ?d = ParseReturn [BTap_Send (ping_reply ?d)]"
    by (simp add: process_ipv4_def IPV4_PROTOCOL_ICMP_def)
  then show ?thesis using ping_reply_checksum [of BADVPN_LITTLE_ENDIAN ?d "ping_reply ?d"]
    by (simp add: ones_sum_def)
qed

end
