(* ===== verification/Unicode.thy ===== *)
theory Unicode
  imports Misc_Arith
begin

text \<open>
  Text encodings: the incremental UTF-8 and UTF-16 decoders and the encoders
  (\<open>src/misc/Utf8Decoder.h\<close>, \<open>Utf8Encoder.h\<close>, \<open>Utf16Decoder.h\<close>, \<open>Utf16Encoder.h\<close>) and the
  whole-string conversions of \<open>src/misc/unicode_funcs.h\<close>. A decoder step returns the new
  state and the character it reports, if any; an encoder returns the units it writes, none
  when it reports that the character cannot be encoded.
\<close>

subsection \<open>UTF-8\<close>

record Utf8Decoder =
  d8_bytes :: int
  d8_pos :: int
  d8_ch :: u32

definition Utf8Decoder_Init :: "Utf8Decoder \<Rightarrow> Utf8Decoder" where
  "Utf8Decoder_Init d = d\<lparr>d8_bytes := 0\<rparr>"

definition Utf8Decoder_Input :: "Utf8Decoder \<Rightarrow> u8 \<Rightarrow> Utf8Decoder \<times> u32 option" where
  "Utf8Decoder_Input d b =
     (if b AND 128 = 0 then (d\<lparr>d8_bytes := 0\<rparr>, Some (ucast b))
      else if b AND 224 = 192 then
        (d\<lparr>d8_bytes := 2, d8_pos := 1, d8_ch := push_bit 6 (ucast (b AND 31))\<rparr>, None)
      else if b AND 240 = 224 then
        (d\<lparr>d8_bytes := 3, d8_pos := 1, d8_ch := push_bit 12 (ucast (b AND 15))\<rparr>, None)
      else if b AND 248 = 240 then
        (d\<lparr>d8_bytes := 4, d8_pos := 1, d8_ch := push_bit 18 (ucast (b AND 7))\<rparr>, None)
      else if b AND 192 = 128 \<and> d8_bytes d > 0 then
        let ch = d8_ch d OR push_bit (nat (6 * (d8_bytes d - d8_pos d - 1))) (ucast (b AND 63));
            d' = d\<lparr>d8_ch := ch\<rparr>
        in if d8_pos d = d8_bytes d - 1 then
             let d' = d'\<lparr>d8_bytes := 0\<rparr> in
             if ch > 0x10FFFF then (d', None)
             else if ch \<ge> 0xD800 \<and> ch \<le> 0xDFFF then (d', None)
             else (d', Some ch)
           else (d'\<lparr>d8_pos := d8_pos d + 1\<rparr>, None)
      else (d\<lparr>d8_bytes := 0\<rparr>, None))"

definition Utf8Encoder_EncodeCharacter :: "u32 \<Rightarrow> bytes" where
  "Utf8Encoder_EncodeCharacter ch =
     (if ch \<le> 0x007F then [ucast ch]
      else if ch \<le> 0x07FF then
        [ucast (0xC0 OR drop_bit 6 ch), ucast (0x80 OR (drop_bit 0 ch AND 0x3F))]
      else if ch \<le> 0xFFFF then
        if ch \<ge> 0xD800 \<and> ch \<le> 0xDFFF then []
        else [ucast (0xE0 OR drop_bit 12 ch), ucast (0x80 OR (drop_bit 6 ch AND 0x3F)),
              ucast (0x80 OR (drop_bit 0 ch AND 0x3F))]
      else if ch < 0x10FFFF then
        [ucast (0xF0 OR drop_bit 18 ch), ucast (0x80 OR (drop_bit 12 ch AND 0x3F)),
         ucast (0x80 OR (drop_bit 6 ch AND 0x3F)), ucast (0x80 OR (drop_bit 0 ch AND 0x3F))]
      else [])"

subsection \<open>UTF-16\<close>

record Utf16Decoder =
  d16_cont :: bool
  d16_ch :: u32

definition Utf16Decoder_Init :: "Utf16Decoder \<Rightarrow> Utf16Decoder" where
  "Utf16Decoder_Init d = d\<lparr>d16_cont := False\<rparr>"

definition Utf16Decoder_Input :: "Utf16Decoder \<Rightarrow> u16 \<Rightarrow> Utf16Decoder \<times> u32 option" where
  "Utf16Decoder_Input d b =
     (if b \<ge> 0xD800 \<and> b \<le> 0xDBFF then
        (d\<lparr>d16_cont := True, d16_ch := push_bit 10 (ucast (b - 0xD800))\<rparr>, None)
      else if b \<ge> 0xDC00 \<and> b \<le> 0xDFFF then
        if \<not> d16_cont d then (d, None)
        else let ch = d16_ch d OR ucast (b - 0xDC00);
                 d' = d\<lparr>d16_ch := ch, d16_cont := False\<rparr>
             in if ch \<ge> 0xD800 \<and> ch \<le> 0xDFFF then (d', None) else (d', Some ch)
      else (d\<lparr>d16_cont := False\<rparr>, Some (ucast b)))"

definition Utf16Encoder_EncodeCharacter :: "u32 \<Rightarrow> u16 list" where
  "Utf16Encoder_EncodeCharacter ch =
     (if ch \<le> 0xFFFF then
        if ch \<ge> 0xD800 \<and> ch \<le> 0xDFFF then [] else [ucast ch]
      else if ch \<le> 0x10FFFF then
        let x = ch - 0x10000 in [ucast (0xD800 + drop_bit 10 x), ucast (0xDC00 + (x AND 0x3FF))]
      else [])"

subsection \<open>Running a decoder over a string\<close>

fun utf8_run :: "Utf8Decoder \<Rightarrow> bytes \<Rightarrow> Utf8Decoder \<times> u32 list" where
  "utf8_run d [] = (d, [])"
| "utf8_run d (b # bs) =
     (let (d', r) = Utf8Decoder_Input d b; (d'', cs) = utf8_run d' bs
      in (d'', case r of None \<Rightarrow> cs | Some c \<Rightarrow> c # cs))"

fun utf16_run :: "Utf16Decoder \<Rightarrow> u16 list \<Rightarrow> Utf16Decoder \<times> u32 list" where
  "utf16_run d [] = (d, [])"
| "utf16_run d (b # bs) =
     (let (d', r) = Utf16Decoder_Input d b; (d'', cs) = utf16_run d' bs
      in (d'', case r of None \<Rightarrow> cs | Some c \<Rightarrow> c # cs))"

lemma utf8_run_append:
  "utf8_run d (xs @ ys) =
     (let (d', cs) = utf8_run d xs; (d'', cs') = utf8_run d' ys in (d'', cs @ cs'))"
  by (induction xs arbitrary: d) (auto simp: Let_def split: prod.splits option.splits)

definition surrogate :: "u32 \<Rightarrow> bool" where
  "surrogate ch \<longleftrightarrow> ch \<ge> 0xD800 \<and> ch \<le> 0xDFFF"

definition scalar :: "u32 \<Rightarrow> bool" where
  "scalar ch \<longleftrightarrow> ch \<le> 0x10FFFF \<and> \<not> surrogate ch"

subsection \<open>Byte classes\<close>

lemma byte_class:
  fixes b :: u8
  shows "b AND 128 = 0 \<longleftrightarrow> unat b < 128"
    and "b AND 224 = 192 \<longleftrightarrow> 192 \<le> unat b \<and> unat b < 224"
    and "b AND 240 = 224 \<longleftrightarrow> 224 \<le> unat b \<and> unat b < 240"
    and "b AND 248 = 240 \<longleftrightarrow> 240 \<le> unat b \<and> unat b < 248"
    and "b AND 192 = 128 \<longleftrightarrow> 128 \<le> unat b \<and> unat b < 192"
proof -
  have m: "(128 :: u8) = NOT (mask 7)" "(224 :: u8) = NOT (mask 5)" "(240 :: u8) = NOT (mask 4)"
    "(248 :: u8) = NOT (mask 3)" "(192 :: u8) = NOT (mask 6)"
    by (simp_all add: mask_eq_exp_minus_1)
  have b: "unat b < 256" using unsigned_less [of b] by simp
  have eq: "b AND k = c \<longleftrightarrow> unat (b AND k) = unat c" for k c
    by (simp only: word_unat_eq_iff)
  have "unat (b AND 128) = unat b div 128 * 128" "unat (b AND 224) = unat b div 32 * 32"
    "unat (b AND 240) = unat b div 16 * 16" "unat (b AND 248) = unat b div 8 * 8"
    "unat (b AND 192) = unat b div 64 * 64"
    unfolding m unat_and_not_mask by simp_all
  note u = this
  show "b AND 128 = 0 \<longleftrightarrow> unat b < 128"
    "b AND 224 = 192 \<longleftrightarrow> 192 \<le> unat b \<and> unat b < 224"
    "b AND 240 = 224 \<longleftrightarrow> 224 \<le> unat b \<and> unat b < 240"
    "b AND 248 = 240 \<longleftrightarrow> 240 \<le> unat b \<and> unat b < 248"
    "b AND 192 = 128 \<longleftrightarrow> 128 \<le> unat b \<and> unat b < 192"
    unfolding eq u using b by auto
qed

lemma byte_payload:
  fixes b :: u8
  shows "unat (b AND 31) = unat b mod 32" "unat (b AND 15) = unat b mod 16"
    "unat (b AND 7) = unat b mod 8" "unat (b AND 63) = unat b mod 64"
proof -
  have m: "(31 :: u8) = mask 5" "(15 :: u8) = mask 4" "(7 :: u8) = mask 3" "(63 :: u8) = mask 6"
    by (simp_all add: mask_eq_exp_minus_1)
  show "unat (b AND 31) = unat b mod 32" "unat (b AND 15) = unat b mod 16"
    "unat (b AND 7) = unat b mod 8" "unat (b AND 63) = unat b mod 64"
    unfolding m unat_and_mask by simp_all
qed

lemma unat_ucast_and:
  "unat (ucast (b AND 31 :: u8) :: u32) = unat b mod 32" "unat (ucast (b AND 15 :: u8) :: u32) = unat b mod 16"
  "unat (ucast (b AND 7 :: u8) :: u32) = unat b mod 8" "unat (ucast (b AND 63 :: u8) :: u32) = unat b mod 64"
  by (simp_all only: byte_payload unat_ucast_up_byte [where 'a = 32, simplified])

lemma unat_lead:
  fixes b :: u8
  shows "unat (push_bit 6 (ucast (b AND 31)) :: u32) = unat b mod 32 * 64"
    "unat (push_bit 12 (ucast (b AND 15)) :: u32) = unat b mod 16 * 4096"
    "unat (push_bit 18 (ucast (b AND 7)) :: u32) = unat b mod 8 * 262144"
proof -
  have lt: "unat b mod 32 < 32" "unat b mod 16 < 16" "unat b mod 8 < 8" by simp_all
  show "unat (push_bit 6 (ucast (b AND 31)) :: u32) = unat b mod 32 * 64"
    by (subst unat_shiftl) (use lt in \<open>simp_all only: unat_ucast_and\<close>, simp_all)
  show "unat (push_bit 12 (ucast (b AND 15)) :: u32) = unat b mod 16 * 4096"
    by (subst unat_shiftl) (use lt in \<open>simp_all only: unat_ucast_and\<close>, simp_all)
  show "unat (push_bit 18 (ucast (b AND 7)) :: u32) = unat b mod 8 * 262144"
    by (subst unat_shiftl) (use lt in \<open>simp_all only: unat_ucast_and\<close>, simp_all)
qed

lemma unat_cont:
  fixes b :: u8 and ch :: u32
  assumes "k \<le> 12" "2 ^ (k + 6) dvd unat ch"
  shows "unat (ch OR push_bit k (ucast (b AND 63))) = unat ch + unat b mod 64 * 2 ^ k"
proof -
  have m: "unat b mod 64 < 64" by simp
  then have lt: "unat b mod 64 * 2 ^ k < 2 ^ (k + 6)" by (simp add: power_add)
  have "(2 :: nat) ^ (k + 6) \<le> 2 ^ 18" using assms by (intro power_increasing) auto
  with lt have lt32: "unat b mod 64 * 2 ^ k < 2 ^ 32" by simp
  have sh: "unat (push_bit k (ucast (b AND 63)) :: u32) = unat b mod 64 * 2 ^ k"
    by (subst unat_shiftl) (use lt32 in \<open>simp_all only: unat_ucast_and\<close>, simp_all)
  show ?thesis using unat_or_disjoint [OF assms(2), of "push_bit k (ucast (b AND 63))"] lt
    by (simp only: sh)
qed

subsection \<open>Decoder steps\<close>

lemma utf8_ascii: "unat b < 128 \<Longrightarrow> Utf8Decoder_Input d b = (d\<lparr>d8_bytes := 0\<rparr>, Some (ucast b))"
  by (simp add: Utf8Decoder_Input_def byte_class)

lemma utf8_lead2: "192 \<le> unat b \<Longrightarrow> unat b < 224 \<Longrightarrow>
   Utf8Decoder_Input d b = (d\<lparr>d8_bytes := 2, d8_pos := 1, d8_ch := push_bit 6 (ucast (b AND 31))\<rparr>, None)"
  by (simp add: Utf8Decoder_Input_def byte_class)

lemma utf8_lead3: "224 \<le> unat b \<Longrightarrow> unat b < 240 \<Longrightarrow>
   Utf8Decoder_Input d b = (d\<lparr>d8_bytes := 3, d8_pos := 1, d8_ch := push_bit 12 (ucast (b AND 15))\<rparr>, None)"
  by (simp add: Utf8Decoder_Input_def byte_class)

lemma utf8_lead4: "240 \<le> unat b \<Longrightarrow> unat b < 248 \<Longrightarrow>
   Utf8Decoder_Input d b = (d\<lparr>d8_bytes := 4, d8_pos := 1, d8_ch := push_bit 18 (ucast (b AND 7))\<rparr>, None)"
  by (simp add: Utf8Decoder_Input_def byte_class)

lemma utf8_cont: "128 \<le> unat b \<Longrightarrow> unat b < 192 \<Longrightarrow> d8_bytes d > 0 \<Longrightarrow>
   Utf8Decoder_Input d b =
     (let ch = d8_ch d OR push_bit (nat (6 * (d8_bytes d - d8_pos d - 1))) (ucast (b AND 63))
      in if d8_pos d = d8_bytes d - 1
         then (d\<lparr>d8_ch := ch, d8_bytes := 0\<rparr>, if scalar ch then Some ch else None)
         else (d\<lparr>d8_ch := ch, d8_pos := d8_pos d + 1\<rparr>, None))"
  by (auto simp: Utf8Decoder_Input_def byte_class Let_def scalar_def surrogate_def not_le)

text \<open>A whole multi-byte sequence: the value the decoder assembles, by arithmetic.\<close>

lemma utf8_run2:
  assumes "192 \<le> unat a" "unat a < 224" "128 \<le> unat b" "unat b < 192"
    and "unat ch = unat a mod 32 * 64 + unat b mod 64"
  shows "\<exists>d'. utf8_run d [a, b] = (d', if scalar ch then [ch] else []) \<and> d8_bytes d' = 0"
proof -
  have "push_bit 6 (ucast (a AND 31)) OR push_bit 0 (ucast (b AND 63)) = ch"
    unfolding word_unat_eq_iff
    by (subst unat_cont) (simp_all only: unat_lead assms(5), simp_all)
  then show ?thesis using assms by (simp add: utf8_lead2 utf8_cont Let_def)
qed

lemma utf8_run3:
  assumes "224 \<le> unat a" "unat a < 240" "128 \<le> unat b" "unat b < 192" "128 \<le> unat c" "unat c < 192"
    and "unat ch = unat a mod 16 * 4096 + unat b mod 64 * 64 + unat c mod 64"
  shows "\<exists>d'. utf8_run d [a, b, c] = (d', if scalar ch then [ch] else []) \<and> d8_bytes d' = 0"
proof -
  let ?x = "push_bit 12 (ucast (a AND 15)) OR push_bit 6 (ucast (b AND 63)) :: u32"
  have x: "unat ?x = unat a mod 16 * 4096 + unat b mod 64 * 64"
    by (subst unat_cont) (simp_all only: unat_lead, simp_all)
  have "64 dvd unat ?x" unfolding x by simp
  then have "?x OR push_bit 0 (ucast (c AND 63)) = ch"
    unfolding word_unat_eq_iff
    by (subst unat_cont) (simp_all only: x assms(7), simp_all)
  then show ?thesis using assms by (simp add: utf8_lead3 utf8_cont Let_def)
qed

lemma utf8_run4:
  assumes "240 \<le> unat a" "unat a < 248" "128 \<le> unat b" "unat b < 192" "128 \<le> unat c" "unat c < 192"
    "128 \<le> unat e" "unat e < 192"
    and "unat ch = unat a mod 8 * 262144 + unat b mod 64 * 4096 + unat c mod 64 * 64 + unat e mod 64"
  shows "\<exists>d'. utf8_run d [a, b, c, e] = (d', if scalar ch then [ch] else []) \<and> d8_bytes d' = 0"
proof -
  let ?x = "push_bit 18 (ucast (a AND 7)) OR push_bit 12 (ucast (b AND 63)) :: u32"
  let ?y = "?x OR push_bit 6 (ucast (c AND 63)) :: u32"
  have x: "unat ?x = unat a mod 8 * 262144 + unat b mod 64 * 4096"
    by (subst unat_cont) (simp_all only: unat_lead, simp_all)
  have "4096 dvd unat ?x" unfolding x by simp
  then have y: "unat ?y = unat a mod 8 * 262144 + unat b mod 64 * 4096 + unat c mod 64 * 64"
    by (subst unat_cont) (simp_all only: x, simp_all)
  have "64 dvd unat ?y" unfolding y by simp
  then have "?y OR push_bit 0 (ucast (e AND 63)) = ch"
    unfolding word_unat_eq_iff
    by (subst unat_cont) (simp_all only: y assms(9), simp_all)
  then show ?thesis using assms by (simp add: utf8_lead4 utf8_cont Let_def)
qed

subsection \<open>Encoder bytes\<close>

lemma unat_and_3F: "unat ((x :: u32) AND 0x3F) = unat x mod 64"
proof -
  have "(0x3F :: u32) = mask 6" by (simp add: mask_eq_exp_minus_1)
  then show ?thesis by (simp only: unat_and_mask) simp
qed

lemma unat_cont_byte:
  "unat (ucast (0x80 OR (drop_bit k ch AND 0x3F) :: u32) :: u8) = 128 + unat ch div 2 ^ k mod 64"
proof -
  have "unat (0x80 OR (drop_bit k ch AND 0x3F) :: u32) = 128 + unat ch div 2 ^ k mod 64"
    using unat_or_disjoint [of 7 "0x80 :: u32" "drop_bit k ch AND 0x3F"]
      mod_less_divisor [of 64 "unat ch div 2 ^ k"]
    by (simp only: unat_and_3F unat_shiftr) simp
  moreover have "128 + unat ch div 2 ^ k mod 64 < 256" using mod_less_divisor [of 64] by simp
  ultimately show ?thesis by (simp add: unat_ucast_down)
qed

lemma unat_lead_byte:
  assumes "unat ch div 2 ^ k < 2 ^ j" "2 ^ j dvd unat (l :: u32)" "unat l + 2 ^ j \<le> 256"
  shows "unat (ucast (l OR drop_bit k ch) :: u8) = unat l + unat ch div 2 ^ k"
proof -
  have "unat (l OR drop_bit k ch) = unat l + unat ch div 2 ^ k"
    using unat_or_disjoint [OF assms(2), of "drop_bit k ch"] assms(1) by (simp only: unat_shiftr)
  then show ?thesis using assms by (simp add: unat_ucast_down)
qed

lemma lead_mod:
  "k < 32 \<Longrightarrow> (192 + k) mod 32 = (k :: nat)" "k < 16 \<Longrightarrow> (224 + k) mod 16 = (k :: nat)"
  "k < 8 \<Longrightarrow> (240 + k) mod 8 = (k :: nat)" "(128 + k) mod 64 = (k :: nat) mod 64"
  using mod_mult_self2 [of k 32 6] mod_mult_self2 [of k 16 14] mod_mult_self2 [of k 8 30]
    mod_mult_self2 [of k 64 2]
  by (simp_all add: add.commute)

lemma div_chain2: "n div 64 * 64 + n mod 64 = (n :: nat)" by simp

lemma div_chain3: "(n :: nat) div 4096 * 4096 + n div 64 mod 64 * 64 + n mod 64 = n"
proof -
  have "n div 4096 = n div 64 div 64" by (simp add: div_mult2_eq [symmetric])
  then show ?thesis using div_mult_mod_eq [of "n div 64" 64] div_mult_mod_eq [of n 64] by linarith
qed

lemma div_chain4:
  "(n :: nat) div 262144 * 262144 + n div 4096 mod 64 * 4096 + n div 64 mod 64 * 64 + n mod 64 = n"
proof -
  have "n div 262144 = n div 4096 div 64" by (simp add: div_mult2_eq [symmetric])
  then show ?thesis using div_mult_mod_eq [of "n div 4096" 64] div_chain3 [of n] by linarith
qed

text \<open>
  Feeding the bytes of one encoded character to the UTF-8 decoder in any state makes it report
  exactly that character, with the last byte, and leaves it between characters.
\<close>

lemma utf8_run_encode:
  assumes "scalar ch" and "ch \<noteq> 0x10FFFF"
  shows "\<exists>d'. utf8_run d (Utf8Encoder_EncodeCharacter ch) = (d', [ch]) \<and> d8_bytes d' = 0"
proof -
  let ?n = "unat ch"
  have sc: "?n < 0x10FFFF" "\<not> (0xD800 \<le> ch \<and> ch \<le> 0xDFFF)"
    using assms by (auto simp: scalar_def surrogate_def word_le_nat_alt word_unat_eq_iff)
  consider (c1) "?n \<le> 0x7F" | (c2) "0x7F < ?n" "?n \<le> 0x7FF" | (c3) "0x7FF < ?n" "?n \<le> 0xFFFF"
    | (c4) "0xFFFF < ?n" by linarith
  then show ?thesis
  proof cases
    case c1
    then have "unat (ucast ch :: u8) = ?n" by (simp add: unat_ucast_down)
    moreover from this have "ucast (ucast ch :: u8) = ch"
      unfolding word_unat_eq_iff by (simp add: unat_ucast_up_byte)
    ultimately show ?thesis
      using c1 by (simp add: Utf8Encoder_EncodeCharacter_def word_le_nat_alt utf8_ascii)
  next
    case c2
    then have lt: "?n div 64 < 32" by simp
    have l: "unat (ucast (0xC0 OR drop_bit 6 ch) :: u8) = 192 + ?n div 64"
      by (subst unat_lead_byte [where j = 5]) (use lt in simp_all)
    have "\<exists>d'. utf8_run d [ucast (0xC0 OR drop_bit 6 ch), ucast (0x80 OR (drop_bit 0 ch AND 0x3F))]
        = (d', if scalar ch then [ch] else []) \<and> d8_bytes d' = 0"
      by (rule utf8_run2) (use lt div_chain2 [of ?n] in \<open>simp_all only: l unat_cont_byte lead_mod\<close>, simp_all)
    with c2 assms show ?thesis
      by (simp add: Utf8Encoder_EncodeCharacter_def word_le_nat_alt)
  next
    case c3
    then have lt: "?n div 4096 < 16" by simp
    have l: "unat (ucast (0xE0 OR drop_bit 12 ch) :: u8) = 224 + ?n div 4096"
      by (subst unat_lead_byte [where j = 4]) (use lt in simp_all)
    have "\<exists>d'. utf8_run d [ucast (0xE0 OR drop_bit 12 ch), ucast (0x80 OR (drop_bit 6 ch AND 0x3F)),
          ucast (0x80 OR (drop_bit 0 ch AND 0x3F))]
        = (d', if scalar ch then [ch] else []) \<and> d8_bytes d' = 0"
      by (rule utf8_run3) (use lt div_chain3 [of ?n] in \<open>simp_all only: l unat_cont_byte lead_mod\<close>, simp_all)
    with c3 assms sc show ?thesis
      by (simp add: Utf8Encoder_EncodeCharacter_def word_le_nat_alt)
  next
    case c4
    then have lt: "?n div 262144 < 8" using sc by simp
    have l: "unat (ucast (0xF0 OR drop_bit 18 ch) :: u8) = 240 + ?n div 262144"
      by (subst unat_lead_byte [where j = 3]) (use lt in simp_all)
    have "\<exists>d'. utf8_run d [ucast (0xF0 OR drop_bit 18 ch), ucast (0x80 OR (drop_bit 12 ch AND 0x3F)),
          ucast (0x80 OR (drop_bit 6 ch AND 0x3F)), ucast (0x80 OR (drop_bit 0 ch AND 0x3F))]
        = (d', if scalar ch then [ch] else []) \<and> d8_bytes d' = 0"
      by (rule utf8_run4) (use lt div_chain4 [of ?n] in \<open>simp_all only: l unat_cont_byte lead_mod\<close>, simp_all)
    with c4 assms sc show ?thesis
      by (simp add: Utf8Encoder_EncodeCharacter_def word_le_nat_alt word_less_nat_alt)
  qed
qed

definition encodable :: "u32 \<Rightarrow> bool" where
  "encodable ch \<longleftrightarrow> scalar ch \<and> ch \<noteq> 0x10FFFF"

abbreviation enc8 :: "u32 list \<Rightarrow> bytes" where
  "enc8 cs \<equiv> concat (map Utf8Encoder_EncodeCharacter cs)"

lemma utf8_run_enc8: "list_all encodable cs \<Longrightarrow> snd (utf8_run d (enc8 cs)) = cs"
proof (induction cs arbitrary: d)
  case (Cons c cs)
  obtain d' where "utf8_run d (Utf8Encoder_EncodeCharacter c) = (d', [c])"
    using utf8_run_encode [of c d] Cons.prems by (auto simp: encodable_def)
  then show ?case using Cons.IH [of d'] Cons.prems by (simp add: utf8_run_append split_beta)
qed simp

lemma utf8_run_enc8_done:
  "list_all encodable cs \<Longrightarrow> d8_bytes d = 0 \<Longrightarrow> d8_bytes (fst (utf8_run d (enc8 cs))) = 0"
proof (induction cs arbitrary: d)
  case (Cons c cs)
  obtain d' where "utf8_run d (Utf8Encoder_EncodeCharacter c) = (d', [c])" "d8_bytes d' = 0"
    using utf8_run_encode [of c d] Cons.prems by (auto simp: encodable_def)
  then show ?case using Cons.IH [of d'] Cons.prems by (simp add: utf8_run_append split_beta)
qed simp

text \<open>
  C32: decoding the UTF-8 encoding of any text gives the text back: from the initial state the
  decoder reports exactly the encoded characters, in order, and ends between characters. The
  text may hold every Unicode scalar value except \<open>U+10FFFF\<close>.
\<close>

theorem utf8_roundtrip:
  assumes "list_all encodable cs"
  shows "snd (utf8_run (Utf8Decoder_Init d) (concat (map Utf8Encoder_EncodeCharacter cs))) = cs \<and>
    d8_bytes (fst (utf8_run (Utf8Decoder_Init d) (concat (map Utf8Encoder_EncodeCharacter cs)))) = 0"
  using assms by (simp add: utf8_run_enc8 utf8_run_enc8_done Utf8Decoder_Init_def)

theorem utf8_roundtrip_witness:
  "snd (utf8_run (Utf8Decoder_Init \<lparr>d8_bytes = 3, d8_pos = 1, d8_ch = 7\<rparr>)
     (concat (map Utf8Encoder_EncodeCharacter [0x41, 0x20AC, 0x1F600]))) = [0x41, 0x20AC, 0x1F600]"
  using utf8_roundtrip [of "[0x41, 0x20AC, 0x1F600]" "\<lparr>d8_bytes = 3, d8_pos = 1, d8_ch = 7\<rparr>"]
  by (simp add: encodable_def scalar_def surrogate_def)

text \<open>
  The last scalar value \<open>U+10FFFF\<close> is decoded from its four-byte form but refused by the
  encoder, whose bound is strict, so the two disagree on exactly this character.
\<close>

lemma utf8_encoder_rejects_last:
  "Utf8Encoder_EncodeCharacter 0x10FFFF = [] \<and>
   snd (utf8_run (Utf8Decoder_Init d) [0xF4, 0x8F, 0xBF, 0xBF]) = [0x10FFFF]"
proof -
  have "\<exists>d'. utf8_run (Utf8Decoder_Init d) [0xF4, 0x8F, 0xBF, 0xBF] =
      (d', if scalar 0x10FFFF then [0x10FFFF] else []) \<and> d8_bytes d' = 0"
    by (rule utf8_run4) simp_all
  then show ?thesis by (auto simp: Utf8Encoder_EncodeCharacter_def scalar_def surrogate_def)
qed

subsection \<open>Decoder invariants\<close>

text \<open>The conditions the decoder asserts about its state when a continuation byte arrives.\<close>

definition d8_ok :: "Utf8Decoder \<Rightarrow> bool" where
  "d8_ok d \<longleftrightarrow> d8_bytes d = 0 \<or> (2 \<le> d8_bytes d \<and> d8_bytes d \<le> 4 \<and> 0 < d8_pos d \<and> d8_pos d < d8_bytes d)"

lemma scalar_byte: "unat (b :: u8) < 128 \<Longrightarrow> scalar (ucast b)"
  by (simp add: scalar_def surrogate_def word_le_nat_alt unat_ucast_up_byte)

lemma Utf8Decoder_Input_ok:
  assumes "d8_ok d" "Utf8Decoder_Input d b = (d', r)"
  shows "d8_ok d'" and "r = Some c \<Longrightarrow> scalar c"
  using assms scalar_byte [of b]
  by (auto simp: Utf8Decoder_Input_def d8_ok_def byte_class Let_def scalar_def surrogate_def
      not_le not_less split: if_splits)

text \<open>
  The decoder keeps the state conditions it asserts, whatever bytes arrive, and every character
  it reports is in the documented range, \<open>0\<close> to \<open>0x10FFFF\<close> without the surrogates.
\<close>

lemma utf8_run_ok:
  "d8_ok d \<Longrightarrow> d8_ok (fst (utf8_run d bs)) \<and> list_all scalar (snd (utf8_run d bs))"
proof (induction bs arbitrary: d)
  case (Cons b bs)
  obtain d1 r where st: "Utf8Decoder_Input d b = (d1, r)" by fastforce
  with Cons.prems have "d8_ok d1" by (blast intro: Utf8Decoder_Input_ok)
  with Cons.IH [of d1] Utf8Decoder_Input_ok(2) [OF Cons.prems st] st show ?case
    by (auto simp: Let_def split: option.splits prod.splits)
qed simp

lemma d8_ok_Init: "d8_ok (Utf8Decoder_Init d)"
  by (simp add: d8_ok_def Utf8Decoder_Init_def)

subsection \<open>UTF-16 surrogate pairs\<close>

lemma unat_and_3FF: "unat ((x :: u32) AND 0x3FF) = unat x mod 1024"
proof -
  have "(0x3FF :: u32) = mask 10" by (simp add: mask_eq_exp_minus_1)
  then show ?thesis by (simp only: unat_and_mask) simp
qed

lemma utf16_pair_units:
  assumes "unat x < 0x100000"
  shows "unat (ucast (0xD800 + drop_bit 10 x :: u32) :: u16) = 0xD800 + unat x div 1024"
    and "unat (ucast (0xDC00 + (x AND 0x3FF) :: u32) :: u16) = 0xDC00 + unat x mod 1024"
proof -
  have lt: "unat x div 1024 < 1024" "unat x mod 1024 < 1024" using assms by simp_all
  have "unat (drop_bit 10 x) = unat x div 1024" by (simp only: unat_shiftr) simp
  then have "unat (0xD800 + drop_bit 10 x :: u32) = 0xD800 + unat x div 1024"
    using lt by (simp only: unat_word_ariths) simp
  then show "unat (ucast (0xD800 + drop_bit 10 x :: u32) :: u16) = 0xD800 + unat x div 1024"
    using lt by (simp add: unat_ucast_down)
  have "unat (0xDC00 + (x AND 0x3FF) :: u32) = 0xDC00 + unat x mod 1024"
    using lt by (simp only: unat_word_ariths unat_and_3FF) simp
  then show "unat (ucast (0xDC00 + (x AND 0x3FF) :: u32) :: u16) = 0xDC00 + unat x mod 1024"
    using lt by (simp add: unat_ucast_down)
qed

lemma ucast16_32: "unat (ucast (b :: u16) :: u32) = unat b"
proof -
  have "unat b < 2 ^ 32" using unsigned_less [of b, where 'a = nat] by simp
  then show ?thesis by (simp add: unsigned_ucast_eq take_bit_nat_eq_self)
qed

text \<open>What the decoder makes of any pair of a high and a low surrogate.\<close>

lemma utf16_run_pair:
  assumes "0xD800 \<le> unat a" "unat a \<le> 0xDBFF" "0xDC00 \<le> unat b" "unat b \<le> 0xDFFF"
    and "unat ch = (unat a - 0xD800) * 1024 + (unat b - 0xDC00)"
  shows "\<exists>d'. utf16_run d [a, b] = (d', if surrogate ch then [] else [ch]) \<and> \<not> d16_cont d'"
proof -
  have a: "unat (a - 0xD800) = unat a - 0xD800" and b: "unat (b - 0xDC00) = unat b - 0xDC00"
    using assms by (simp_all add: unat_sub word_le_nat_alt)
  have pa: "unat (push_bit 10 (ucast (a - 0xD800)) :: u32) = (unat a - 0xD800) * 1024"
    by (subst unat_shiftl) (use assms in \<open>simp_all only: ucast16_32 a\<close>, simp_all)
  have "push_bit 10 (ucast (a - 0xD800)) OR ucast (b - 0xDC00) = ch"
    unfolding word_unat_eq_iff
    by (subst unat_or_disjoint [where k = 10]) (use assms in \<open>simp_all only: pa ucast16_32 b assms(5)\<close>, simp_all)
  then show ?thesis
    using assms by (simp add: Utf16Decoder_Input_def word_le_nat_alt Let_def surrogate_def)
qed

text \<open>
  Characters of the basic multilingual plane survive UTF-16 encoding and decoding.
\<close>

lemma utf16_bmp_roundtrip:
  assumes "scalar ch" and "ch \<le> 0xFFFF"
  shows "utf16_run d (Utf16Encoder_EncodeCharacter ch) = (d\<lparr>d16_cont := False\<rparr>, [ch])"
proof -
  have n: "unat ch \<le> 0xFFFF" using assms by (simp add: word_le_nat_alt)
  then have u: "unat (ucast ch :: u16) = unat ch" by (simp add: unat_ucast_down)
  then have "ucast (ucast ch :: u16) = ch" unfolding word_unat_eq_iff by (simp add: ucast16_32)
  then show ?thesis
    using assms u by (auto simp: Utf16Encoder_EncodeCharacter_def Utf16Decoder_Input_def scalar_def
        surrogate_def word_le_nat_alt Let_def)
qed

text \<open>
  C38: every character above the basic multilingual plane is decoded wrongly from its own
  UTF-16 form: the decoder never adds back the \<open>0x10000\<close> that the encoder subtracts, so it
  reports the character \<open>0x10000\<close> below, or nothing if that is a surrogate.
\<close>

theorem utf16_supplementary_shifted:
  assumes "0x10000 \<le> ch" and "ch \<le> 0x10FFFF"
  shows "snd (utf16_run d (Utf16Encoder_EncodeCharacter ch)) =
    (if surrogate (ch - 0x10000) then [] else [ch - 0x10000])"
proof -
  let ?x = "ch - 0x10000"
  have n: "0x10000 \<le> unat ch" "unat ch \<le> 0x10FFFF" using assms by (simp_all add: word_le_nat_alt)
  then have x: "unat ?x = unat ch - 0x10000" by (simp add: unat_sub word_le_nat_alt)
  then have lt: "unat ?x < 0x100000" using n by simp
  have enc: "Utf16Encoder_EncodeCharacter ch = [ucast (0xD800 + drop_bit 10 ?x), ucast (0xDC00 + (?x AND 0x3FF))]"
    using n by (simp add: Utf16Encoder_EncodeCharacter_def word_le_nat_alt Let_def)
  have "\<exists>d'. utf16_run d [ucast (0xD800 + drop_bit 10 ?x), ucast (0xDC00 + (?x AND 0x3FF))] =
      (d', if surrogate ?x then [] else [?x]) \<and> \<not> d16_cont d'"
    by (rule utf16_run_pair) (use lt in \<open>simp_all only: utf16_pair_units [OF lt]\<close>, simp_all)
  then show ?thesis unfolding enc by auto
qed

theorem utf16_supplementary_shifted_witness:
  "snd (utf16_run \<lparr>d16_cont = False, d16_ch = 0\<rparr> (Utf16Encoder_EncodeCharacter 0x1F600)) = [0xF600]"
  using utf16_supplementary_shifted [of "0x1F600" "\<lparr>d16_cont = False, d16_ch = 0\<rparr>"]
  by (simp add: surrogate_def)

subsection \<open>Whole-string conversion\<close>

text \<open>
  Both conversions re-encode each decoded character and match the result against the input
  at a second position \<open>i_ch\<close>; a mismatch sets the error flag.
\<close>

fun match_units :: "bytes \<Rightarrow> bytes \<Rightarrow> nat \<Rightarrow> nat \<times> bool" where
  "match_units data [] i_ch = (i_ch, False)"
| "match_units data (c # cs) i_ch =
     (if i_ch \<ge> length data \<or> data ! i_ch \<noteq> c then (i_ch, True)
      else match_units data cs (i_ch + 1))"

definition u16_be :: "u16 \<Rightarrow> bytes" where
  "u16_be x = [ucast (drop_bit 8 x), ucast (x AND 0xFF)]"

definition u16s_be :: "u16 list \<Rightarrow> bytes" where
  "u16s_be us = concat (map u16_be us)"

text \<open>The writes to the output buffer stop for good when \<open>out_avail\<close> reaches zero.\<close>

fun emit_units :: "u16 list \<Rightarrow> bytes \<Rightarrow> nat \<Rightarrow> bytes \<times> nat" where
  "emit_units [] out avail = (out, avail)"
| "emit_units (e # es) out avail =
     (if avail = 0 then (out, avail)
      else let out = out @ [ucast (drop_bit 8 e)]; avail = avail - 1 in
        if avail = 0 then (out, avail)
        else emit_units es (out @ [ucast (e AND 0xFF)]) (avail - 1))"

fun utf8_to_utf16_loop ::
  "bytes \<Rightarrow> bytes \<Rightarrow> Utf8Decoder \<Rightarrow> nat \<Rightarrow> bsize_t \<Rightarrow> bool \<Rightarrow> bytes \<Rightarrow> nat \<Rightarrow> nat \<times> bsize_t \<times> bool \<times> bytes" where
  "utf8_to_utf16_loop data [] decoder i_ch len error out avail = (i_ch, len, error, out)"
| "utf8_to_utf16_loop data (x # rest) decoder i_ch len error out avail =
     (case Utf8Decoder_Input decoder x of
        (decoder, None) \<Rightarrow> utf8_to_utf16_loop data rest decoder i_ch len error out avail
      | (decoder, Some ch) \<Rightarrow>
          let (i_ch, error) = (if \<not> error then match_units data (Utf8Encoder_EncodeCharacter ch) i_ch
                               else (i_ch, error));
              enc = Utf16Encoder_EncodeCharacter ch;
              len = bsize_add len (bsize_fromsize (of_nat (2 * length enc)));
              (out, avail) = emit_units enc out avail
          in utf8_to_utf16_loop data rest decoder i_ch len error out avail)"

text \<open>The result: what was written to the buffer, the required length, and the error flag.\<close>

definition unicode_decode_utf8_to_utf16 :: "bytes \<Rightarrow> nat \<Rightarrow> bytes \<times> bsize_t \<times> bool" where
  "unicode_decode_utf8_to_utf16 data out_avail =
     (case utf8_to_utf16_loop data data (Utf8Decoder_Init \<lparr>d8_bytes = 0, d8_pos = 0, d8_ch = 0\<rparr>)
             0 (bsize_fromsize 0) False [] out_avail of
        (i_ch, len, error, out) \<Rightarrow> (out, len, error \<or> i_ch < length data))"

text \<open>
  The other direction builds a null-terminated string; \<open>append_ok\<close> says which of the appends
  to the expanding string succeed, by the number of characters appended before.
\<close>

fun utf16_to_utf8_loop ::
  "(nat \<Rightarrow> bool) \<Rightarrow> bytes \<Rightarrow> bytes \<Rightarrow> Utf16Decoder \<Rightarrow> nat \<Rightarrow> bool \<Rightarrow> nat \<Rightarrow> bytes \<Rightarrow> (nat \<times> bool \<times> bytes) option" where
  "utf16_to_utf8_loop ok data (x # y # rest) decoder i_ch error k str =
     (let xy = push_bit 8 (ucast x) OR ucast y in
      case Utf16Decoder_Input decoder xy of
        (decoder, None) \<Rightarrow> utf16_to_utf8_loop ok data rest decoder i_ch error k str
      | (decoder, Some ch) \<Rightarrow>
          let (i_ch, error) = (if \<not> error then match_units data (u16s_be (Utf16Encoder_EncodeCharacter ch)) i_ch
                               else (i_ch, error))
          in if ch = 0 then utf16_to_utf8_loop ok data rest decoder i_ch True k str
             else let enc = Utf8Encoder_EncodeCharacter ch in
               if \<not> ok k then None
               else utf16_to_utf8_loop ok data rest decoder i_ch error (k + 1) (str @ enc))"
| "utf16_to_utf8_loop ok data _ decoder i_ch error k str = Some (i_ch, error, str)"

definition unicode_decode_utf16_to_utf8 :: "bool \<Rightarrow> (nat \<Rightarrow> bool) \<Rightarrow> bytes \<Rightarrow> (bytes \<times> bool) option" where
  "unicode_decode_utf16_to_utf8 init_ok ok data =
     (if \<not> init_ok then None
      else case utf16_to_utf8_loop ok data data (Utf16Decoder_Init \<lparr>d16_cont = False, d16_ch = 0\<rparr>) 0 False 0 [] of
             None \<Rightarrow> None
           | Some (i_ch, error, str) \<Rightarrow> Some (str, error \<or> i_ch < length data))"

lemma match_units_eq:
  assumes "match_units data cs i = (j, e)" "i \<le> length data"
  shows "i \<le> j" "j \<le> length data" "\<not> e \<longleftrightarrow> take (length cs) (drop i data) = cs"
    "\<not> e \<Longrightarrow> j = i + length cs"
  using assms
proof (induction cs arbitrary: i)
  case (Cons c cs)
  { case 1 with Cons show ?case by (fastforce split: if_splits) }
  { case 2 with Cons show ?case by (fastforce split: if_splits) }
  { case 3 with Cons.IH(3) [of "i + 1"] show ?case
      by (cases "i < length data") (auto simp: Cons_nth_drop_Suc [symmetric] split: if_splits) }
  { case 4 with Cons.IH(4) [of "i + 1"] show ?case by (auto split: if_splits) }
qed simp_all

lemma emit_units_eq:
  "emit_units es out avail =
     (out @ take avail (u16s_be es), avail - length (u16s_be es))"
  by (induction es out avail rule: emit_units.induct)
    (auto simp: u16s_be_def u16_be_def Let_def take_Cons' split: if_splits)

lemma length_u16s_be [simp]: "length (u16s_be us) = 2 * length us"
  by (induction us) (simp_all add: u16s_be_def u16_be_def)

lemma u16s_be_append [simp]: "u16s_be (xs @ ys) = u16s_be xs @ u16s_be ys"
  by (simp add: u16s_be_def)

text \<open>What the loop computes, in terms of the characters the decoder reports.\<close>

abbreviation enc16 :: "u32 list \<Rightarrow> u16 list" where
  "enc16 cs \<equiv> concat (map Utf16Encoder_EncodeCharacter cs)"

definition occurs_at :: "bytes \<Rightarrow> bytes \<Rightarrow> nat \<Rightarrow> bool" where
  "occurs_at data xs i \<longleftrightarrow> take (length xs) (drop i data) = xs"

lemma take_length_append_eq:
  "take (length xs + length ys) zs = xs @ ys \<longleftrightarrow>
     take (length xs) zs = xs \<and> take (length ys) (drop (length xs) zs) = ys"
proof (induction xs arbitrary: zs)
  case (Cons x xs)
  then show ?case by (cases zs) auto
qed simp

lemma occurs_at_append:
  "occurs_at data (xs @ ys) i \<longleftrightarrow> occurs_at data xs i \<and> occurs_at data ys (i + length xs)"
  unfolding occurs_at_def length_append take_length_append_eq by (simp add: add.commute)

lemma occurs_at_Nil [simp]: "occurs_at data [] i"
  by (simp add: occurs_at_def)

lemma match_units_occurs:
  "i \<le> length data \<Longrightarrow> \<exists>j. match_units data cs i = (j, \<not> occurs_at data cs i) \<and> j \<le> length data \<and>
     (occurs_at data cs i \<longrightarrow> j = i + length cs)"
  using match_units_eq [of data cs i] by (cases "match_units data cs i") (auto simp: occurs_at_def)

lemma utf8_to_utf16_loop_eq:
  assumes "i \<le> length data"
  shows "\<exists>i' len'. utf8_to_utf16_loop data rest d i len error out avail =
      (i', len', error \<or> \<not> occurs_at data (enc8 (snd (utf8_run d rest))) i,
       out @ take avail (u16s_be (enc16 (snd (utf8_run d rest))))) \<and>
    i' \<le> length data \<and>
    (\<not> error \<and> occurs_at data (enc8 (snd (utf8_run d rest))) i \<longrightarrow>
       i' = i + length (enc8 (snd (utf8_run d rest))))"
  using assms
proof (induction rest arbitrary: d i len error out avail)
  case Nil
  then show ?case by (simp add: u16s_be_def)
next
  case (Cons x rest)
  obtain d1 r where st: "Utf8Decoder_Input d x = (d1, r)" by fastforce
  show ?case
  proof (cases r)
    case None
    with st Cons.IH [OF Cons.prems, of d1 len error out avail] show ?thesis
      by (simp add: split_beta)
  next
    case (Some ch)
    let ?e8 = "Utf8Encoder_EncodeCharacter ch" and ?e16 = "Utf16Encoder_EncodeCharacter ch"
    let ?cs = "snd (utf8_run d1 rest)"
    have cs: "snd (utf8_run d (x # rest)) = ch # ?cs" using st Some by (simp add: split_beta)
    obtain j where j: "match_units data ?e8 i = (j, \<not> occurs_at data ?e8 i)" "j \<le> length data"
      "occurs_at data ?e8 i \<longrightarrow> j = i + length ?e8"
      using match_units_occurs [OF Cons.prems] by blast
    let ?i = "if error then i else j" and ?err = "error \<or> \<not> occurs_at data ?e8 i"
      and ?len = "bsize_add len (bsize_fromsize (of_nat (2 * length ?e16)))"
      and ?out = "out @ take avail (u16s_be ?e16)" and ?av = "avail - length (u16s_be ?e16)"
    have "?i \<le> length data" using j Cons.prems by simp
    from Cons.IH [OF this, of d1 ?len ?err ?out ?av]
    obtain i' len' where
      r: "utf8_to_utf16_loop data rest d1 ?i ?len ?err ?out ?av =
        (i', len', ?err \<or> \<not> occurs_at data (enc8 ?cs) ?i, ?out @ take ?av (u16s_be (enc16 ?cs)))"
      and le: "i' \<le> length data"
      and i': "\<not> ?err \<and> occurs_at data (enc8 ?cs) ?i \<longrightarrow> i' = ?i + length (enc8 ?cs)" by blast
    have "utf8_to_utf16_loop data (x # rest) d i len error out avail =
        (i', len', ?err \<or> \<not> occurs_at data (enc8 ?cs) ?i, ?out @ take ?av (u16s_be (enc16 ?cs)))"
      unfolding r [symmetric] by (simp add: st Some emit_units_eq j(1) Let_def)
    moreover have "(?err \<or> \<not> occurs_at data (enc8 ?cs) ?i) \<longleftrightarrow> (error \<or> \<not> occurs_at data (enc8 (ch # ?cs)) i)"
      using j(3) by (auto simp: occurs_at_append)
    ultimately show ?thesis
      using j(3) i' le unfolding cs by (auto simp: u16s_be_append occurs_at_append)
  qed
qed

text \<open>Dropping the one character with an empty encoding does not change the encoded text.\<close>

lemma enc8_filter_encodable:
  "list_all scalar cs \<Longrightarrow> enc8 (filter encodable cs) = enc8 cs \<and> list_all encodable (filter encodable cs)"
  by (induction cs) (auto simp: encodable_def Utf8Encoder_EncodeCharacter_def)

lemma enc8_run_encodable:
  assumes "enc8 (snd (utf8_run (Utf8Decoder_Init d) data)) = data"
  shows "list_all encodable (snd (utf8_run (Utf8Decoder_Init d) data))"
proof -
  let ?cs = "snd (utf8_run (Utf8Decoder_Init d) data)"
  have "list_all scalar ?cs" using utf8_run_ok [OF d8_ok_Init] by blast
  note enc8_filter_encodable [OF this]
  with assms have "enc8 (filter encodable ?cs) = data" and ok: "list_all encodable (filter encodable ?cs)"
    by simp_all
  with utf8_run_enc8 [OF ok, of "Utf8Decoder_Init d"] have "?cs = filter encodable ?cs" by simp
  with ok show ?thesis by simp
qed


end
