(* ===== verification/ChunkBuffer.thy ===== *)
theory ChunkBuffer
  imports Byteorder Misc_Arith
begin

text \<open>
  The circular packet buffer \<open>src/structure/ChunkBuffer2.h\<close>: an array of four-byte blocks, in
  which every packet takes one header block with its length and then its data, rounded up to
  whole blocks. The array is the byte memory \<open>cb_buffer\<close>; pointers into it are byte offsets.
  The development shows that the buffer is a queue of packets: the abstraction relation
  \<open>cb_rel\<close> ties a buffer to the list of packets it holds.
\<close>

subsection \<open>The buffer and its operations\<close>

record ChunkBuffer2 =
  cb_buffer :: bytes
  cb_size :: int
  cb_wrap :: int
  cb_start :: int
  cb_used :: int
  cb_mtu :: int
  cb_input_dest :: "nat option"
  cb_input_avail :: int
  cb_output_dest :: "nat option"
  cb_output_avail :: int

text \<open>The address of a block, its \<open>len\<close> field, and the number of blocks for some bytes.\<close>

definition block_addr :: "int \<Rightarrow> nat" where
  "block_addr i = nat (4 * i)"

definition block_len :: "host \<Rightarrow> bytes \<Rightarrow> int \<Rightarrow> int" where
  "block_len h m i = sint (host_load h (mem_read m (block_addr i) 4) :: u32)"

definition blocks_for :: "int \<Rightarrow> int" where
  "blocks_for len = int (bdivide_up (nat len) 4)"

text \<open>The conversion of a 64-bit size to \<open>int\<close>, which keeps the low 32 bits.\<close>

definition int_of_size :: "int \<Rightarrow> int" where
  "int_of_size n = sint (of_int n :: u32)"

definition ChunkBuffer2_end :: "ChunkBuffer2 \<Rightarrow> int" where
  "ChunkBuffer2_end buf =
     (if cb_used buf \<ge> cb_wrap buf - cb_start buf then cb_used buf - (cb_wrap buf - cb_start buf)
      else cb_start buf + cb_used buf)"

definition ChunkBuffer2_update_input :: "ChunkBuffer2 \<Rightarrow> ChunkBuffer2" where
  "ChunkBuffer2_update_input buf =
     (let end = ChunkBuffer2_end buf in
      if cb_size buf - end - 1 < cb_mtu buf
      then buf\<lparr>cb_input_dest := None, cb_input_avail := -1\<rparr>
      else let free = (if cb_used buf \<ge> cb_wrap buf - cb_start buf then cb_start buf - end
                       else cb_size buf - end) in
        if free > 0
        then buf\<lparr>cb_input_dest := Some (block_addr (end + 1)),
                 cb_input_avail := int_of_size ((free - 1) * 4)\<rparr>
        else buf\<lparr>cb_input_dest := None, cb_input_avail := -1\<rparr>)"

definition ChunkBuffer2_update_output :: "host \<Rightarrow> ChunkBuffer2 \<Rightarrow> ChunkBuffer2" where
  "ChunkBuffer2_update_output h buf =
     (if cb_used buf > 0
      then let datalen = block_len h (cb_buffer buf) (cb_start buf) in
        buf\<lparr>cb_output_dest := Some (block_addr (cb_start buf + 1)), cb_output_avail := datalen\<rparr>
      else buf\<lparr>cb_output_dest := None, cb_output_avail := -1\<rparr>)"

definition ChunkBuffer2_calc_blocks :: "int \<Rightarrow> int \<Rightarrow> int" where
  "ChunkBuffer2_calc_blocks chunk_len num =
     (let chunk_data_blocks = blocks_for chunk_len in
      if chunk_data_blocks > INT_MAX - 1 then -1
      else let chunk_blocks = 1 + chunk_data_blocks in
        if num > INT_MAX - 1 then -1
        else let num_chunks = num + 1 in
          if chunk_blocks > INT_MAX div num_chunks then -1
          else chunk_blocks * num_chunks)"

text \<open>\<open>buffer\<close> is the uninitialised array that the caller provides.\<close>

definition ChunkBuffer2_Init :: "host \<Rightarrow> bytes \<Rightarrow> int \<Rightarrow> int \<Rightarrow> ChunkBuffer2" where
  "ChunkBuffer2_Init h buffer blocks mtu =
     (let buf = \<lparr>cb_buffer = buffer, cb_size = blocks, cb_wrap = blocks, cb_start = 0, cb_used = 0,
            cb_mtu = blocks_for mtu, cb_input_dest = None, cb_input_avail = 0,
            cb_output_dest = None, cb_output_avail = 0\<rparr>
      in ChunkBuffer2_update_output h (ChunkBuffer2_update_input buf))"

definition ChunkBuffer2_SubmitPacket :: "host \<Rightarrow> ChunkBuffer2 \<Rightarrow> int \<Rightarrow> ChunkBuffer2" where
  "ChunkBuffer2_SubmitPacket h buf len =
     (let end = ChunkBuffer2_end buf;
          blocklen = blocks_for len;
          buf = buf\<lparr>cb_buffer := mem_write (cb_buffer buf) (block_addr end) (host_store h 4 (of_int len :: u32))\<rparr>;
          buf = buf\<lparr>cb_used := cb_used buf + (1 + blocklen)\<rparr>;
          buf = (if cb_used buf \<le> cb_wrap buf - cb_start buf \<and> cb_mtu buf > cb_size buf - (end + 1 + blocklen) - 1
                 then buf\<lparr>cb_wrap := end + 1 + blocklen\<rparr> else buf);
          buf = ChunkBuffer2_update_input buf
      in if cb_used buf = 1 + blocklen then ChunkBuffer2_update_output h buf else buf)"

definition ChunkBuffer2_ConsumePacket :: "host \<Rightarrow> ChunkBuffer2 \<Rightarrow> ChunkBuffer2" where
  "ChunkBuffer2_ConsumePacket h buf =
     (let blocklen = blocks_for (block_len h (cb_buffer buf) (cb_start buf));
          data_wrapped = (cb_used buf \<ge> cb_wrap buf - cb_start buf);
          buf = buf\<lparr>cb_start := cb_start buf + (1 + blocklen), cb_used := cb_used buf - (1 + blocklen)\<rparr>;
          buf = (if cb_start buf = cb_wrap buf then buf\<lparr>cb_start := 0, cb_wrap := cb_size buf\<rparr> else buf);
          buf = (if data_wrapped then ChunkBuffer2_update_input buf else buf)
      in ChunkBuffer2_update_output h buf)"

text \<open>The conditions that the source asserts of a buffer and of its input and output fields.\<close>

definition ChunkBuffer2_assert_buffer :: "ChunkBuffer2 \<Rightarrow> bool" where
  "ChunkBuffer2_assert_buffer buf \<longleftrightarrow>
     cb_size buf > 0 \<and> cb_wrap buf > 0 \<and> cb_wrap buf \<le> cb_size buf \<and> cb_start buf \<ge> 0 \<and>
     cb_start buf < cb_wrap buf \<and> cb_used buf \<ge> 0 \<and> cb_used buf \<le> cb_wrap buf \<and>
     (cb_wrap buf = cb_size buf \<or> cb_used buf \<ge> cb_wrap buf - cb_start buf) \<and> cb_mtu buf \<ge> 0"

definition ChunkBuffer2_assert_io :: "host \<Rightarrow> ChunkBuffer2 \<Rightarrow> bool" where
  "ChunkBuffer2_assert_io h buf \<longleftrightarrow>
     (let end = ChunkBuffer2_end buf in
      if cb_size buf - end - 1 < cb_mtu buf then cb_input_dest buf = None \<and> cb_input_avail buf = -1
      else let free = (if cb_used buf \<ge> cb_wrap buf - cb_start buf then cb_start buf - end
                       else cb_size buf - end) in
        if free > 0
        then cb_input_dest buf = Some (block_addr (end + 1)) \<and> cb_input_avail buf = (free - 1) * 4
        else cb_input_dest buf = None \<and> cb_input_avail buf = -1) \<and>
     (if cb_used buf > 0
      then let datalen = block_len h (cb_buffer buf) (cb_start buf); blocklen = blocks_for datalen in
        datalen \<ge> 0 \<and> blocklen \<le> cb_used buf - 1 \<and> blocklen \<le> cb_wrap buf - cb_start buf - 1 \<and>
        cb_output_dest buf = Some (block_addr (cb_start buf + 1)) \<and> cb_output_avail buf = datalen
      else cb_output_dest buf = None \<and> cb_output_avail buf = -1)"

subsection \<open>Packets in memory\<close>

text \<open>
  \<open>cb_seg h m lim s q e\<close>: the packets of \<open>q\<close> lie one after the other in the blocks from \<open>s\<close> up to
  (not including) \<open>e\<close>, and each of them starts at block \<open>lim\<close> at the latest.
\<close>

primrec cb_seg :: "host \<Rightarrow> bytes \<Rightarrow> int \<Rightarrow> int \<Rightarrow> bytes list \<Rightarrow> int \<Rightarrow> bool" where
  "cb_seg h m lim s [] e \<longleftrightarrow> s = e"
| "cb_seg h m lim s (p # q) e \<longleftrightarrow> s \<le> lim \<and> block_len h m s = int (length p) \<and>
     mem_read m (block_addr (s + 1)) (length p) = p \<and>
     cb_seg h m lim (s + 1 + blocks_for (int (length p))) q e"

lemma blocks_for_nonneg [simp]: "0 \<le> blocks_for n"
  by (simp add: blocks_for_def)

lemma blocks_for_le_iff: "0 \<le> n \<Longrightarrow> 0 \<le> k \<Longrightarrow> blocks_for n \<le> k \<longleftrightarrow> n \<le> 4 * k"
  using bdivide_up_le_iff [of 4 "nat n" "nat k"] by (simp add: blocks_for_def) linarith

lemma blocks_for_ge: "0 \<le> n \<Longrightarrow> n \<le> 4 * blocks_for n"
  using blocks_for_le_iff [of n "blocks_for n"] by simp

lemma cb_seg_length: "cb_seg h m lim s q e \<Longrightarrow> s + int (length q) \<le> e"
proof (induction q arbitrary: s)
  case (Cons p q)
  then have "s + 1 + blocks_for (int (length p)) + int (length q) \<le> e" by simp
  then show ?case using blocks_for_nonneg [of "int (length p)"] by (simp del: blocks_for_nonneg)
qed simp

lemma cb_seg_snoc:
  "cb_seg h m lim s (q @ [p]) e' \<longleftrightarrow> (\<exists>e. cb_seg h m lim s q e \<and> e \<le> lim \<and>
     block_len h m e = int (length p) \<and> mem_read m (block_addr (e + 1)) (length p) = p \<and>
     e' = e + 1 + blocks_for (int (length p)))"
  by (induction q arbitrary: s) auto

text \<open>A write outside the blocks of a segment does not change it.\<close>

lemma cb_seg_frame:
  assumes "cb_seg h m lim s q e" "0 \<le> s" "block_addr e \<le> length m" "a + length bs \<le> length m"
    and "a + length bs \<le> block_addr s \<or> block_addr e \<le> a"
  shows "cb_seg h (mem_write m a bs) lim s q e"
  using assms
proof (induction q arbitrary: s)
  case (Cons p q)
  let ?n = "int (length p)" and ?s' = "s + 1 + blocks_for (int (length p))"
  have b: "?n \<le> 4 * blocks_for ?n" "0 \<le> blocks_for ?n" by (simp_all add: blocks_for_ge)
  have e: "?s' \<le> e" using cb_seg_length [of h m lim ?s' q e] Cons.prems(1) by simp
  have hd: "block_addr s + 4 \<le> block_addr e" and dt: "block_addr (s + 1) + length p \<le> block_addr e"
    and s': "block_addr s \<le> block_addr ?s'" "block_addr s \<le> block_addr (s + 1)"
    using b e Cons.prems(2) by (simp_all add: block_addr_def)
  have "cb_seg h (mem_write m a bs) lim ?s' q e"
    using Cons.prems b s' by (intro Cons.IH) auto
  moreover have "mem_read (mem_write m a bs) (block_addr s) 4 = mem_read m (block_addr s) 4"
    by (rule mem_read_write_other) (use Cons.prems hd in auto)
  moreover have "mem_read (mem_write m a bs) (block_addr (s + 1)) (length p) = mem_read m (block_addr (s + 1)) (length p)"
    by (rule mem_read_write_other) (use Cons.prems dt s' in auto)
  ultimately show ?case using Cons.prems(1) by (simp add: block_len_def)
qed simp

lemma block_len_write:
  assumes "0 \<le> n" "n \<le> INT_MAX" "block_addr i + 4 \<le> length m"
  shows "block_len h (mem_write m (block_addr i) (host_store h 4 (of_int n :: u32))) i = n"
proof -
  have "mem_read (mem_write m (block_addr i) (host_store h 4 (of_int n :: u32))) (block_addr i) 4 =
      host_store h 4 (of_int n :: u32)"
    using mem_read_write_same [of "block_addr i" "host_store h 4 (of_int n :: u32)" m] assms by simp
  then have "block_len h (mem_write m (block_addr i) (host_store h 4 (of_int n :: u32))) i = sint (of_int n :: u32)"
    by (simp add: block_len_def host_load_store)
  also have "\<dots> = n" using assms by (simp add: INT_MAX_def signed_of_int signed_take_bit_int_eq_self)
  finally show ?thesis .
qed

lemma int_of_size_id: "0 \<le> n \<Longrightarrow> n \<le> INT_MAX \<Longrightarrow> int_of_size n = n"
  by (simp add: int_of_size_def INT_MAX_def signed_of_int signed_take_bit_int_eq_self)

subsection \<open>The queue a buffer holds\<close>

text \<open>
  Either the packets lie in one piece from \<open>start\<close>, or the first of them fill the blocks from
  \<open>start\<close> to \<open>wrap\<close> and the others follow from block 0. Every packet, and also the next one to be
  written, starts where a packet of MTU size still fits before the end of the array.
\<close>

definition cb_layout :: "host \<Rightarrow> ChunkBuffer2 \<Rightarrow> bytes list \<Rightarrow> bool" where
  "cb_layout h buf q \<longleftrightarrow>
     (let lim = cb_size buf - 1 - cb_mtu buf; end = ChunkBuffer2_end buf; m = cb_buffer buf in
      if cb_used buf \<ge> cb_wrap buf - cb_start buf
      then (\<exists>q1 q2. q = q1 @ q2 \<and> cb_seg h m lim (cb_start buf) q1 (cb_wrap buf) \<and> cb_seg h m lim 0 q2 end) \<and>
        end \<le> cb_start buf \<and> cb_size buf - 1 - cb_mtu buf < cb_wrap buf
      else cb_seg h m lim (cb_start buf) q end)"

definition cb_sized :: "ChunkBuffer2 \<Rightarrow> bool" where
  "cb_sized buf \<longleftrightarrow> int (length (cb_buffer buf)) = 4 * cb_size buf \<and> 4 * cb_size buf \<le> INT_MAX \<and>
     cb_start buf \<le> cb_size buf - 1 - cb_mtu buf \<and> ChunkBuffer2_end buf \<le> cb_size buf - 1 - cb_mtu buf"

text \<open>The end of the free blocks that follow \<open>end\<close>, and what the input and output fields hold.\<close>

definition cb_free_end :: "ChunkBuffer2 \<Rightarrow> int" where
  "cb_free_end buf = (if cb_used buf \<ge> cb_wrap buf - cb_start buf then cb_start buf else cb_size buf)"

definition cb_input_ok :: "ChunkBuffer2 \<Rightarrow> bool" where
  "cb_input_ok buf \<longleftrightarrow>
     (if ChunkBuffer2_end buf < cb_free_end buf
      then cb_input_dest buf = Some (block_addr (ChunkBuffer2_end buf + 1)) \<and>
        cb_input_avail buf = 4 * (cb_free_end buf - ChunkBuffer2_end buf - 1)
      else cb_input_dest buf = None \<and> cb_input_avail buf = -1)"

definition cb_output_ok :: "ChunkBuffer2 \<Rightarrow> bytes list \<Rightarrow> bool" where
  "cb_output_ok buf q \<longleftrightarrow>
     (case q of [] \<Rightarrow> cb_output_dest buf = None \<and> cb_output_avail buf = -1
      | p # _ \<Rightarrow> cb_output_dest buf = Some (block_addr (cb_start buf + 1)) \<and> cb_output_avail buf = int (length p))"

definition cb_core :: "host \<Rightarrow> ChunkBuffer2 \<Rightarrow> bytes list \<Rightarrow> bool" where
  "cb_core h buf q \<longleftrightarrow> ChunkBuffer2_assert_buffer buf \<and> cb_sized buf \<and> cb_layout h buf q"

definition cb_rel :: "host \<Rightarrow> ChunkBuffer2 \<Rightarrow> bytes list \<Rightarrow> bool" where
  "cb_rel h buf q \<longleftrightarrow> cb_core h buf q \<and> cb_input_ok buf \<and> cb_output_ok buf q"

lemma cb_end_nonneg: "ChunkBuffer2_assert_buffer buf \<Longrightarrow> 0 \<le> ChunkBuffer2_end buf"
  by (auto simp: ChunkBuffer2_assert_buffer_def ChunkBuffer2_end_def)

lemma cb_pos_io [simp]:
  "ChunkBuffer2_end (buf\<lparr>cb_input_dest := od, cb_input_avail := oa\<rparr>) = ChunkBuffer2_end buf"
  "cb_free_end (buf\<lparr>cb_input_dest := od, cb_input_avail := oa\<rparr>) = cb_free_end buf"
  by (simp_all add: ChunkBuffer2_end_def cb_free_end_def)

lemma cb_core_io [simp]:
  "cb_core h (buf\<lparr>cb_output_dest := od, cb_output_avail := oa\<rparr>) q \<longleftrightarrow> cb_core h buf q"
  "cb_core h (buf\<lparr>cb_input_dest := od, cb_input_avail := oa\<rparr>) q \<longleftrightarrow> cb_core h buf q"
  "cb_input_ok (buf\<lparr>cb_output_dest := od, cb_output_avail := oa\<rparr>) \<longleftrightarrow> cb_input_ok buf"
  "cb_output_ok (buf\<lparr>cb_input_dest := od, cb_input_avail := oa\<rparr>) q \<longleftrightarrow> cb_output_ok buf q"
  by (simp_all add: cb_core_def ChunkBuffer2_assert_buffer_def cb_sized_def cb_layout_def
      ChunkBuffer2_end_def Let_def cb_input_ok_def cb_free_end_def cb_output_ok_def split: list.splits)

lemma cb_core_bounds:
  assumes "cb_core h buf q"
  shows "0 \<le> cb_start buf" "cb_start buf < cb_wrap buf" "cb_wrap buf \<le> cb_size buf"
    "cb_free_end buf \<le> cb_size buf" "0 \<le> ChunkBuffer2_end buf" "0 \<le> cb_mtu buf"
    "ChunkBuffer2_end buf \<le> cb_size buf - 1 - cb_mtu buf" "cb_start buf \<le> cb_size buf - 1 - cb_mtu buf"
    "4 * cb_size buf \<le> INT_MAX" "0 \<le> cb_used buf" "int (length (cb_buffer buf)) = 4 * cb_size buf"
  using assms cb_end_nonneg [of buf]
  by (auto simp: cb_core_def ChunkBuffer2_assert_buffer_def cb_sized_def cb_free_end_def)

lemma cb_core_addr: "cb_core h buf q \<Longrightarrow> i \<le> cb_size buf \<Longrightarrow> block_addr i \<le> length (cb_buffer buf)"
  using cb_core_bounds(11) [of h buf q] unfolding block_addr_def by linarith

lemma cb_update_input:
  assumes "cb_core h buf q"
  shows "cb_core h (ChunkBuffer2_update_input buf) q" "cb_input_ok (ChunkBuffer2_update_input buf)"
    "cb_output_ok (ChunkBuffer2_update_input buf) q \<longleftrightarrow> cb_output_ok buf q"
proof -
  note b = cb_core_bounds [OF assms]
  have fields: "ChunkBuffer2_update_input buf =
      (if ChunkBuffer2_end buf < cb_free_end buf
       then buf\<lparr>cb_input_dest := Some (block_addr (ChunkBuffer2_end buf + 1)),
              cb_input_avail := int_of_size ((cb_free_end buf - ChunkBuffer2_end buf - 1) * 4)\<rparr>
       else buf\<lparr>cb_input_dest := None, cb_input_avail := -1\<rparr>)"
    using b by (simp add: ChunkBuffer2_update_input_def Let_def cb_free_end_def)
  have sz: "int_of_size ((cb_free_end buf - ChunkBuffer2_end buf - 1) * 4) =
      4 * (cb_free_end buf - ChunkBuffer2_end buf - 1)" if "ChunkBuffer2_end buf < cb_free_end buf"
    using that b by (subst int_of_size_id) auto
  show "cb_core h (ChunkBuffer2_update_input buf) q" using assms unfolding fields by simp
  show "cb_input_ok (ChunkBuffer2_update_input buf)"
    unfolding fields using sz by (simp add: cb_input_ok_def)
  show "cb_output_ok (ChunkBuffer2_update_input buf) q \<longleftrightarrow> cb_output_ok buf q"
    unfolding fields by simp
qed

lemma cb_layout_first:
  assumes "cb_core h buf (p # q)"
  shows "block_len h (cb_buffer buf) (cb_start buf) = int (length p)"
    "mem_read (cb_buffer buf) (block_addr (cb_start buf + 1)) (length p) = p"
    "0 < cb_used buf"
proof -
  note b = cb_core_bounds [OF assms]
  have lay: "cb_layout h buf (p # q)" using assms by (simp add: cb_core_def)
  have "block_len h (cb_buffer buf) (cb_start buf) = int (length p) \<and>
      mem_read (cb_buffer buf) (block_addr (cb_start buf + 1)) (length p) = p \<and> 0 < cb_used buf"
  proof (cases "cb_used buf \<ge> cb_wrap buf - cb_start buf")
    case True
    then obtain q1 q2 where q: "p # q = q1 @ q2"
      "cb_seg h (cb_buffer buf) (cb_size buf - 1 - cb_mtu buf) (cb_start buf) q1 (cb_wrap buf)"
      using lay by (auto simp: cb_layout_def Let_def)
    then obtain q1' where "q1 = p # q1'" using b(2) by (cases q1) auto
    with q True b show ?thesis by auto
  next
    case False
    then have seg: "cb_seg h (cb_buffer buf) (cb_size buf - 1 - cb_mtu buf) (cb_start buf) (p # q) (cb_start buf + cb_used buf)"
      using lay by (auto simp: cb_layout_def Let_def ChunkBuffer2_end_def)
    then show ?thesis using cb_seg_length [OF seg] by simp
  qed
  then show "block_len h (cb_buffer buf) (cb_start buf) = int (length p)"
    "mem_read (cb_buffer buf) (block_addr (cb_start buf + 1)) (length p) = p" "0 < cb_used buf" by auto
qed

lemma cb_layout_empty: "cb_core h buf [] \<Longrightarrow> cb_used buf = 0"
  using cb_core_bounds [of h buf "[]"]
  by (auto simp: cb_core_def cb_layout_def Let_def ChunkBuffer2_end_def split: if_splits)

lemma cb_update_output:
  assumes "cb_core h buf q"
  shows "cb_core h (ChunkBuffer2_update_output h buf) q" "cb_output_ok (ChunkBuffer2_update_output h buf) q"
    "cb_input_ok (ChunkBuffer2_update_output h buf) \<longleftrightarrow> cb_input_ok buf"
proof -
  have fields: "ChunkBuffer2_update_output h buf =
      (case q of [] \<Rightarrow> buf\<lparr>cb_output_dest := None, cb_output_avail := -1\<rparr>
       | p # _ \<Rightarrow> buf\<lparr>cb_output_dest := Some (block_addr (cb_start buf + 1)), cb_output_avail := int (length p)\<rparr>)"
    using assms cb_layout_empty [of h buf] cb_layout_first [of h buf]
    by (cases q) (auto simp: ChunkBuffer2_update_output_def Let_def)
  show "cb_core h (ChunkBuffer2_update_output h buf) q" using assms unfolding fields by (cases q) simp_all
  show "cb_output_ok (ChunkBuffer2_update_output h buf) q"
    unfolding fields by (cases q) (simp_all add: cb_output_ok_def)
  show "cb_input_ok (ChunkBuffer2_update_output h buf) \<longleftrightarrow> cb_input_ok buf"
    unfolding fields by (cases q) simp_all
qed

text \<open>Writing to the free blocks leaves the queue as it is.\<close>

lemma cb_core_write:
  assumes "cb_core h buf q"
    and "block_addr (ChunkBuffer2_end buf) \<le> a" "a + length bs \<le> block_addr (cb_free_end buf)"
  shows "cb_core h (buf\<lparr>cb_buffer := mem_write (cb_buffer buf) a bs\<rparr>) q"
proof -
  let ?en = "ChunkBuffer2_end buf" and ?m = "mem_write (cb_buffer buf) a bs"
  note b = cb_core_bounds [OF assms(1)] and len = cb_core_addr [OF assms(1)]
  have eeq: "ChunkBuffer2_end (buf\<lparr>cb_buffer := ?m\<rparr>) = ?en" by (simp add: ChunkBuffer2_end_def)
  have lay: "cb_layout h buf q" using assms(1) by (simp add: cb_core_def)
  have al: "a + length bs \<le> length (cb_buffer buf)" using assms(3) len [OF b(4)] by simp
  note frame = cb_seg_frame [where m = "cb_buffer buf" and a = a and bs = bs and h = h]
  have "cb_layout h (buf\<lparr>cb_buffer := ?m\<rparr>) q"
  proof (cases "cb_used buf \<ge> cb_wrap buf - cb_start buf")
    case True
    then obtain q1 q2 where q: "q = q1 @ q2"
      "cb_seg h (cb_buffer buf) (cb_size buf - 1 - cb_mtu buf) (cb_start buf) q1 (cb_wrap buf)"
      "cb_seg h (cb_buffer buf) (cb_size buf - 1 - cb_mtu buf) 0 q2 ?en"
      using lay by (auto simp: cb_layout_def Let_def)
    have "cb_seg h ?m (cb_size buf - 1 - cb_mtu buf) (cb_start buf) q1 (cb_wrap buf)"
      by (rule frame [OF q(2)]) (use b len al assms(3) True in \<open>auto simp: cb_free_end_def\<close>)
    moreover have "cb_seg h ?m (cb_size buf - 1 - cb_mtu buf) 0 q2 ?en"
      by (rule frame [OF q(3)]) (use b len al assms(2) in auto)
    ultimately show ?thesis using True q(1) lay by (auto simp: cb_layout_def Let_def eeq)
  next
    case False
    then have "cb_seg h ?m (cb_size buf - 1 - cb_mtu buf) (cb_start buf) q ?en"
      using lay by (intro frame) (use b len al assms(2) in \<open>auto simp: cb_layout_def Let_def\<close>)
    then show ?thesis using False by (simp add: cb_layout_def Let_def eeq)
  qed
  then show ?thesis
    using assms(1) al by (simp add: cb_core_def ChunkBuffer2_assert_buffer_def cb_sized_def eeq)
qed

subsection \<open>Submitting a packet\<close>

text \<open>The writer of a packet stores its bytes at \<open>input_dest\<close> before it submits the length.\<close>

definition cb_fill :: "ChunkBuffer2 \<Rightarrow> bytes \<Rightarrow> ChunkBuffer2" where
  "cb_fill buf p = (case cb_input_dest buf of None \<Rightarrow> buf
     | Some d \<Rightarrow> buf\<lparr>cb_buffer := mem_write (cb_buffer buf) d p\<rparr>)"

lemma cb_room:
  assumes "cb_rel h buf q" "int (length p) \<le> cb_input_avail buf"
  shows "ChunkBuffer2_end buf < cb_free_end buf"
    "cb_input_dest buf = Some (block_addr (ChunkBuffer2_end buf + 1))"
    "ChunkBuffer2_end buf + 1 + blocks_for (int (length p)) \<le> cb_free_end buf"
    "block_addr (ChunkBuffer2_end buf + 1) + length p \<le> block_addr (cb_free_end buf)"
    "int (length p) \<le> INT_MAX"
proof -
  note b = cb_core_bounds [of h buf q]
  have core: "cb_core h buf q" and inp: "cb_input_ok buf" using assms(1) by (simp_all add: cb_rel_def)
  show lt: "ChunkBuffer2_end buf < cb_free_end buf"
    using inp assms(2) by (auto simp: cb_input_ok_def split: if_splits)
  then show "cb_input_dest buf = Some (block_addr (ChunkBuffer2_end buf + 1))"
    using inp by (simp add: cb_input_ok_def)
  have le: "int (length p) \<le> 4 * (cb_free_end buf - ChunkBuffer2_end buf - 1)"
    using inp lt assms(2) by (simp add: cb_input_ok_def)
  then show "ChunkBuffer2_end buf + 1 + blocks_for (int (length p)) \<le> cb_free_end buf"
    using lt blocks_for_le_iff [of "int (length p)" "cb_free_end buf - ChunkBuffer2_end buf - 1"] by simp
  show "block_addr (ChunkBuffer2_end buf + 1) + length p \<le> block_addr (cb_free_end buf)"
    using le lt b(5) [OF core] by (simp add: block_addr_def le_nat_iff)
  show "int (length p) \<le> INT_MAX" using le b(4,5,9) [OF core] by (auto simp: algebra_simps)
qed

lemma cb_core_submit:
  assumes core: "cb_core h buf q" and rel: "cb_rel h buf q" and len: "int (length p) \<le> cb_input_avail buf"
    and data: "mem_read (cb_buffer buf) (block_addr (ChunkBuffer2_end buf + 1)) (length p) = p"
  defines "e \<equiv> ChunkBuffer2_end buf" and "bl \<equiv> blocks_for (int (length p))"
  defines "buf2 \<equiv> buf\<lparr>cb_buffer := mem_write (cb_buffer buf) (block_addr e) (host_store h 4 (of_int (int (length p)) :: u32)),
      cb_used := cb_used buf + (1 + bl)\<rparr>"
  shows "cb_core h (if cb_used buf2 \<le> cb_wrap buf2 - cb_start buf2 \<and> cb_mtu buf2 > cb_size buf2 - (e + 1 + bl) - 1
       then buf2\<lparr>cb_wrap := e + 1 + bl\<rparr> else buf2) (q @ [p])" (is "cb_core h ?buf3 _")
proof -
  let ?m = "mem_write (cb_buffer buf) (block_addr e) (host_store h 4 (of_int (int (length p)) :: u32))"
  let ?lim = "cb_size buf - 1 - cb_mtu buf"
  note b = cb_core_bounds [OF core] and r = cb_room [OF rel len]
  have bl: "0 \<le> bl" by (simp add: bl_def)
  have room: "e + 1 + bl \<le> cb_free_end buf" "0 \<le> e" "e \<le> ?lim"
    using r(3) b(5,7) by (simp_all add: e_def bl_def)
  have ea: "block_addr e + 4 = block_addr (e + 1)" using room(2) by (simp add: block_addr_def)
  have end4: "block_addr (e + 1) \<le> block_addr (cb_free_end buf)" using r(4) unfolding e_def by simp
  have w: "cb_core h (buf\<lparr>cb_buffer := ?m\<rparr>) q"
    using core by (rule cb_core_write) (use ea end4 in \<open>simp_all add: e_def\<close>)
  have mlen: "block_addr (cb_free_end buf) \<le> length (cb_buffer buf)" using cb_core_addr [OF core b(4)] .
  have hd: "block_len h ?m e = int (length p)"
    by (rule block_len_write) (use r(5) ea end4 mlen in simp_all)
  have dt: "mem_read ?m (block_addr (e + 1)) (length p) = p"
    by (subst mem_read_write_other) (use ea r(4) mlen data in \<open>simp_all add: e_def\<close>)
  have snoc: "cb_seg h ?m ?lim s (q' @ [p]) (e + 1 + bl)" if "cb_seg h ?m ?lim s q' e" for s q'
    unfolding cb_seg_snoc using that hd dt room(3) by (auto simp: bl_def)
  have ab: "ChunkBuffer2_assert_buffer buf" using core by (simp add: cb_core_def)
  have lay: "cb_layout h (buf\<lparr>cb_buffer := ?m\<rparr>) q" using w by (simp add: cb_core_def)
  have e': "ChunkBuffer2_end (buf\<lparr>cb_buffer := ?m\<rparr>) = e" by (simp add: ChunkBuffer2_end_def e_def)
  have mlen': "length ?m = length (cb_buffer buf)" using ea end4 mlen by simp
  show ?thesis
  proof (cases "cb_used buf \<ge> cb_wrap buf - cb_start buf")
    case True
    have fe: "cb_free_end buf = cb_start buf" and e_eq: "e = cb_used buf - (cb_wrap buf - cb_start buf)"
      using True by (simp_all add: cb_free_end_def e_def ChunkBuffer2_end_def)
    have b3: "?buf3 = buf2" using True bl by (auto simp: buf2_def)
    obtain q1 q2 where q: "q = q1 @ q2" "cb_seg h ?m ?lim (cb_start buf) q1 (cb_wrap buf)"
      "cb_seg h ?m ?lim 0 q2 e" "?lim < cb_wrap buf"
      using lay True unfolding cb_layout_def Let_def e' by auto
    have en: "ChunkBuffer2_end buf2 = e + 1 + bl" using True bl e_eq by (simp add: buf2_def ChunkBuffer2_end_def)
    have "cb_layout h buf2 (q @ [p])"
      using q(1,2,4) snoc [OF q(3)] True bl room(1) fe unfolding cb_layout_def Let_def en
      by (auto simp: buf2_def intro: exI [of _ q1] exI [of _ "q2 @ [p]"])
    moreover have "cb_used buf2 \<le> cb_wrap buf" using room(1) fe e_eq by (simp add: buf2_def)
    ultimately show ?thesis
      using b ab bl room(1) fe mlen' unfolding b3 cb_core_def cb_sized_def en
      by (auto simp: buf2_def ChunkBuffer2_assert_buffer_def)
  next
    case False
    have fe: "cb_free_end buf = cb_size buf" and e_eq: "e = cb_start buf + cb_used buf"
      and wr: "cb_wrap buf = cb_size buf"
      using False ab by (simp_all add: cb_free_end_def e_def ChunkBuffer2_end_def ChunkBuffer2_assert_buffer_def)
    have seg: "cb_seg h ?m ?lim (cb_start buf) (q @ [p]) (e + 1 + bl)"
      using lay False snoc [of "cb_start buf" q] unfolding cb_layout_def Let_def e' by simp
    show ?thesis
    proof (cases "?lim < e + 1 + bl")
      case True
      have b3: "?buf3 = buf2\<lparr>cb_wrap := e + 1 + bl\<rparr>"
        using True e_eq room(1) fe wr by (simp add: buf2_def)
      have en: "ChunkBuffer2_end (buf2\<lparr>cb_wrap := e + 1 + bl\<rparr>) = 0"
        using e_eq by (simp add: buf2_def ChunkBuffer2_end_def)
      have "cb_layout h (buf2\<lparr>cb_wrap := e + 1 + bl\<rparr>) (q @ [p])"
        using seg True e_eq b(1) unfolding cb_layout_def Let_def en
        by (auto simp: buf2_def intro: exI [of _ "q @ [p]"])
      then show ?thesis
        using b ab bl room fe e_eq mlen' unfolding b3 cb_core_def cb_sized_def en
        by (auto simp: buf2_def ChunkBuffer2_assert_buffer_def)
    next
      case False2: False
      have b3: "?buf3 = buf2" using False2 by (auto simp: buf2_def)
      have nw: "\<not> cb_used buf2 \<ge> cb_wrap buf2 - cb_start buf2"
        using False2 e_eq wr b(6) by (simp add: buf2_def)
      have en: "ChunkBuffer2_end buf2 = e + 1 + bl" using nw e_eq by (simp add: buf2_def ChunkBuffer2_end_def)
      have "cb_layout h buf2 (q @ [p])"
        using seg nw unfolding cb_layout_def Let_def en by (simp add: buf2_def)
      then show ?thesis
        using b ab bl room fe e_eq False2 wr mlen' unfolding b3 cb_core_def cb_sized_def en
        by (auto simp: buf2_def ChunkBuffer2_assert_buffer_def)
    qed
  qed
qed

lemma cb_update_fields [simp]:
  "cb_used (ChunkBuffer2_update_input buf) = cb_used buf"
  "cb_buffer (ChunkBuffer2_update_input buf) = cb_buffer buf"
  "ChunkBuffer2_end (ChunkBuffer2_update_input buf) = ChunkBuffer2_end buf"
  "cb_free_end (ChunkBuffer2_update_input buf) = cb_free_end buf"
  "cb_buffer (ChunkBuffer2_update_output h buf) = cb_buffer buf"
  "ChunkBuffer2_end (ChunkBuffer2_update_output h buf) = ChunkBuffer2_end buf"
  "cb_free_end (ChunkBuffer2_update_output h buf) = cb_free_end buf"
  by (simp_all add: ChunkBuffer2_update_input_def ChunkBuffer2_update_output_def
      ChunkBuffer2_end_def cb_free_end_def Let_def)

lemma cb_rel_submit:
  assumes rel: "cb_rel h buf q" and len: "int (length p) \<le> cb_input_avail buf"
    and data: "mem_read (cb_buffer buf) (block_addr (ChunkBuffer2_end buf + 1)) (length p) = p"
  shows "cb_rel h (ChunkBuffer2_SubmitPacket h buf (int (length p))) (q @ [p])"
proof -
  define e bl where "e = ChunkBuffer2_end buf" and "bl = blocks_for (int (length p))"
  define buf2 where "buf2 = buf\<lparr>cb_buffer := mem_write (cb_buffer buf) (block_addr e)
      (host_store h 4 (of_int (int (length p)) :: u32)), cb_used := cb_used buf + (1 + bl)\<rparr>"
  define buf3 where "buf3 = (if cb_used buf2 \<le> cb_wrap buf2 - cb_start buf2 \<and> cb_mtu buf2 > cb_size buf2 - (e + 1 + bl) - 1
       then buf2\<lparr>cb_wrap := e + 1 + bl\<rparr> else buf2)"
  have core: "cb_core h buf q" using rel by (simp add: cb_rel_def)
  have c3: "cb_core h buf3 (q @ [p])"
    unfolding buf3_def buf2_def e_def bl_def by (rule cb_core_submit [OF core rel len data])
  have sub: "ChunkBuffer2_SubmitPacket h buf (int (length p)) =
      (if cb_used buf3 = 1 + bl then ChunkBuffer2_update_output h (ChunkBuffer2_update_input buf3)
       else ChunkBuffer2_update_input buf3)"
    unfolding ChunkBuffer2_SubmitPacket_def Let_def buf3_def buf2_def e_def bl_def by simp
  have used: "cb_used buf3 = cb_used buf + (1 + bl)" by (simp add: buf3_def buf2_def)
  show ?thesis
  proof (cases "cb_used buf3 = 1 + bl")
    case True
    then show ?thesis using cb_update_output [OF cb_update_input(1) [OF c3]] cb_update_input [OF c3]
      unfolding sub cb_rel_def by simp
  next
    case False
    then obtain p0 q0 where q: "q = p0 # q0" using cb_layout_empty [of h buf] core used by (cases q) auto
    have "cb_output_ok buf3 (q @ [p])"
      using rel q by (simp add: cb_rel_def cb_output_ok_def buf3_def buf2_def)
    then show ?thesis using cb_update_input [OF c3] False unfolding sub cb_rel_def by simp
  qed
qed

lemma cb_rel_fill:
  assumes "cb_rel h buf q" "int (length p) \<le> cb_input_avail buf"
  shows "cb_rel h (cb_fill buf p) q" "cb_input_avail (cb_fill buf p) = cb_input_avail buf"
    "mem_read (cb_buffer (cb_fill buf p)) (block_addr (ChunkBuffer2_end (cb_fill buf p) + 1)) (length p) = p"
proof -
  note r = cb_room [OF assms]
  have core: "cb_core h buf q" using assms(1) by (simp add: cb_rel_def)
  let ?a = "block_addr (ChunkBuffer2_end buf + 1)"
  have f: "cb_fill buf p = buf\<lparr>cb_buffer := mem_write (cb_buffer buf) ?a p\<rparr>" using r(2) by (simp add: cb_fill_def)
  have e: "ChunkBuffer2_end (cb_fill buf p) = ChunkBuffer2_end buf" "cb_free_end (cb_fill buf p) = cb_free_end buf"
    by (simp_all add: f ChunkBuffer2_end_def cb_free_end_def)
  have "cb_core h (cb_fill buf p) q"
    unfolding f using core by (rule cb_core_write) (use r(4) cb_core_bounds(5) [OF core] in \<open>simp_all add: block_addr_def\<close>)
  then show "cb_rel h (cb_fill buf p) q"
    using assms(1) e by (simp add: cb_rel_def cb_input_ok_def cb_output_ok_def f split: list.splits)
  show "cb_input_avail (cb_fill buf p) = cb_input_avail buf" by (simp add: f)
  have "?a + length p \<le> length (cb_buffer buf)"
    using r(4) cb_core_addr [OF core cb_core_bounds(4) [OF core]] by simp
  then show "mem_read (cb_buffer (cb_fill buf p)) (block_addr (ChunkBuffer2_end (cb_fill buf p) + 1)) (length p) = p"
    unfolding e by (simp add: f)
qed

subsection \<open>Consuming a packet\<close>

lemma cb_core_consume:
  assumes "cb_core h buf (p # q)"
  defines "bl \<equiv> blocks_for (int (length p))"
  defines "buf1 \<equiv> buf\<lparr>cb_start := cb_start buf + (1 + bl), cb_used := cb_used buf - (1 + bl)\<rparr>"
  defines "buf2 \<equiv> if cb_start buf1 = cb_wrap buf1 then buf1\<lparr>cb_start := 0, cb_wrap := cb_size buf1\<rparr> else buf1"
  shows "cb_core h buf2 q" "ChunkBuffer2_end buf2 = ChunkBuffer2_end buf"
    "cb_used buf < cb_wrap buf - cb_start buf \<longrightarrow> cb_free_end buf2 = cb_free_end buf"
    "cb_free_end buf \<le> cb_free_end buf2"
proof -
  note b = cb_core_bounds [OF assms(1)]
  let ?lim = "cb_size buf - 1 - cb_mtu buf" and ?e = "ChunkBuffer2_end buf" and ?m = "cb_buffer buf"
  have bl: "0 \<le> bl" by (simp add: bl_def)
  have ab: "ChunkBuffer2_assert_buffer buf" and lay: "cb_layout h buf (p # q)" and szd: "cb_sized buf"
    using assms(1) by (simp_all add: cb_core_def)
  have "cb_core h buf2 q \<and> ChunkBuffer2_end buf2 = ?e \<and>
      (cb_used buf < cb_wrap buf - cb_start buf \<longrightarrow> cb_free_end buf2 = cb_free_end buf) \<and>
      cb_free_end buf \<le> cb_free_end buf2"
  proof (cases "cb_used buf \<ge> cb_wrap buf - cb_start buf")
    case True
    have e_eq: "?e = cb_used buf - (cb_wrap buf - cb_start buf)" using True by (simp add: ChunkBuffer2_end_def)
    obtain q1 q2 where q: "p # q = q1 @ q2" "cb_seg h ?m ?lim (cb_start buf) q1 (cb_wrap buf)"
      "cb_seg h ?m ?lim 0 q2 ?e" "?e \<le> cb_start buf" "?lim < cb_wrap buf"
      using lay True unfolding cb_layout_def Let_def by auto
    then obtain q1' where q1: "q1 = p # q1'" using b(2) by (cases q1) auto
    have seg: "cb_seg h ?m ?lim (cb_start buf + (1 + bl)) q1' (cb_wrap buf)"
      using q(2) unfolding q1 by (simp add: bl_def add.assoc)
    note le = cb_seg_length [OF seg]
    show ?thesis
    proof (cases "cb_start buf + (1 + bl) = cb_wrap buf")
      case wrap: True
      have b2: "buf2 = buf\<lparr>cb_start := 0, cb_wrap := cb_size buf, cb_used := ?e\<rparr>"
        using wrap e_eq by (simp add: buf2_def buf1_def)
      have en: "ChunkBuffer2_end buf2 = ?e" using b by (simp add: b2 ChunkBuffer2_end_def)
      have "q1' = []" using le wrap by simp
      then have "cb_layout h buf2 q" using q(1,3) q1 b unfolding cb_layout_def Let_def en by (simp add: b2)
      then show ?thesis
        using b ab True en unfolding cb_core_def cb_sized_def en
        by (simp add: b2 ChunkBuffer2_assert_buffer_def cb_free_end_def)
    next
      case nowrap: False
      have b2: "buf2 = buf1" using nowrap by (simp add: buf2_def buf1_def)
      have en: "ChunkBuffer2_end buf2 = ?e" using True e_eq by (simp add: b2 buf1_def ChunkBuffer2_end_def)
      have s': "cb_start buf + (1 + bl) \<le> ?lim" using seg nowrap by (cases q1') auto
      have "cb_layout h buf2 q"
        using q q1 seg True bl unfolding cb_layout_def Let_def en by (auto simp: b2 buf1_def)
      then show ?thesis
        using b ab True s' bl le nowrap e_eq unfolding cb_core_def cb_sized_def en
        by (simp add: b2 buf1_def ChunkBuffer2_assert_buffer_def cb_free_end_def)
    qed
  next
    case False
    have e_eq: "?e = cb_start buf + cb_used buf" using False by (simp add: ChunkBuffer2_end_def)
    have wr: "cb_wrap buf = cb_size buf" using False ab by (simp add: ChunkBuffer2_assert_buffer_def)
    have seg: "cb_seg h ?m ?lim (cb_start buf + (1 + bl)) q ?e"
      using lay False unfolding cb_layout_def Let_def by (simp add: bl_def add.assoc)
    note le = cb_seg_length [OF seg]
    have b2: "buf2 = buf1" using le False e_eq by (simp add: buf2_def buf1_def)
    have en: "ChunkBuffer2_end buf2 = ?e" using False e_eq by (simp add: b2 buf1_def ChunkBuffer2_end_def)
    have "cb_layout h buf2 q"
      using seg False unfolding cb_layout_def Let_def en by (simp add: b2 buf1_def)
    then show ?thesis
      using b ab False le bl e_eq wr unfolding cb_core_def cb_sized_def en
      by (simp add: b2 buf1_def ChunkBuffer2_assert_buffer_def cb_free_end_def)
  qed
  then show "cb_core h buf2 q" "ChunkBuffer2_end buf2 = ?e"
    "cb_used buf < cb_wrap buf - cb_start buf \<longrightarrow> cb_free_end buf2 = cb_free_end buf"
    "cb_free_end buf \<le> cb_free_end buf2" by auto
qed

lemma cb_rel_consume:
  assumes "cb_rel h buf (p # q)"
  shows "cb_rel h (ChunkBuffer2_ConsumePacket h buf) q"
proof -
  define bl where "bl = blocks_for (int (length p))"
  define buf1 where "buf1 = buf\<lparr>cb_start := cb_start buf + (1 + bl), cb_used := cb_used buf - (1 + bl)\<rparr>"
  define buf2 where "buf2 = (if cb_start buf1 = cb_wrap buf1 then buf1\<lparr>cb_start := 0, cb_wrap := cb_size buf1\<rparr> else buf1)"
  define buf3 where "buf3 = (if cb_used buf \<ge> cb_wrap buf - cb_start buf then ChunkBuffer2_update_input buf2 else buf2)"
  have core: "cb_core h buf (p # q)" using assms by (simp add: cb_rel_def)
  have first: "block_len h (cb_buffer buf) (cb_start buf) = int (length p)" by (rule cb_layout_first(1) [OF core])
  note c = cb_core_consume [OF core, folded bl_def, folded buf1_def, folded buf2_def]
  have con: "ChunkBuffer2_ConsumePacket h buf = ChunkBuffer2_update_output h buf3"
    unfolding ChunkBuffer2_ConsumePacket_def Let_def first buf3_def buf2_def buf1_def bl_def by simp
  have io: "cb_input_dest buf2 = cb_input_dest buf" "cb_input_avail buf2 = cb_input_avail buf"
    by (simp_all add: buf2_def buf1_def)
  have "cb_core h buf3 q \<and> cb_input_ok buf3"
  proof (cases "cb_used buf \<ge> cb_wrap buf - cb_start buf")
    case True
    then show ?thesis using cb_update_input [OF c(1)] by (simp add: buf3_def)
  next
    case False
    then have "cb_free_end buf2 = cb_free_end buf" using c(3) by simp
    then have "cb_input_ok buf2" using assms c(2) io by (simp add: cb_rel_def cb_input_ok_def)
    then show ?thesis using c(1) False by (simp add: buf3_def)
  qed
  then show ?thesis using cb_update_output [of h buf3 q] unfolding con cb_rel_def by simp
qed

text \<open>The place of the next packet does not move when a packet is consumed.\<close>

lemma cb_consume_fields:
  assumes "cb_rel h buf (p # q)"
  shows "ChunkBuffer2_end (ChunkBuffer2_ConsumePacket h buf) = ChunkBuffer2_end buf"
    "cb_free_end buf \<le> cb_free_end (ChunkBuffer2_ConsumePacket h buf)"
    "cb_buffer (ChunkBuffer2_ConsumePacket h buf) = cb_buffer buf"
proof -
  have core: "cb_core h buf (p # q)" using assms by (simp add: cb_rel_def)
  note c = cb_core_consume [OF core] and first = cb_layout_first(1) [OF core]
  show "ChunkBuffer2_end (ChunkBuffer2_ConsumePacket h buf) = ChunkBuffer2_end buf"
    using c(2) unfolding ChunkBuffer2_ConsumePacket_def Let_def first by (simp split: if_splits)
  show "cb_free_end buf \<le> cb_free_end (ChunkBuffer2_ConsumePacket h buf)"
    using c(4) unfolding ChunkBuffer2_ConsumePacket_def Let_def first by (simp split: if_splits)
  show "cb_buffer (ChunkBuffer2_ConsumePacket h buf) = cb_buffer buf"
    unfolding ChunkBuffer2_ConsumePacket_def Let_def by simp
qed

lemma cb_input_dest_consume:
  assumes "cb_rel h buf (p # q)" "cb_input_dest buf = Some d"
  shows "cb_input_dest (ChunkBuffer2_ConsumePacket h buf) = Some d \<and>
    cb_input_avail buf \<le> cb_input_avail (ChunkBuffer2_ConsumePacket h buf)"
  using assms(2) cb_consume_fields [OF assms(1)] assms(1) cb_rel_consume [OF assms(1)]
  by (auto simp: cb_rel_def cb_input_ok_def split: if_splits)

lemma cb_rel_Init:
  assumes "0 \<le> mtu" "blocks_for mtu < blocks" "4 * blocks \<le> INT_MAX" "int (length buffer) = 4 * blocks"
  shows "cb_rel h (ChunkBuffer2_Init h buffer blocks mtu) []"
proof -
  let ?b = "\<lparr>cb_buffer = buffer, cb_size = blocks, cb_wrap = blocks, cb_start = 0, cb_used = 0,
            cb_mtu = blocks_for mtu, cb_input_dest = None, cb_input_avail = 0,
            cb_output_dest = None, cb_output_avail = 0\<rparr>"
  have "0 < blocks" using assms(2) blocks_for_nonneg [of mtu] by linarith
  then have "cb_core h ?b []"
    using assms by (simp add: cb_core_def ChunkBuffer2_assert_buffer_def cb_sized_def cb_layout_def
        ChunkBuffer2_end_def Let_def)
  from cb_update_output [OF cb_update_input(1) [OF this]] cb_update_input [OF this] show ?thesis
    by (simp add: ChunkBuffer2_Init_def cb_rel_def)
qed

text \<open>The assertions of the source hold in every buffer that holds a queue.\<close>

lemma cb_rel_asserts:
  assumes "cb_rel h buf q"
  shows "ChunkBuffer2_assert_buffer buf \<and> ChunkBuffer2_assert_io h buf"
proof -
  have core: "cb_core h buf q" and inp: "cb_input_ok buf" and out: "cb_output_ok buf q"
    using assms by (simp_all add: cb_rel_def)
  note b = cb_core_bounds [OF core]
  have "ChunkBuffer2_assert_io h buf"
  proof (cases q)
    case Nil
    then show ?thesis
      using core cb_layout_empty [of h buf] inp out b
      by (auto simp: ChunkBuffer2_assert_io_def Let_def cb_input_ok_def cb_free_end_def cb_output_ok_def split: if_splits)
  next
    case (Cons p q')
    let ?bl = "blocks_for (int (length p))"
    note first = cb_layout_first [OF core [unfolded Cons]]
    note c = cb_core_bounds [OF cb_core_consume(1) [OF core [unfolded Cons]]]
    have "?bl \<le> cb_used buf - 1" "?bl \<le> cb_wrap buf - cb_start buf - 1"
      using c(2,10) by (auto split: if_splits)
    then show ?thesis
      using first inp out b Cons
      by (auto simp: ChunkBuffer2_assert_io_def Let_def cb_input_ok_def cb_free_end_def cb_output_ok_def split: if_splits)
  qed
  then show ?thesis using core by (simp add: cb_core_def)
qed

subsection \<open>Capacity\<close>

lemma cb_seg_upper:
  "cb_seg h m lim s q e \<Longrightarrow> list_all (\<lambda>p. blocks_for (int (length p)) \<le> k) q \<Longrightarrow>
     e - s \<le> (1 + k) * int (length q)"
proof (induction q arbitrary: s)
  case (Cons p q)
  then have "e - (s + 1 + blocks_for (int (length p))) \<le> (1 + k) * int (length q)" by simp
  with Cons.prems(2) show ?case by (simp add: algebra_simps)
qed simp

text \<open>
  A buffer of \<open>ChunkBuffer2_calc_blocks\<close> blocks that holds fewer than \<open>num\<close> packets has room for
  another packet of MTU size.
\<close>

lemma cb_capacity:
  assumes rel: "cb_rel h buf q" and size: "cb_size buf = (1 + cb_mtu buf) * (num + 1)"
    and small: "list_all (\<lambda>p. blocks_for (int (length p)) \<le> cb_mtu buf) q" and room: "int (length q) < num"
  shows "4 * cb_mtu buf \<le> cb_input_avail buf"
proof -
  have core: "cb_core h buf q" and inp: "cb_input_ok buf" using rel by (simp_all add: cb_rel_def)
  note b = cb_core_bounds [OF core]
  let ?k = "1 + cb_mtu buf" and ?e = "ChunkBuffer2_end buf"
  have "cb_mtu buf + 1 \<le> cb_free_end buf - ?e"
  proof (cases "cb_used buf \<ge> cb_wrap buf - cb_start buf")
    case True
    then obtain q1 q2 where q: "q = q1 @ q2"
      "cb_seg h (cb_buffer buf) (cb_size buf - 1 - cb_mtu buf) (cb_start buf) q1 (cb_wrap buf)"
      "cb_seg h (cb_buffer buf) (cb_size buf - 1 - cb_mtu buf) 0 q2 ?e"
      and w: "cb_size buf - 1 - cb_mtu buf < cb_wrap buf"
      using core unfolding cb_core_def cb_layout_def Let_def by auto
    have "cb_wrap buf - cb_start buf \<le> ?k * int (length q1)" "?e \<le> ?k * int (length q2)"
      using cb_seg_upper [OF q(2), of "cb_mtu buf"] cb_seg_upper [OF q(3), of "cb_mtu buf"] small q(1) by simp_all
    then have "cb_wrap buf - cb_start buf + ?e \<le> ?k * int (length q)" using q(1) by (simp add: algebra_simps)
    moreover have "?k * int (length q) \<le> ?k * (num - 1)" using room b(6) by (intro mult_left_mono) auto
    ultimately have "cb_wrap buf - cb_start buf + ?e \<le> ?k * (num + 1) - ?k - ?k" by (simp add: algebra_simps)
    moreover have "cb_free_end buf = cb_start buf" using True by (simp add: cb_free_end_def)
    ultimately show ?thesis using w size b(6) by simp
  next
    case False
    then show ?thesis using b(7) by (simp add: cb_free_end_def)
  qed
  then show ?thesis using inp b(6) by (auto simp: cb_input_ok_def split: if_splits)
qed

lemma ChunkBuffer2_calc_blocks_eq:
  assumes "0 \<le> chunk_len" "0 < num" "ChunkBuffer2_calc_blocks chunk_len num \<ge> 0"
  shows "ChunkBuffer2_calc_blocks chunk_len num = (1 + blocks_for chunk_len) * (num + 1)"
    "ChunkBuffer2_calc_blocks chunk_len num \<le> INT_MAX"
proof -
  let ?c = "1 + blocks_for chunk_len"
  have d: "\<not> blocks_for chunk_len > INT_MAX - 1" "\<not> num > INT_MAX - 1" "\<not> ?c > INT_MAX div (num + 1)"
    using assms(3) by (auto simp: ChunkBuffer2_calc_blocks_def Let_def split: if_splits)
  then show eq: "ChunkBuffer2_calc_blocks chunk_len num = ?c * (num + 1)"
    by (simp add: ChunkBuffer2_calc_blocks_def Let_def)
  have "?c * (num + 1) \<le> INT_MAX div (num + 1) * (num + 1)" using d(3) assms(2) by (intro mult_right_mono) auto
  also have "\<dots> \<le> INT_MAX" using assms(2) div_mult_mod_eq [of INT_MAX "num + 1"]
    pos_mod_sign [of "num + 1" INT_MAX] by linarith
  finally show "ChunkBuffer2_calc_blocks chunk_len num \<le> INT_MAX" unfolding eq .
qed

subsection \<open>The queue interface\<close>

text \<open>
  What a user of a packet store relies on: \<open>holds\<close> relates a store to its packets, \<open>room\<close> is the
  size of packet it takes next. The store determines its packets.
\<close>

locale packet_store =
  fixes holds :: "'s \<Rightarrow> bytes list \<Rightarrow> bool" and room :: "'s \<Rightarrow> int"
    and put :: "bytes \<Rightarrow> 's \<Rightarrow> 's" and front :: "'s \<Rightarrow> bytes option" and pop :: "'s \<Rightarrow> 's"
  assumes put_holds: "holds s q \<Longrightarrow> int (length p) \<le> room s \<Longrightarrow> holds (put p s) (q @ [p])"
    and front_holds: "holds s q \<Longrightarrow> front s = (case q of [] \<Rightarrow> None | p # _ \<Rightarrow> Some p)"
    and pop_holds: "holds s (p # q) \<Longrightarrow> holds (pop s) q"
begin

lemma holds_unique: "holds s q \<Longrightarrow> holds s q' \<Longrightarrow> q = q'"
proof (induction q arbitrary: s q')
  case Nil
  then show ?case using front_holds [OF Nil(1)] front_holds [OF Nil(2)] by (cases q') auto
next
  case (Cons p q)
  then obtain q0 where "q' = p # q0"
    using front_holds [OF Cons.prems(1)] front_holds [OF Cons.prems(2)] by (cases q') auto
  then show ?case using Cons.IH [OF pop_holds [OF Cons.prems(1)]] pop_holds [of s p q0] Cons.prems(2) by simp
qed

lemma pops_holds: "holds s (ps @ q) \<Longrightarrow> holds ((pop ^^ length ps) s) q"
proof (induction ps arbitrary: s)
  case (Cons p ps)
  then have "holds (pop s) (ps @ q)" using pop_holds [of s p "ps @ q"] by simp
  then show ?case using Cons.IH [of "pop s"] by (simp add: funpow_swap1)
qed simp

lemma front_after_pops: "holds s (ps @ p # q) \<Longrightarrow> front ((pop ^^ length ps) s) = Some p"
  using front_holds [OF pops_holds [of s ps "p # q"]] by simp

end

definition cb_put :: "host \<Rightarrow> bytes \<Rightarrow> ChunkBuffer2 \<Rightarrow> ChunkBuffer2" where
  "cb_put h p buf = ChunkBuffer2_SubmitPacket h (cb_fill buf p) (int (length p))"

definition cb_front :: "ChunkBuffer2 \<Rightarrow> bytes option" where
  "cb_front buf = map_option (\<lambda>d. mem_read (cb_buffer buf) d (nat (cb_output_avail buf))) (cb_output_dest buf)"

interpretation chunk: packet_store "cb_rel h" cb_input_avail "cb_put h" cb_front "ChunkBuffer2_ConsumePacket h" for h
proof unfold_locales
  show "cb_rel h (cb_put h p s) (q @ [p])" if "cb_rel h s q" "int (length p) \<le> cb_input_avail s" for s q p
    using cb_rel_fill [OF that] that(2) unfolding cb_put_def by (intro cb_rel_submit) simp_all
  show "cb_front s = (case q of [] \<Rightarrow> None | p # _ \<Rightarrow> Some p)" if "cb_rel h s q" for s q
    using that cb_layout_first(2) [of h s]
    by (cases q) (auto simp: cb_rel_def cb_output_ok_def cb_front_def)
  show "cb_rel h (ChunkBuffer2_ConsumePacket h s) q" if "cb_rel h s (p # q)" for s p q
    using that by (rule cb_rel_consume)
qed

text \<open>
  C10: the circular buffer refines a queue. In a buffer that holds the packets \<open>q\<close>, the source's
  assertions hold, the output fields describe the first packet of \<open>q\<close>, submitting a packet that
  fits \<open>input_avail\<close> appends it, and consuming removes the first.
\<close>

theorem ChunkBuffer2_refines_queue:
  assumes "cb_rel h buf q"
  shows "ChunkBuffer2_assert_buffer buf \<and> ChunkBuffer2_assert_io h buf \<and>
    cb_front buf = (case q of [] \<Rightarrow> None | p # _ \<Rightarrow> Some p) \<and>
    (int (length p) \<le> cb_input_avail buf \<longrightarrow> cb_rel h (cb_put h p buf) (q @ [p])) \<and>
    (q \<noteq> [] \<longrightarrow> cb_rel h (ChunkBuffer2_ConsumePacket h buf) (tl q))"
  using cb_rel_asserts [OF assms] chunk.front_holds [OF assms] chunk.put_holds [OF assms]
    chunk.pop_holds [of h buf "hd q" "tl q"] assms by auto

theorem ChunkBuffer2_refines_queue_witness:
  "\<exists>buf. buf = ChunkBuffer2_Init BADVPN_LITTLE_ENDIAN (replicate 32 0) 8 4 \<and>
     cb_rel BADVPN_LITTLE_ENDIAN (cb_put BADVPN_LITTLE_ENDIAN [1, 2, 3] buf) [[1, 2, 3]]"
proof -
  let ?buf = "ChunkBuffer2_Init BADVPN_LITTLE_ENDIAN (replicate 32 0) 8 4"
  have b: "blocks_for 4 = 1" by (simp add: blocks_for_def bdivide_up_def)
  have "cb_rel BADVPN_LITTLE_ENDIAN ?buf []" by (rule cb_rel_Init) (simp_all add: b INT_MAX_def)
  moreover have "cb_input_avail ?buf = 28"
    by (simp add: ChunkBuffer2_Init_def ChunkBuffer2_update_input_def ChunkBuffer2_update_output_def
        ChunkBuffer2_end_def Let_def b int_of_size_id INT_MAX_def)
  ultimately show ?thesis
    using ChunkBuffer2_refines_queue [of BADVPN_LITTLE_ENDIAN ?buf "[]" "[1, 2, 3]"] by simp
qed

end
