(* ===== verification/PacketBuf.thy ===== *)
theory PacketBuf
  imports ChunkBuffer
begin

text \<open>
  The packet buffer \<open>src/flow/PacketBuffer.c\<close> between a packet source and a packet sink, on top of
  the circular buffer. The object's interfaces appear as what is outstanding on them: the
  address of a receive that was scheduled on the input and is not done, and the address and
  length of a send on the output that is not done. The step relation lets the source write to
  the memory it was given at any time, finish a packet, and lets the sink finish a packet.
\<close>

subsection \<open>The object and its handlers\<close>

record PacketBuffer =
  pb_buf :: ChunkBuffer2
  pb_input_mtu :: int
  pb_recv :: "nat option"
  pb_send :: "(nat \<times> int) option"

definition pb_output :: "ChunkBuffer2 \<Rightarrow> (nat \<times> int) option" where
  "pb_output buf = map_option (\<lambda>d. (d, cb_output_avail buf)) (cb_output_dest buf)"

definition PacketBuffer_input_handler_done :: "host \<Rightarrow> PacketBuffer \<Rightarrow> int \<Rightarrow> PacketBuffer" where
  "PacketBuffer_input_handler_done h pb in_len =
     (let was_empty = (cb_output_avail (pb_buf pb) < 0);
          pb = pb\<lparr>pb_buf := ChunkBuffer2_SubmitPacket h (pb_buf pb) in_len\<rparr>;
          pb = (if cb_input_avail (pb_buf pb) \<ge> pb_input_mtu pb
                then pb\<lparr>pb_recv := cb_input_dest (pb_buf pb)\<rparr> else pb)
      in if was_empty then pb\<lparr>pb_send := pb_output (pb_buf pb)\<rparr> else pb)"

definition PacketBuffer_output_handler_done :: "host \<Rightarrow> PacketBuffer \<Rightarrow> PacketBuffer" where
  "PacketBuffer_output_handler_done h pb =
     (let was_full = (cb_input_avail (pb_buf pb) < pb_input_mtu pb);
          pb = pb\<lparr>pb_buf := ChunkBuffer2_ConsumePacket h (pb_buf pb)\<rparr>;
          pb = (if was_full \<and> cb_input_avail (pb_buf pb) \<ge> pb_input_mtu pb
                then pb\<lparr>pb_recv := cb_input_dest (pb_buf pb)\<rparr> else pb)
      in if cb_output_avail (pb_buf pb) \<ge> 0 then pb\<lparr>pb_send := pb_output (pb_buf pb)\<rparr> else pb)"

text \<open>\<open>alloc\<close> is the allocation of the block array; it returns its uninitialised bytes.\<close>

definition PacketBuffer_Init :: "host \<Rightarrow> (int \<Rightarrow> bytes option) \<Rightarrow> int \<Rightarrow> int \<Rightarrow> PacketBuffer option" where
  "PacketBuffer_Init h alloc input_mtu num_packets =
     (let num_blocks = ChunkBuffer2_calc_blocks input_mtu num_packets in
      if num_blocks < 0 then None
      else case alloc num_blocks of None \<Rightarrow> None
      | Some buffer \<Rightarrow>
          let buf = ChunkBuffer2_Init h buffer num_blocks input_mtu in
          Some \<lparr>pb_buf = buf, pb_input_mtu = input_mtu, pb_recv = cb_input_dest buf, pb_send = None\<rparr>)"

subsection \<open>Runs\<close>

datatype pb_event = Write bytes | In bytes | Out bytes

inductive pb_step :: "host \<Rightarrow> PacketBuffer \<Rightarrow> pb_event \<Rightarrow> PacketBuffer \<Rightarrow> bool" for h where
  mem_write: "pb_recv pb = Some d \<Longrightarrow> int (length bs) \<le> pb_input_mtu pb \<Longrightarrow>
    pb_step h pb (Write bs) (pb\<lparr>pb_buf := (pb_buf pb)\<lparr>cb_buffer := mem_write (cb_buffer (pb_buf pb)) d bs\<rparr>\<rparr>)"
| input_done: "pb_recv pb = Some d \<Longrightarrow> int (length p) \<le> pb_input_mtu pb \<Longrightarrow>
    mem_read (cb_buffer (pb_buf pb)) d (length p) = p \<Longrightarrow>
    pb_step h pb (In p) (PacketBuffer_input_handler_done h (pb\<lparr>pb_recv := None\<rparr>) (int (length p)))"
| output_done: "pb_send pb = Some (d, n) \<Longrightarrow>
    pb_step h pb (Out (mem_read (cb_buffer (pb_buf pb)) d (nat n)))
      (PacketBuffer_output_handler_done h (pb\<lparr>pb_send := None\<rparr>))"

inductive_cases pb_writeE: "pb_step h pb (Write bs) pb'"
inductive_cases pb_inE: "pb_step h pb (In p) pb'"
inductive_cases pb_outE: "pb_step h pb (Out p) pb'"

inductive pb_run :: "host \<Rightarrow> PacketBuffer \<Rightarrow> pb_event list \<Rightarrow> PacketBuffer \<Rightarrow> bool" for h where
  refl: "pb_run h pb [] pb"
| step: "pb_run h pb es pb' \<Longrightarrow> pb_step h pb' e pb'' \<Longrightarrow> pb_run h pb (es @ [e]) pb''"

definition pb_ins :: "pb_event list \<Rightarrow> bytes list" where
  "pb_ins es = concat (map (\<lambda>e. case e of In p \<Rightarrow> [p] | _ \<Rightarrow> []) es)"

definition pb_outs :: "pb_event list \<Rightarrow> bytes list" where
  "pb_outs es = concat (map (\<lambda>e. case e of Out p \<Rightarrow> [p] | _ \<Rightarrow> []) es)"

subsection \<open>The invariant\<close>

definition pb_inv :: "host \<Rightarrow> int \<Rightarrow> PacketBuffer \<Rightarrow> bytes list \<Rightarrow> bool" where
  "pb_inv h num pb q \<longleftrightarrow> cb_rel h (pb_buf pb) q \<and> 0 \<le> pb_input_mtu pb \<and>
     cb_mtu (pb_buf pb) = blocks_for (pb_input_mtu pb) \<and>
     cb_size (pb_buf pb) = (1 + cb_mtu (pb_buf pb)) * (num + 1) \<and>
     list_all (\<lambda>p. int (length p) \<le> pb_input_mtu pb) q \<and>
     pb_recv pb = (if cb_input_avail (pb_buf pb) \<ge> pb_input_mtu pb then cb_input_dest (pb_buf pb) else None) \<and>
     pb_send pb = pb_output (pb_buf pb)"

lemma cb_fixed_fields [simp]:
  "cb_mtu (ChunkBuffer2_update_input b) = cb_mtu b" "cb_size (ChunkBuffer2_update_input b) = cb_size b"
  "cb_mtu (ChunkBuffer2_update_output h b) = cb_mtu b" "cb_size (ChunkBuffer2_update_output h b) = cb_size b"
  by (simp_all add: ChunkBuffer2_update_input_def ChunkBuffer2_update_output_def Let_def)

lemma cb_fixed_ops [simp]:
  "cb_mtu (ChunkBuffer2_SubmitPacket h b n) = cb_mtu b" "cb_size (ChunkBuffer2_SubmitPacket h b n) = cb_size b"
  "cb_mtu (ChunkBuffer2_ConsumePacket h b) = cb_mtu b" "cb_size (ChunkBuffer2_ConsumePacket h b) = cb_size b"
  by (simp_all add: ChunkBuffer2_SubmitPacket_def ChunkBuffer2_ConsumePacket_def Let_def)

lemma cb_avail_output: "cb_rel h b q \<Longrightarrow> cb_output_avail b \<ge> 0 \<longleftrightarrow> q \<noteq> []"
  "cb_rel h b q \<Longrightarrow> pb_output b = None \<longleftrightarrow> q = []"
  by (cases q; simp add: cb_rel_def cb_output_ok_def pb_output_def)+

lemma cb_output_submit:
  assumes "cb_rel h b (p # q)" "cb_rel h b' (p # q')" "cb_start b' = cb_start b"
  shows "pb_output b' = pb_output b"
  using assms by (simp add: cb_rel_def cb_output_ok_def pb_output_def)

lemma cb_start_submit [simp]: "cb_start (ChunkBuffer2_SubmitPacket h b n) = cb_start b"
  by (simp add: ChunkBuffer2_SubmitPacket_def ChunkBuffer2_update_input_def ChunkBuffer2_update_output_def Let_def)

lemma pb_inv_write:
  assumes inv: "pb_inv h num pb q" and step: "pb_step h pb (Write bs) pb'"
  shows "pb_inv h num pb' q"
proof -
  from step obtain d where d: "pb_recv pb = Some d" "int (length bs) \<le> pb_input_mtu pb"
    and pb': "pb' = pb\<lparr>pb_buf := (pb_buf pb)\<lparr>cb_buffer := mem_write (cb_buffer (pb_buf pb)) d bs\<rparr>\<rparr>"
    by (auto elim: pb_writeE)
  then have dest: "cb_input_dest (pb_buf pb) = Some d" and av: "int (length bs) \<le> cb_input_avail (pb_buf pb)"
    using inv by (auto simp: pb_inv_def split: if_splits)
  have rel: "cb_rel h (pb_buf pb) q" using inv by (simp add: pb_inv_def)
  have "cb_fill (pb_buf pb) bs = (pb_buf pb)\<lparr>cb_buffer := mem_write (cb_buffer (pb_buf pb)) d bs\<rparr>"
    by (simp add: cb_fill_def dest)
  then show ?thesis
    using cb_rel_fill(1) [OF rel av] inv by (simp add: pb' pb_inv_def pb_output_def)
qed

lemma pb_inv_in:
  assumes inv: "pb_inv h num pb q" and step: "pb_step h pb (In p) pb'"
  shows "pb_inv h num pb' (q @ [p])"
proof -
  from step obtain d where d: "pb_recv pb = Some d" "int (length p) \<le> pb_input_mtu pb"
    "mem_read (cb_buffer (pb_buf pb)) d (length p) = p"
    and pb': "pb' = PacketBuffer_input_handler_done h (pb\<lparr>pb_recv := None\<rparr>) (int (length p))"
    by (auto elim: pb_inE)
  let ?b = "ChunkBuffer2_SubmitPacket h (pb_buf pb) (int (length p))"
  have rel: "cb_rel h (pb_buf pb) q" using inv by (simp add: pb_inv_def)
  have dest: "cb_input_dest (pb_buf pb) = Some d" and av: "int (length p) \<le> cb_input_avail (pb_buf pb)"
    using inv d by (auto simp: pb_inv_def split: if_splits)
  have rel': "cb_rel h ?b (q @ [p])"
    by (rule cb_rel_submit [OF rel av]) (use cb_room(2) [OF rel av] dest d(3) in simp)
  have send: "pb_send pb' = pb_output ?b"
  proof (cases q)
    case Nil
    then show ?thesis using cb_avail_output(1) [OF rel] by (simp add: pb' PacketBuffer_input_handler_done_def Let_def)
  next
    case (Cons p0 q0)
    then have "pb_output ?b = pb_output (pb_buf pb)" using rel rel' by (auto intro: cb_output_submit)
    then show ?thesis using cb_avail_output(1) [OF rel] inv Cons
      by (simp add: pb' PacketBuffer_input_handler_done_def Let_def pb_inv_def)
  qed
  have "pb_buf pb' = ?b" "pb_input_mtu pb' = pb_input_mtu pb"
    "pb_recv pb' = (if cb_input_avail ?b \<ge> pb_input_mtu pb then cb_input_dest ?b else None)"
    by (simp_all add: pb' PacketBuffer_input_handler_done_def Let_def)
  then show ?thesis using inv rel' d(2) send by (simp add: pb_inv_def)
qed

lemma pb_inv_out:
  assumes inv: "pb_inv h num pb q" and step: "pb_step h pb (Out p) pb'"
  shows "\<exists>q'. q = p # q' \<and> pb_inv h num pb' q'"
proof -
  from step obtain d n where d: "pb_send pb = Some (d, n)" "p = mem_read (cb_buffer (pb_buf pb)) d (nat n)"
    and pb': "pb' = PacketBuffer_output_handler_done h (pb\<lparr>pb_send := None\<rparr>)"
    by (auto elim: pb_outE)
  let ?b = "ChunkBuffer2_ConsumePacket h (pb_buf pb)"
  have rel: "cb_rel h (pb_buf pb) q" and out: "pb_output (pb_buf pb) = Some (d, n)"
    using inv d by (auto simp: pb_inv_def)
  have "cb_front (pb_buf pb) = Some p" using out d(2) by (auto simp: pb_output_def cb_front_def)
  then obtain q' where q: "q = p # q'" using chunk.front_holds [OF rel] by (cases q) auto
  note rel = rel [unfolded q]
  have rel': "cb_rel h ?b q'" by (rule chunk.pop_holds [OF rel])
  have send: "pb_send pb' = pb_output ?b"
    using cb_avail_output [OF rel'] by (auto simp: pb' PacketBuffer_output_handler_done_def Let_def)
  have recv: "pb_recv pb' = (if cb_input_avail ?b \<ge> pb_input_mtu pb then cb_input_dest ?b else None)"
  proof (cases "cb_input_avail (pb_buf pb) < pb_input_mtu pb")
    case True
    then show ?thesis using inv by (simp add: pb' PacketBuffer_output_handler_done_def Let_def pb_inv_def)
  next
    case False
    then obtain a where a: "cb_input_dest (pb_buf pb) = Some a"
      using inv rel by (auto simp: pb_inv_def cb_rel_def cb_input_ok_def split: if_splits)
    from cb_input_dest_consume [OF rel a] False inv a show ?thesis
      by (auto simp: pb' PacketBuffer_output_handler_done_def Let_def pb_inv_def)
  qed
  have "pb_buf pb' = ?b" "pb_input_mtu pb' = pb_input_mtu pb"
    by (simp_all add: pb' PacketBuffer_output_handler_done_def Let_def)
  then show ?thesis using inv rel' recv send q by (simp add: pb_inv_def)
qed

lemma pb_inv_Init:
  assumes init: "PacketBuffer_Init h alloc mtu num = Some pb" and "0 \<le> mtu" "0 < num"
    and alloc: "\<And>n buffer. 0 \<le> n \<Longrightarrow> alloc n = Some buffer \<Longrightarrow> int (length buffer) = 4 * n"
    and fits: "4 * ChunkBuffer2_calc_blocks mtu num \<le> INT_MAX"
  shows "pb_inv h num pb []"
proof -
  let ?n = "ChunkBuffer2_calc_blocks mtu num"
  obtain buffer where "0 \<le> ?n" and buffer: "alloc ?n = Some buffer"
    and pb: "pb = \<lparr>pb_buf = ChunkBuffer2_Init h buffer ?n mtu, pb_input_mtu = mtu,
      pb_recv = cb_input_dest (ChunkBuffer2_Init h buffer ?n mtu), pb_send = None\<rparr>"
    using init by (auto simp: PacketBuffer_Init_def Let_def split: if_splits option.splits)
  have n: "?n = (1 + blocks_for mtu) * (num + 1)" using assms \<open>0 \<le> ?n\<close> by (intro ChunkBuffer2_calc_blocks_eq) auto
  have "(1 + blocks_for mtu) * 1 \<le> (1 + blocks_for mtu) * (num + 1)" using assms(3) by (intro mult_left_mono) auto
  then have lt: "blocks_for mtu < ?n" unfolding n by simp
  let ?b = "ChunkBuffer2_Init h buffer ?n mtu"
  have rel: "cb_rel h ?b []" by (rule cb_rel_Init) (use assms lt alloc [OF \<open>0 \<le> ?n\<close> buffer] in auto)
  have f: "cb_mtu ?b = blocks_for mtu" "cb_size ?b = ?n"
    by (simp_all add: ChunkBuffer2_Init_def Let_def)
  have "4 * cb_mtu ?b \<le> cb_input_avail ?b"
    using f n assms(3) by (intro cb_capacity [OF rel, of num]) simp_all
  then have "mtu \<le> cb_input_avail ?b" using blocks_for_ge [OF assms(2)] f by simp
  moreover have "pb_output ?b = None" using cb_avail_output(2) [OF rel] by simp
  ultimately show ?thesis using rel f n assms by (simp add: pb_inv_def pb)
qed

lemma pb_run_inv:
  assumes "pb_run h pb0 es pb" "pb_inv h num pb0 []"
  shows "\<exists>q. pb_ins es = pb_outs es @ q \<and> pb_inv h num pb q"
  using assms
proof (induction rule: pb_run.induct)
  case (refl pb)
  then show ?case by (auto simp: pb_ins_def pb_outs_def)
next
  case (step pb es pb' e pb'')
  then obtain q where q: "pb_ins es = pb_outs es @ q" "pb_inv h num pb' q" by blast
  show ?case
  proof (cases e)
    case (Write bs)
    then show ?thesis
      using q pb_inv_write [OF q(2)] step.hyps(2) by (auto simp: pb_ins_def pb_outs_def)
  next
    case (In p)
    then show ?thesis
      using q pb_inv_in [OF q(2)] step.hyps(2) by (auto simp: pb_ins_def pb_outs_def)
  next
    case (Out p)
    then obtain q' where "q = p # q'" "pb_inv h num pb'' q'"
      using pb_inv_out [OF q(2)] step.hyps(2) by blast
    then show ?thesis using q Out by (auto simp: pb_ins_def pb_outs_def)
  qed
qed

lemma pb_inv_live:
  assumes "pb_inv h num pb q"
  shows "int (length q) < num \<Longrightarrow> pb_recv pb \<noteq> None" "pb_send pb \<noteq> None \<longleftrightarrow> q \<noteq> []"
proof -
  have rel: "cb_rel h (pb_buf pb) q" using assms by (simp add: pb_inv_def)
  show "pb_send pb \<noteq> None \<longleftrightarrow> q \<noteq> []" using assms cb_avail_output(2) [OF rel] by (simp add: pb_inv_def)
  assume "int (length q) < num"
  moreover have "list_all (\<lambda>p. blocks_for (int (length p)) \<le> cb_mtu (pb_buf pb)) q"
    using assms blocks_for_ge [of "pb_input_mtu pb"]
    by (auto simp: pb_inv_def list_all_iff blocks_for_le_iff)
  ultimately have "4 * cb_mtu (pb_buf pb) \<le> cb_input_avail (pb_buf pb)"
    using cb_capacity [OF rel, of num] assms by (simp add: pb_inv_def)
  then have av: "pb_input_mtu pb \<le> cb_input_avail (pb_buf pb)"
    using blocks_for_ge [of "pb_input_mtu pb"] assms by (simp add: pb_inv_def)
  then have "cb_input_dest (pb_buf pb) \<noteq> None"
    using rel assms by (auto simp: cb_rel_def cb_input_ok_def pb_inv_def split: if_splits)
  then show "pb_recv pb \<noteq> None" using av assms by (simp add: pb_inv_def)
qed

text \<open>
  C8: the packet buffer is a first-in first-out queue of at least \<open>num_packets\<close> packets. Whatever
  the source writes to the memory it was given and however the two sides interleave, the packets
  read at the output are the packets that were finished at the input, in order and unchanged; the
  source can always write the next packet while fewer than \<open>num_packets\<close> are stored, and the sink
  is always offered a packet while one is stored.
\<close>

theorem packet_buffer_fifo:
  assumes "PacketBuffer_Init h alloc input_mtu num_packets = Some pb0" and "pb_run h pb0 es pb"
    and "0 \<le> input_mtu" and "0 < num_packets"
    and "\<And>n buffer. 0 \<le> n \<Longrightarrow> alloc n = Some buffer \<Longrightarrow> int (length buffer) = 4 * n"
    and "4 * ChunkBuffer2_calc_blocks input_mtu num_packets \<le> INT_MAX"
  shows "\<exists>q. pb_ins es = pb_outs es @ q \<and> (int (length q) < num_packets \<longrightarrow> pb_recv pb \<noteq> None) \<and>
    (q \<noteq> [] \<longleftrightarrow> pb_send pb \<noteq> None)"
proof -
  have "pb_inv h num_packets pb0 []" using assms by (intro pb_inv_Init) auto
  then obtain q where "pb_ins es = pb_outs es @ q" "pb_inv h num_packets pb q"
    using pb_run_inv [OF assms(2)] by blast
  then show ?thesis using pb_inv_live [of h num_packets pb q] by blast
qed

theorem packet_buffer_fifo_witness:
  "\<exists>pb0 pb q. PacketBuffer_Init BADVPN_LITTLE_ENDIAN (\<lambda>n. Some (replicate (nat (4 * n)) 0)) 8 2 = Some pb0 \<and>
     pb_run BADVPN_LITTLE_ENDIAN pb0 [In [0, 0]] pb \<and> pb_ins [In [0, 0]] = pb_outs [In [0, 0]] @ q \<and> pb_recv pb \<noteq> None"
proof -
  let ?alloc = "\<lambda>n. Some (replicate (nat (4 * n)) 0)"
  have n: "ChunkBuffer2_calc_blocks 8 2 = 9" by code_simp
  obtain pb0 where init: "PacketBuffer_Init BADVPN_LITTLE_ENDIAN ?alloc 8 2 = Some pb0"
    by (simp add: PacketBuffer_Init_def n Let_def)
  have d: "pb_recv pb0 = Some 4" "cb_buffer (pb_buf pb0) = replicate 36 0" "pb_input_mtu pb0 = 8"
    using init by (auto simp: PacketBuffer_Init_def n Let_def ChunkBuffer2_Init_def ChunkBuffer2_update_input_def
        ChunkBuffer2_update_output_def ChunkBuffer2_end_def blocks_for_def bdivide_up_def block_addr_def)
  have "mem_read (replicate 36 (0 :: u8)) 4 (length [0, 0 :: u8]) = [0, 0]"
    by (simp add: mem_read_def numeral_2_eq_2)
  then have "pb_step BADVPN_LITTLE_ENDIAN pb0 (In [0, 0])
      (PacketBuffer_input_handler_done BADVPN_LITTLE_ENDIAN (pb0\<lparr>pb_recv := None\<rparr>) (int (length [0, 0 :: u8])))"
    (is "pb_step _ _ _ ?pb") using d by (intro pb_step.input_done) simp_all
  then have run: "pb_run BADVPN_LITTLE_ENDIAN pb0 ([] @ [In [0, 0]]) ?pb" by (rule pb_run.step [OF pb_run.refl])
  have al: "int (length buffer) = 4 * n" if "0 \<le> n" "?alloc n = Some buffer" for n :: int and buffer :: bytes
    using that by auto
  obtain q where q: "pb_ins [In [0, 0]] = pb_outs [In [0, 0]] @ q" "int (length q) < 2 \<longrightarrow> pb_recv ?pb \<noteq> None"
    using packet_buffer_fifo [OF init run, OF _ _ al] n by (auto simp: INT_MAX_def)
  then have "length q = 1" by (auto simp: pb_ins_def pb_outs_def)
  then show ?thesis using init run q by auto
qed

end
