(* ===== verification/PacketProto.thy ===== *)
theory PacketProto
  imports Byteorder Misc_Arith
begin

text \<open>
  Packets over a byte stream: \<open>src/protocol/packetproto.h\<close>, \<open>src/flow/PacketProtoEncoder.c\<close> and
  \<open>src/flow/PacketProtoDecoder.c\<close>. The decoder's state holds its buffer and the operation that is
  outstanding, a receive into the buffer or a send out of it. Its step relation lets the stream
  deliver any nonempty part of what was asked for, and the sink finish a packet.
\<close>

subsection \<open>The encoder\<close>

definition PACKETPROTO_ENCLEN :: "nat \<Rightarrow> nat" where
  "PACKETPROTO_ENCLEN len = 2 + len"

definition PACKETPROTO_MAXPAYLOAD :: nat where
  "PACKETPROTO_MAXPAYLOAD = 65535"

record PacketProtoEncoder =
  output_packet :: "nat option"

text \<open>The receive on the input goes to the address behind the header.\<close>

definition PacketProtoEncoder_output_handler_recv :: "PacketProtoEncoder \<Rightarrow> nat \<Rightarrow> PacketProtoEncoder \<times> nat" where
  "PacketProtoEncoder_output_handler_recv enc data = (enc\<lparr>output_packet := Some data\<rparr>, data + 2)"

text \<open>Memory, object and the length of the finished output packet.\<close>

definition PacketProtoEncoder_input_handler_done ::
  "host \<Rightarrow> bytes \<Rightarrow> PacketProtoEncoder \<Rightarrow> nat \<Rightarrow> bytes \<times> PacketProtoEncoder \<times> nat" where
  "PacketProtoEncoder_input_handler_done h m enc in_len =
     (mem_write m (the (output_packet enc)) (host_store h 2 (htol16 h (of_nat in_len))),
      enc\<lparr>output_packet := None\<rparr>, PACKETPROTO_ENCLEN in_len)"

text \<open>The encoding of a packet in the memory of the receiver of the output.\<close>

definition pp_encode :: "bytes \<Rightarrow> bytes" where
  "pp_encode p = badvpn_write_le16 (of_nat (length p)) @ p"

subsection \<open>The decoder\<close>

datatype pp_io = Recv nat nat | Send nat nat

record PacketProtoDecoder =
  pp_buf :: bytes
  pp_buf_size :: nat
  pp_buf_start :: nat
  pp_buf_used :: nat
  pp_output_mtu :: nat
  pp_io :: pp_io

definition pp_receive :: "bool \<Rightarrow> PacketProtoDecoder \<Rightarrow> PacketProtoDecoder \<times> bool" where
  "pp_receive was_error enc =
     (let enc = (if was_error then enc\<lparr>pp_buf_start := 0, pp_buf_used := 0\<rparr>
                 else if pp_buf_start enc + pp_buf_used enc = pp_buf_size enc
                 then enc\<lparr>pp_buf := mem_write (pp_buf enc) 0 (mem_read (pp_buf enc) (pp_buf_start enc) (pp_buf_used enc)),
                          pp_buf_start := 0\<rparr>
                 else enc)
      in (enc\<lparr>pp_io := Recv (pp_buf_start enc + pp_buf_used enc)
                (pp_buf_size enc - (pp_buf_start enc + pp_buf_used enc))\<rparr>, was_error))"

text \<open>The second component says whether \<open>handler_error\<close> is called.\<close>

definition PacketProtoDecoder_process_data :: "host \<Rightarrow> PacketProtoDecoder \<Rightarrow> PacketProtoDecoder \<times> bool" where
  "PacketProtoDecoder_process_data h enc =
     (let data = pp_buf_start enc; left = pp_buf_used enc in
      if left < 2 then pp_receive False enc
      else let data_len = unat (ltoh16 h (host_load h (mem_read (pp_buf enc) data 2)));
               data = data + 2; left = left - 2 in
        if data_len > pp_output_mtu enc then pp_receive True enc
        else if left < data_len then pp_receive False enc
        else (enc\<lparr>pp_buf_start := pp_buf_start enc + (2 + data_len), pp_buf_used := pp_buf_used enc - (2 + data_len),
                  pp_io := Send data data_len\<rparr>, False))"

definition PacketProtoDecoder_input_handler_done :: "host \<Rightarrow> PacketProtoDecoder \<Rightarrow> nat \<Rightarrow> PacketProtoDecoder \<times> bool" where
  "PacketProtoDecoder_input_handler_done h enc data_len =
     PacketProtoDecoder_process_data h (enc\<lparr>pp_buf_used := pp_buf_used enc + data_len\<rparr>)"

definition PacketProtoDecoder_output_handler_done :: "host \<Rightarrow> PacketProtoDecoder \<Rightarrow> PacketProtoDecoder \<times> bool" where
  "PacketProtoDecoder_output_handler_done h enc = PacketProtoDecoder_process_data h enc"

text \<open>\<open>malloc_result\<close> is the allocated, uninitialised buffer.\<close>

definition PacketProtoDecoder_Init :: "nat \<Rightarrow> (nat \<Rightarrow> bytes option) \<Rightarrow> PacketProtoDecoder option" where
  "PacketProtoDecoder_Init sink_mtu malloc_result =
     (let output_mtu = min sink_mtu PACKETPROTO_MAXPAYLOAD; buf_size = PACKETPROTO_ENCLEN output_mtu in
      case malloc_result buf_size of None \<Rightarrow> None
      | Some buf \<Rightarrow> Some \<lparr>pp_buf = buf, pp_buf_size = buf_size, pp_buf_start = 0, pp_buf_used = 0,
          pp_output_mtu = output_mtu, pp_io = Recv 0 buf_size\<rparr>)"

definition PacketProtoDecoder_Reset :: "PacketProtoDecoder \<Rightarrow> PacketProtoDecoder" where
  "PacketProtoDecoder_Reset enc =
     enc\<lparr>pp_buf_start := pp_buf_start enc + pp_buf_used enc, pp_buf_used := 0\<rparr>"

subsection \<open>Runs of the decoder\<close>

datatype pp_event = Received bytes bool | Delivered bytes bool

inductive pp_step :: "host \<Rightarrow> PacketProtoDecoder \<Rightarrow> pp_event \<Rightarrow> PacketProtoDecoder \<Rightarrow> bool" for h where
  received: "pp_io enc = Recv a n \<Longrightarrow> bs \<noteq> [] \<Longrightarrow> length bs \<le> n \<Longrightarrow>
    PacketProtoDecoder_input_handler_done h (enc\<lparr>pp_buf := mem_write (pp_buf enc) a bs\<rparr>) (length bs) = (enc', err) \<Longrightarrow>
    pp_step h enc (Received bs err) enc'"
| delivered: "pp_io enc = Send a n \<Longrightarrow> p = mem_read (pp_buf enc) a n \<Longrightarrow>
    PacketProtoDecoder_output_handler_done h enc = (enc', err) \<Longrightarrow>
    pp_step h enc (Delivered p err) enc'"

inductive_cases pp_receivedE: "pp_step h enc (Received bs err) enc'"
inductive_cases pp_deliveredE: "pp_step h enc (Delivered p err) enc'"

inductive pp_run :: "host \<Rightarrow> PacketProtoDecoder \<Rightarrow> pp_event list \<Rightarrow> PacketProtoDecoder \<Rightarrow> bool" for h where
  start: "pp_run h enc [] enc"
| step: "pp_run h enc es enc' \<Longrightarrow> pp_step h enc' e enc'' \<Longrightarrow> pp_run h enc (es @ [e]) enc''"

definition pp_stream :: "pp_event list \<Rightarrow> bytes" where
  "pp_stream es = concat (map (\<lambda>e. case e of Received bs _ \<Rightarrow> bs | Delivered _ _ \<Rightarrow> []) es)"

definition pp_packets :: "pp_event list \<Rightarrow> bytes list" where
  "pp_packets es = concat (map (\<lambda>e. case e of Delivered p _ \<Rightarrow> [p] | Received _ _ \<Rightarrow> []) es)"

definition pp_error :: "pp_event \<Rightarrow> bool" where
  "pp_error e = (case e of Received _ err \<Rightarrow> err | Delivered _ err \<Rightarrow> err)"

subsection \<open>The stream of encoded packets\<close>

lemma length_pp_encode [simp, wire_len]: "length (pp_encode p) = 2 + length p"
  by (simp add: pp_encode_def)

text \<open>
  C27: when the payload of a packet lies behind the header space of the output packet, the
  encoder finishes the output packet with exactly the packet's encoding: the little-endian
  length and the payload.
\<close>

theorem packetproto_encoder_done:
  assumes "output_packet enc = Some a" "a + 2 + length p \<le> length m" "mem_read m (a + 2) (length p) = p"
  shows "case PacketProtoEncoder_input_handler_done h m enc (length p) of
    (m', enc', n) \<Rightarrow> mem_read m' a n = pp_encode p \<and> output_packet enc' = None"
proof -
  let ?w = "badvpn_write_le16 (of_nat (length p) :: u16)"
  have "mem_read (mem_write m a ?w) a (2 + length p) =
      mem_read (mem_write m a ?w) a 2 @ mem_read (mem_write m a ?w) (a + 2) (length p)"
    by (rule mem_read_append)
  also have "mem_read (mem_write m a ?w) a 2 = ?w"
    using mem_read_write_same [of a ?w m] assms(2) by simp
  also have "mem_read (mem_write m a ?w) (a + 2) (length p) = p"
    using mem_read_write_other [of a ?w m "a + 2" "length p"] assms by simp
  finally show ?thesis
    by (simp add: PacketProtoEncoder_input_handler_done_def PACKETPROTO_ENCLEN_def pp_encode_def
        host_store_htol16 assms(1))
qed

theorem packetproto_encoder_done_witness:
  "case PacketProtoEncoder_input_handler_done BADVPN_BIG_ENDIAN [0, 0, 5, 6, 9] \<lparr>output_packet = Some 0\<rparr> (Suc (Suc 0)) of
    (m', enc', n) \<Rightarrow> mem_read m' 0 n = pp_encode [5, 6] \<and> output_packet enc' = None"
  using packetproto_encoder_done [of "\<lparr>output_packet = Some 0\<rparr>" 0 "[5, 6]" "[0, 0, 5, 6, 9]" BADVPN_BIG_ENDIAN]
  by (simp add: mem_read_def)

lemma pp_encode_not_Nil [simp]: "pp_encode p \<noteq> []" "[] \<noteq> pp_encode p"
proof -
  have "length (pp_encode p) \<noteq> 0" by simp
  then show "pp_encode p \<noteq> []" "[] \<noteq> pp_encode p" by (auto simp del: length_pp_encode)
qed

text \<open>The encoding is a prefix code.\<close>

lemma pp_encode_prefix:
  assumes "pp_encode p @ w = pp_encode p' @ w'" "length p \<le> 65535" "length p' \<le> 65535"
  shows "p = p' \<and> w = w'"
proof -
  have "badvpn_write_le16 (of_nat (length p) :: u16) = badvpn_write_le16 (of_nat (length p'))"
    using assms(1) by (simp add: pp_encode_def)
  then have "(of_nat (length p) :: u16) = of_nat (length p')" by (metis le16.get_put)
  then have "unat (of_nat (length p) :: u16) = unat (of_nat (length p') :: u16)" by simp
  then have "length p = length p'" using assms(2,3) by (simp add: unsigned_of_nat take_bit_nat_eq_self)
  then show ?thesis using assms(1) by (simp add: pp_encode_def)
qed

lemma pp_stream_split:
  assumes "concat (map pp_encode xs) @ w = concat (map pp_encode ps)"
    and "list_all (\<lambda>p. length p \<le> 65535) xs" "list_all (\<lambda>p. length p \<le> 65535) ps"
  shows "\<exists>qs. ps = xs @ qs \<and> w = concat (map pp_encode qs)"
  using assms
proof (induction xs arbitrary: ps)
  case (Cons x xs)
  then obtain p ps' where ps: "ps = p # ps'" by (cases ps) auto
  have "pp_encode x @ (concat (map pp_encode xs) @ w) = pp_encode p @ concat (map pp_encode ps')"
    using Cons.prems(1) ps by simp
  then have "x = p \<and> concat (map pp_encode xs) @ w = concat (map pp_encode ps')"
    by (rule pp_encode_prefix) (use Cons.prems ps in simp_all)
  then show ?case using Cons.IH [of ps'] Cons.prems ps by auto
qed simp

subsection \<open>The decoder's invariant\<close>

definition pp_window :: "PacketProtoDecoder \<Rightarrow> bytes" where
  "pp_window enc = mem_read (pp_buf enc) (pp_buf_start enc) (pp_buf_used enc)"

definition pp_sending :: "PacketProtoDecoder \<Rightarrow> bytes list" where
  "pp_sending enc = (case pp_io enc of Send a n \<Rightarrow> [mem_read (pp_buf enc) a n] | Recv _ _ \<Rightarrow> [])"

definition pp_base :: "PacketProtoDecoder \<Rightarrow> bool" where
  "pp_base enc \<longleftrightarrow> length (pp_buf enc) = pp_buf_size enc \<and> pp_buf_size enc = 2 + pp_output_mtu enc \<and>
     pp_output_mtu enc \<le> 65535 \<and> pp_buf_start enc + pp_buf_used enc \<le> pp_buf_size enc"

text \<open>The window is the start of a packet that fits the buffer.\<close>

definition pp_partial :: "nat \<Rightarrow> bytes \<Rightarrow> bool" where
  "pp_partial mtu w \<longleftrightarrow> length w < 2 \<or>
     (unat (badvpn_read_le16 (take 2 w)) \<le> mtu \<and> length w < 2 + unat (badvpn_read_le16 (take 2 w)))"

definition pp_ok :: "PacketProtoDecoder \<Rightarrow> bool" where
  "pp_ok enc \<longleftrightarrow> pp_base enc \<and>
     (case pp_io enc of
        Recv a n \<Rightarrow> a = pp_buf_start enc + pp_buf_used enc \<and> a + n = pp_buf_size enc \<and> 0 < n \<and>
          pp_partial (pp_output_mtu enc) (pp_window enc)
      | Send a n \<Rightarrow> a + n = pp_buf_start enc \<and> n \<le> pp_output_mtu enc)"

lemma length_pp_window: "pp_base enc \<Longrightarrow> length (pp_window enc) = pp_buf_used enc"
  by (simp add: pp_base_def pp_window_def)

lemma pp_receive_wait:
  assumes base: "pp_base enc" and part: "pp_partial (pp_output_mtu enc) (pp_window enc)"
    and r: "pp_receive False enc = (enc', err)"
  shows "pp_ok enc' \<and> \<not> err \<and> pp_output_mtu enc' = pp_output_mtu enc \<and> pp_sending enc' = [] \<and> pp_window enc' = pp_window enc"
proof -
  have lt: "pp_buf_used enc < pp_buf_size enc"
    using part length_pp_window [OF base] base by (auto simp: pp_partial_def pp_base_def)
  show ?thesis
  proof (cases "pp_buf_start enc + pp_buf_used enc = pp_buf_size enc")
    case True
    let ?m = "mem_write (pp_buf enc) 0 (pp_window enc)"
    have "length ?m = length (pp_buf enc)" "mem_read ?m 0 (pp_buf_used enc) = pp_window enc"
      using lt base length_pp_window [OF base] mem_read_write_same [of 0 "pp_window enc" "pp_buf enc"]
      by (simp_all add: pp_base_def)
    moreover have "enc' = enc\<lparr>pp_buf := ?m, pp_buf_start := 0,
        pp_io := Recv (pp_buf_used enc) (pp_buf_size enc - pp_buf_used enc)\<rparr>" "\<not> err"
      using r True by (auto simp: pp_receive_def Let_def pp_window_def)
    ultimately have "pp_window enc' = pp_window enc" "pp_base enc'" "pp_output_mtu enc' = pp_output_mtu enc"
      "pp_io enc' = Recv (pp_buf_used enc') (pp_buf_size enc' - pp_buf_used enc')" "pp_buf_start enc' = 0" "\<not> err"
      "pp_buf_used enc' < pp_buf_size enc'"
      using lt base unfolding pp_window_def [of enc'] by (auto simp: pp_base_def)
    then show ?thesis using part by (simp add: pp_ok_def pp_sending_def)
  next
    case False
    then have "enc' = enc\<lparr>pp_io := Recv (pp_buf_start enc + pp_buf_used enc)
        (pp_buf_size enc - (pp_buf_start enc + pp_buf_used enc))\<rparr>" "\<not> err"
      using r by (auto simp: pp_receive_def Let_def)
    then show ?thesis
      using False base part by (simp add: pp_ok_def pp_base_def pp_sending_def pp_window_def)
  qed
qed

lemma pp_receive_error:
  assumes "pp_base enc" "pp_receive True enc = (enc', err)"
  shows "pp_ok enc' \<and> err \<and> pp_output_mtu enc' = pp_output_mtu enc \<and> pp_sending enc' = [] \<and> pp_window enc' = []"
  using assms by (auto simp: pp_receive_def Let_def pp_ok_def pp_base_def pp_sending_def pp_window_def
      mem_read_def pp_partial_def)

lemma pp_process_data:
  assumes base: "pp_base enc" and r: "PacketProtoDecoder_process_data h enc = (enc', err)"
  shows "pp_ok enc' \<and> pp_output_mtu enc' = pp_output_mtu enc \<and>
    (if err then 2 \<le> length (pp_window enc) \<and> pp_output_mtu enc < unat (badvpn_read_le16 (take 2 (pp_window enc)))
     else concat (map pp_encode (pp_sending enc')) @ pp_window enc' = pp_window enc)"
proof -
  let ?w = "pp_window enc" and ?s = "pp_buf_start enc" and ?u = "pp_buf_used enc"
  note len = length_pp_window [OF base]
  show ?thesis
  proof (cases "?u < 2")
    case True
    then have rec: "pp_receive False enc = (enc', err)" using r by (simp add: PacketProtoDecoder_process_data_def Let_def)
    have part: "pp_partial (pp_output_mtu enc) ?w" using True len by (simp add: pp_partial_def)
    from pp_receive_wait [OF base part rec] show ?thesis by simp
  next
    case False
    have hw: "mem_read (pp_buf enc) ?s 2 = take 2 ?w" using False by (simp add: pp_window_def mem_read_def min_def)
    define n where "n = unat (badvpn_read_le16 (take 2 ?w))"
    have hd: "unat (ltoh16 h (host_load h (mem_read (pp_buf enc) ?s 2))) = n"
      using False len unfolding hw n_def by (subst ltoh16_load) simp_all
    note pd = r [unfolded PacketProtoDecoder_process_data_def Let_def hd]
    consider (big) "n > pp_output_mtu enc" | (wait) "n \<le> pp_output_mtu enc" "?u - 2 < n"
      | (send) "n \<le> pp_output_mtu enc" "2 + n \<le> ?u" using False by linarith
    then show ?thesis
    proof cases
      case big
      then show ?thesis using pd False pp_receive_error [OF base, of enc' err] len by (simp add: n_def)
    next
      case wait
      then have part: "pp_partial (pp_output_mtu enc) ?w" using len by (auto simp: pp_partial_def n_def)
      have rec: "pp_receive False enc = (enc', err)" using pd False wait by simp
      from pp_receive_wait [OF base part rec] show ?thesis by simp
    next
      case send
      then have not: "\<not> ?u - 2 < n" by linarith
      from send have enc': "enc' = enc\<lparr>pp_buf_start := ?s + (2 + n), pp_buf_used := ?u - (2 + n), pp_io := Send (?s + 2) n\<rparr>"
        and err: "\<not> err" using pd False not by auto
      let ?p = "mem_read (pp_buf enc) (?s + 2) n"
      have lp: "length ?p = n" using send False base by (simp add: pp_base_def)
      have "2 + (n + (?u - (2 + n))) = ?u" using send by linarith
      then have "?w = mem_read (pp_buf enc) ?s (2 + (n + (?u - (2 + n))))" by (simp only: pp_window_def)
      also have "\<dots> = mem_read (pp_buf enc) ?s 2 @ ?p @ mem_read (pp_buf enc) (?s + (2 + n)) (?u - (2 + n))"
        unfolding mem_read_append [of _ _ 2] mem_read_append [of _ _ n] add.assoc ..
      finally have w: "?w = take 2 ?w @ ?p @ mem_read (pp_buf enc) (?s + (2 + n)) (?u - (2 + n))" by (simp only: hw)
      have "(of_nat n :: u16) = badvpn_read_le16 (take 2 ?w)" by (simp add: n_def)
      then have pe: "pp_encode ?p = take 2 ?w @ ?p"
        using le16.put_get [of "take 2 ?w"] len False unfolding pp_encode_def lp by simp
      have win: "pp_window enc' = mem_read (pp_buf enc) (?s + (2 + n)) (?u - (2 + n))"
        by (simp add: enc' pp_window_def)
      have "pp_encode ?p @ pp_window enc' = ?w" unfolding pe win append_assoc by (rule w [symmetric])
      moreover have "?s + (2 + n) + (?u - (2 + n)) = ?s + ?u" using send by linarith
      then have "pp_ok enc'" using send base by (simp add: enc' pp_ok_def pp_base_def del: add_2_eq_Suc)
      ultimately show ?thesis using err by (simp add: enc' pp_sending_def)
    qed
  qed
qed

lemma pp_base_of_ok: "pp_ok enc \<Longrightarrow> pp_base enc"
  by (simp add: pp_ok_def)

text \<open>One step keeps the invariant and accounts for every byte of the stream.\<close>

lemma pp_received_step:
  assumes ok: "pp_ok enc" and step: "pp_step h enc (Received bs err) enc'"
  shows "pp_ok enc' \<and> pp_output_mtu enc' = pp_output_mtu enc \<and> pp_sending enc = [] \<and>
    (if err then \<exists>w. pp_window enc @ bs = w \<and> 2 \<le> length w \<and> pp_output_mtu enc < unat (badvpn_read_le16 (take 2 w))
     else concat (map pp_encode (pp_sending enc')) @ pp_window enc' = pp_window enc @ bs)"
proof -
  from step obtain a n where io: "pp_io enc = Recv a n" and bs: "length bs \<le> n"
    and r: "PacketProtoDecoder_input_handler_done h (enc\<lparr>pp_buf := mem_write (pp_buf enc) a bs\<rparr>) (length bs) = (enc', err)"
    by (auto elim: pp_receivedE)
  let ?e = "enc\<lparr>pp_buf := mem_write (pp_buf enc) a bs, pp_buf_used := pp_buf_used enc + length bs\<rparr>"
  have a: "a = pp_buf_start enc + pp_buf_used enc" "a + n = pp_buf_size enc" using ok io by (simp_all add: pp_ok_def)
  have len: "a + length bs \<le> length (pp_buf enc)" using a bs ok by (simp add: pp_ok_def pp_base_def)
  have base: "pp_base ?e" using ok a bs len by (simp add: pp_ok_def pp_base_def)
  have "mem_read (mem_write (pp_buf enc) a bs) (pp_buf_start enc) (pp_buf_used enc) = pp_window enc"
    unfolding pp_window_def by (rule mem_read_write_other) (use a len in simp_all)
  then have w: "pp_window ?e = pp_window enc @ bs"
    using mem_read_write_same [OF len] a by (simp add: pp_window_def mem_read_append)
  have "PacketProtoDecoder_process_data h ?e = (enc', err)"
    using r by (simp add: PacketProtoDecoder_input_handler_done_def)
  from pp_process_data [OF base this] show ?thesis
    unfolding w using io by (simp add: pp_sending_def split: if_splits)
qed

lemma pp_delivered_step:
  assumes ok: "pp_ok enc" and step: "pp_step h enc (Delivered p err) enc'"
  shows "pp_ok enc' \<and> pp_output_mtu enc' = pp_output_mtu enc \<and> pp_sending enc = [p] \<and> length p \<le> pp_output_mtu enc \<and>
    (if err then 2 \<le> length (pp_window enc) \<and> pp_output_mtu enc < unat (badvpn_read_le16 (take 2 (pp_window enc)))
     else concat (map pp_encode (pp_sending enc')) @ pp_window enc' = pp_window enc)"
proof -
  from step obtain a n where io: "pp_io enc = Send a n" and p: "p = mem_read (pp_buf enc) a n"
    and r: "PacketProtoDecoder_process_data h enc = (enc', err)"
    by (auto elim: pp_deliveredE simp: PacketProtoDecoder_output_handler_done_def)
  have sd: "pp_sending enc = [p]" using io p by (simp add: pp_sending_def)
  have "length p \<le> pp_output_mtu enc"
    using ok io by (auto simp: p pp_ok_def mem_read_def min_le_iff_disj)
  then show ?thesis
    using pp_process_data [OF pp_base_of_ok [OF ok] r] sd by simp
qed

lemma pp_ok_Init:
  assumes "PacketProtoDecoder_Init sink_mtu malloc_result = Some enc"
    and "\<And>n buf. malloc_result n = Some buf \<Longrightarrow> length buf = n"
  shows "pp_ok enc \<and> pp_window enc = [] \<and> pp_sending enc = [] \<and> pp_output_mtu enc = min sink_mtu 65535"
  using assms
  by (auto simp: PacketProtoDecoder_Init_def Let_def PACKETPROTO_ENCLEN_def PACKETPROTO_MAXPAYLOAD_def
      pp_ok_def pp_base_def pp_window_def pp_sending_def pp_partial_def mem_read_def split: option.splits)

text \<open>
  Along a run without errors the received stream is the encoding of the delivered packets,
  of the one being sent, and of the window.
\<close>

lemma pp_run_account:
  assumes "pp_run h enc es enc'" "pp_ok enc" "pp_window enc = []" "pp_sending enc = []" "list_all (\<lambda>e. \<not> pp_error e) es"
  shows "pp_ok enc' \<and> pp_output_mtu enc' = pp_output_mtu enc \<and>
    list_all (\<lambda>p. length p \<le> pp_output_mtu enc) (pp_packets es) \<and>
    pp_stream es = concat (map pp_encode (pp_packets es @ pp_sending enc')) @ pp_window enc'"
  using assms
proof (induction rule: pp_run.induct)
  case (start enc)
  then show ?case by (simp add: pp_packets_def pp_stream_def)
next
  case (step enc es enc' e enc'')
  then have IH: "pp_ok enc'" "pp_output_mtu enc' = pp_output_mtu enc"
    "list_all (\<lambda>p. length p \<le> pp_output_mtu enc) (pp_packets es)"
    "pp_stream es = concat (map pp_encode (pp_packets es @ pp_sending enc')) @ pp_window enc'"
    and ne: "\<not> pp_error e" by auto
  show ?case
  proof (cases e)
    case (Received bs err)
    then show ?thesis
      using pp_received_step [OF IH(1)] step.hyps(2) IH ne
      by (auto simp: pp_packets_def pp_stream_def pp_error_def)
  next
    case (Delivered p err)
    then show ?thesis
      using pp_delivered_step [OF IH(1)] step.hyps(2) IH ne
      by (auto simp: pp_packets_def pp_stream_def pp_error_def)
  qed
qed

text \<open>A stream of encoded packets that fit never makes the decoder report an error.\<close>

lemma pp_header_of_packet:
  assumes "w @ rest = concat (map pp_encode qs)" "2 \<le> length w" "list_all (\<lambda>p. length p \<le> mtu) qs" "mtu \<le> 65535"
  shows "unat (badvpn_read_le16 (take 2 w)) \<le> mtu"
proof -
  obtain q qs' where qs: "qs = q # qs'" using assms(1,2) by (cases qs) auto
  have "take 2 w = take 2 (w @ rest)" using assms(2) by simp
  also have "\<dots> = badvpn_write_le16 (of_nat (length q))" unfolding assms(1) qs by (simp add: pp_encode_def)
  finally have "badvpn_read_le16 (take 2 w) = of_nat (length q)" by simp
  moreover have "length q \<le> mtu" using assms(3) qs by simp
  ultimately show ?thesis using assms(4) by (simp add: unsigned_of_nat take_bit_nat_eq_self)
qed

lemma list_all_le_mono: "list_all (\<lambda>p. length p \<le> m) ps \<Longrightarrow> m \<le> k \<Longrightarrow> list_all (\<lambda>p. length p \<le> k) ps"
  by (auto simp: list_all_iff)

lemma pp_run_no_error:
  assumes "pp_run h enc es enc'" "pp_ok enc" "pp_window enc = []" "pp_sending enc = []"
    and "pp_stream es @ rest = concat (map pp_encode ps)" "list_all (\<lambda>p. length p \<le> pp_output_mtu enc) ps"
  shows "list_all (\<lambda>e. \<not> pp_error e) es"
  using assms
proof (induction arbitrary: rest rule: pp_run.induct)
  case (step enc es enc' e enc'')
  define bs where "bs = (case e of Received bs _ \<Rightarrow> bs | Delivered _ _ \<Rightarrow> [])"
  have st: "pp_stream es @ (bs @ rest) = concat (map pp_encode ps)"
    using step.prems(4) by (simp add: pp_stream_def bs_def)
  have ne: "list_all (\<lambda>e. \<not> pp_error e) es" using step.IH [OF step.prems(1-3) st step.prems(5)] .
  note acc = pp_run_account [OF step.hyps(1) step.prems(1-3) ne]
  have mtu: "pp_output_mtu enc \<le> 65535" using step.prems(1) by (simp add: pp_ok_def pp_base_def)
  have sp: "\<exists>qs. ps = (pp_packets es @ pp_sending enc') @ qs \<and> pp_window enc' @ bs @ rest = concat (map pp_encode qs)"
    if "list_all (\<lambda>p. length p \<le> pp_output_mtu enc) (pp_sending enc')"
    using acc st that mtu step.prems(5)
    by (intro pp_stream_split) (auto intro: list_all_le_mono)
  have "\<not> pp_error e"
  proof (cases e)
    case (Received b err)
    note r = pp_received_step [of enc' h b err enc'']
    show ?thesis
    proof
      assume "pp_error e"
      then have w: "pp_sending enc' = []" "2 \<le> length (pp_window enc' @ b)"
        "pp_output_mtu enc < unat (badvpn_read_le16 (take 2 (pp_window enc' @ b)))"
        using r acc step.hyps(2) Received by (auto simp: pp_error_def)
      obtain qs where "ps = (pp_packets es @ pp_sending enc') @ qs" "(pp_window enc' @ b) @ rest = concat (map pp_encode qs)"
        using sp w(1) Received by (auto simp: bs_def)
      with pp_header_of_packet [OF this(2) w(2) _ mtu] w(3) step.prems(5) show False by simp
    qed
  next
    case (Delivered p err)
    note r = pp_delivered_step [of enc' h p err enc'']
    show ?thesis
    proof
      assume "pp_error e"
      then have w: "pp_sending enc' = [p]" "2 \<le> length (pp_window enc')" "length p \<le> pp_output_mtu enc"
        "pp_output_mtu enc < unat (badvpn_read_le16 (take 2 (pp_window enc')))"
        using r acc step.hyps(2) Delivered by (auto simp: pp_error_def)
      obtain qs where "ps = (pp_packets es @ pp_sending enc') @ qs" "pp_window enc' @ rest = concat (map pp_encode qs)"
        using sp w(1,3) Delivered by (auto simp: bs_def)
      with pp_header_of_packet [OF this(2) w(2) _ mtu] w(4) step.prems(5) show False by simp
    qed
  qed
  then show ?case using ne by simp
qed simp

text \<open>
  C6: the decoder recovers the packets of an encoded stream, however the stream is cut into
  pieces. If what was received so far is a prefix of the encoding of the packets \<open>ps\<close> (none
  longer than the output MTU), no error is reported and the delivered packets are a prefix of
  \<open>ps\<close>. When all of the stream was received and the decoder waits for more, it has delivered
  all of \<open>ps\<close>; whenever it waits it asks for at least one byte, inside its buffer.
\<close>

theorem packetproto_decode_stream:
  assumes "PacketProtoDecoder_Init sink_mtu malloc_result = Some enc0"
    and "\<And>n buf. malloc_result n = Some buf \<Longrightarrow> length buf = n"
    and "pp_run h enc0 es enc" and "pp_stream es @ rest = concat (map pp_encode ps)"
    and "list_all (\<lambda>p. length p \<le> min sink_mtu 65535) ps"
  shows "list_all (\<lambda>e. \<not> pp_error e) es \<and> (\<exists>qs. ps = pp_packets es @ qs \<and>
    (case pp_io enc of Recv a n \<Rightarrow> 0 < n \<and> a + n = length (pp_buf enc) \<and> (rest = [] \<longrightarrow> qs = [])
     | Send a n \<Rightarrow> a + n \<le> length (pp_buf enc) \<and> qs \<noteq> [] \<and> hd qs = mem_read (pp_buf enc) a n))"
proof -
  note init = pp_ok_Init [OF assms(1,2)]
  have ne: "list_all (\<lambda>e. \<not> pp_error e) es"
    using pp_run_no_error [OF assms(3) _ _ _ assms(4)] init assms(5) by simp
  note acc = pp_run_account [OF assms(3) _ _ _ ne]
  have ok: "pp_ok enc" and mtu: "pp_output_mtu enc = min sink_mtu 65535"
    and small: "list_all (\<lambda>p. length p \<le> 65535) (pp_packets es)"
    and st: "pp_stream es = concat (map pp_encode (pp_packets es @ pp_sending enc)) @ pp_window enc"
    using acc init by (auto simp: list_all_iff)
  have ps: "list_all (\<lambda>p. length p \<le> 65535) ps" using assms(5) by (auto simp: list_all_iff)
  have "list_all (\<lambda>p. length p \<le> 65535) (pp_sending enc)"
    using ok by (auto simp: pp_sending_def pp_ok_def pp_base_def mem_read_def min_le_iff_disj split: pp_io.splits)
  then obtain qs where qs: "ps = (pp_packets es @ pp_sending enc) @ qs" "pp_window enc @ rest = concat (map pp_encode qs)"
    using pp_stream_split [of "pp_packets es @ pp_sending enc" "pp_window enc @ rest" ps] st assms(4) small ps by auto
  show ?thesis
  proof (cases "pp_io enc")
    case (Recv a n)
    have "qs = []" if "rest = []"
    proof (rule ccontr)
      assume "qs \<noteq> []"
      then obtain q qs' where q: "qs = q # qs'" by (cases qs) auto
      then have w: "pp_window enc = pp_encode q @ concat (map pp_encode qs')" using qs(2) that by simp
      have "length q \<le> 65535" using ps qs(1) q by simp
      then have "unat (badvpn_read_le16 (take 2 (pp_window enc))) = length q"
        unfolding w by (simp add: pp_encode_def unsigned_of_nat take_bit_nat_eq_self)
      moreover have "pp_partial (pp_output_mtu enc) (pp_window enc)" using ok Recv by (simp add: pp_ok_def)
      ultimately show False using w by (simp add: pp_partial_def)
    qed
    then show ?thesis using ne qs ok Recv by (auto simp: pp_ok_def pp_base_def pp_sending_def)
  next
    case (Send a n)
    then show ?thesis using ne qs ok by (auto simp: pp_ok_def pp_base_def pp_sending_def)
  qed
qed

theorem packetproto_decode_stream_witness:
  "\<exists>enc0 enc err. PacketProtoDecoder_Init 4 (\<lambda>n. Some (replicate n 0)) = Some enc0 \<and>
     pp_run BADVPN_LITTLE_ENDIAN enc0 [Received (pp_encode [7]) err] enc \<and> \<not> err"
proof -
  let ?alloc = "\<lambda>n. Some (replicate n 0)"
  obtain enc0 where init: "PacketProtoDecoder_Init 4 ?alloc = Some enc0" and io: "pp_io enc0 = Recv 0 6"
    by (simp add: PacketProtoDecoder_Init_def Let_def PACKETPROTO_ENCLEN_def PACKETPROTO_MAXPAYLOAD_def)
  obtain enc err where r: "PacketProtoDecoder_input_handler_done BADVPN_LITTLE_ENDIAN
      (enc0\<lparr>pp_buf := mem_write (pp_buf enc0) 0 (pp_encode [7])\<rparr>) (length (pp_encode [7])) = (enc, err)"
    by fastforce
  have "pp_step BADVPN_LITTLE_ENDIAN enc0 (Received (pp_encode [7]) err) enc"
    using io by (rule pp_step.received) (use r in simp_all)
  then have run: "pp_run BADVPN_LITTLE_ENDIAN enc0 ([] @ [Received (pp_encode [7]) err]) enc"
    by (rule pp_run.step [OF pp_run.start])
  have "list_all (\<lambda>e. \<not> pp_error e) ([] @ [Received (pp_encode [7]) err])"
    using packetproto_decode_stream [OF init _ run, of "[]" "[[7]]"] by (auto simp: pp_stream_def)
  then show ?thesis using init run by (auto simp: pp_error_def)
qed

end
