(* ===== verification/Otp.thy ===== *)
theory Otp
  imports Byteorder Misc_Arith "HOL-Library.Multiset"
begin

text \<open>
  One-time passwords: \<open>src/security/OTPCalculator.c\<close>, \<open>OTPChecker.c\<close> and \<open>OTPGenerator.c\<close>. The
  block cipher (\<open>BEncryption_Encrypt\<close>, which wraps a cryptographic library) and the random
  source are parameters. The checker keeps one open-addressing hash table per seed; the
  development shows that such a table is a multiset of passwords that are still good.
\<close>

type_synonym otp = u32

subsection \<open>The calculator\<close>

text \<open>
  \<open>encrypt key zero iv\<close> is the ciphertext of one block and the updated IV. The data is filled
  block by block and read as an array of passwords.
\<close>

type_synonym cipher_fn = "bytes \<Rightarrow> bytes \<Rightarrow> bytes \<Rightarrow> bytes \<times> bytes"

record OTPCalculator =
  calc_num_otps :: nat
  calc_block_size :: nat
  calc_num_blocks :: nat

definition OTPCalculator_Init :: "bool \<Rightarrow> nat \<Rightarrow> nat \<Rightarrow> OTPCalculator option" where
  "OTPCalculator_Init alloc_ok num_otps block_size =
     (if int num_otps > SIZE_MAX div 4 then None
      else if \<not> alloc_ok then None
      else Some \<lparr>calc_num_otps = num_otps, calc_block_size = block_size,
             calc_num_blocks = bdivide_up (num_otps * 4) block_size\<rparr>)"

fun encrypt_blocks :: "cipher_fn \<Rightarrow> bytes \<Rightarrow> bytes \<Rightarrow> nat \<Rightarrow> bytes \<Rightarrow> bytes" where
  "encrypt_blocks encrypt key zero 0 iv = []"
| "encrypt_blocks encrypt key zero (Suc n) iv =
     (case encrypt key zero iv of (out, iv) \<Rightarrow> out @ encrypt_blocks encrypt key zero n iv)"

definition otps_of_data :: "host \<Rightarrow> bytes \<Rightarrow> otp list" where
  "otps_of_data h data = map (\<lambda>i. host_load h (mem_read data (4 * i) 4)) [0..<length data div 4]"

text \<open>
  The shuffle: the inner loop runs through one batch of 256 random integers, the outer loop
  fetches batches until every position was visited.
\<close>

function shuffle_batch :: "(nat \<Rightarrow> u16) \<Rightarrow> nat \<Rightarrow> nat \<Rightarrow> nat \<Rightarrow> otp list \<Rightarrow> nat \<times> otp list" where
  "shuffle_batch ints num_otps j i data =
     (if j < 256 \<and> i < num_otps then
        let newIndex = i + unat (ints j) mod (num_otps - i);
            temp = data ! i;
            data = data[i := data ! newIndex];
            data = data[newIndex := temp]
        in shuffle_batch ints num_otps (j + 1) (i + 1) data
      else (i, data))"
  by auto
termination by (relation "measure (\<lambda>(ints, n, j, i, data). 256 - j)") auto

declare shuffle_batch.simps [simp del]

lemma shuffle_batch_mono: "i \<le> fst (shuffle_batch ints n j i data)"
proof (induction ints n j i data rule: shuffle_batch.induct)
  case (1 ints n j i data)
  show ?case
  proof (cases "j < 256 \<and> i < n")
    case True
    then show ?thesis using 1 by (subst shuffle_batch.simps) (simp add: Let_def Suc_le_eq less_imp_le)
  next
    case False
    then show ?thesis by (subst shuffle_batch.simps) auto
  qed
qed

lemma shuffle_batch_progress: "i < n \<Longrightarrow> i < fst (shuffle_batch ints n 0 i data)"
  by (subst shuffle_batch.simps) (simp add: Let_def Suc_le_lessD [OF shuffle_batch_mono])

function shuffle_loop :: "(nat \<Rightarrow> nat \<Rightarrow> u16) \<Rightarrow> nat \<Rightarrow> nat \<Rightarrow> nat \<Rightarrow> otp list \<Rightarrow> otp list" where
  "shuffle_loop rnd num_otps batch i data =
     (if i < num_otps then
        shuffle_loop rnd num_otps (batch + 1) (fst (shuffle_batch (rnd batch) num_otps 0 i data))
          (snd (shuffle_batch (rnd batch) num_otps 0 i data))
      else data)"
  by auto
termination
  by (relation "measure (\<lambda>(rnd, n, batch, i, data). n - i)")
    (auto simp: split_beta intro: diff_less_mono2 shuffle_batch_progress)

declare shuffle_loop.simps [simp del]

definition OTPCalculator_Generate ::
  "cipher_fn \<Rightarrow> (nat \<Rightarrow> nat \<Rightarrow> u16) \<Rightarrow> host \<Rightarrow> OTPCalculator \<Rightarrow> bytes \<Rightarrow> bytes \<Rightarrow> bool \<Rightarrow> otp list" where
  "OTPCalculator_Generate encrypt rnd h calc key iv shuffle =
     (let iv_work = take (calc_block_size calc) iv;
          zero = replicate (calc_block_size calc) 0;
          data = otps_of_data h (encrypt_blocks encrypt key zero (calc_num_blocks calc) iv_work)
      in if shuffle then shuffle_loop rnd (calc_num_otps calc) 0 0 data else data)"

subsection \<open>The checker's tables\<close>

record OTPChecker_entry =
  entry_otp :: otp
  entry_avail :: int

record OTPChecker_table =
  table_id :: u16
  table_entries :: "OTPChecker_entry list"

definition OTPChecker_Table_Empty :: "nat \<Rightarrow> OTPChecker_table \<Rightarrow> OTPChecker_table" where
  "OTPChecker_Table_Empty num_entries t =
     t\<lparr>table_entries := foldl (\<lambda>es i. es[i := (es ! i)\<lparr>entry_avail := -1\<rparr>]) (table_entries t) [0..<num_entries]\<rparr>"

text \<open>The probing loops. \<open>None\<close> is the failure of the assertion behind the loop.\<close>

function add_otp_loop :: "nat \<Rightarrow> otp \<Rightarrow> nat \<Rightarrow> nat \<Rightarrow> OTPChecker_entry list \<Rightarrow> OTPChecker_entry list option" where
  "add_otp_loop num_entries otp start_index i es =
     (if i < num_entries then
        let index = nat (bmodadd_int (int start_index) (int i) (int num_entries)); entry = es ! index in
        if entry_avail entry < 0 then Some (es[index := \<lparr>entry_otp = otp, entry_avail = 1\<rparr>])
        else if entry_otp entry = otp then Some (es[index := entry\<lparr>entry_avail := entry_avail entry + 1\<rparr>])
        else add_otp_loop num_entries otp start_index (i + 1) es
      else None)"
  by auto
termination by (relation "measure (\<lambda>(n, otp, s, i, es). n - i)") auto

function check_otp_loop ::
  "nat \<Rightarrow> otp \<Rightarrow> nat \<Rightarrow> nat \<Rightarrow> OTPChecker_entry list \<Rightarrow> (OTPChecker_entry list \<times> bool) option" where
  "check_otp_loop num_entries otp start_index i es =
     (if i < num_entries then
        let index = nat (bmodadd_int (int start_index) (int i) (int num_entries)); entry = es ! index in
        if entry_avail entry < 0 then Some (es, False)
        else if entry_otp entry = otp then
          (if entry_avail entry > 0 then Some (es[index := entry\<lparr>entry_avail := entry_avail entry - 1\<rparr>], True)
           else Some (es, False))
        else check_otp_loop num_entries otp start_index (i + 1) es
      else None)"
  by auto
termination by (relation "measure (\<lambda>(n, otp, s, i, es). n - i)") auto

declare add_otp_loop.simps [simp del] check_otp_loop.simps [simp del]

definition OTPChecker_Table_AddOTP :: "nat \<Rightarrow> OTPChecker_table \<Rightarrow> otp \<Rightarrow> OTPChecker_table option" where
  "OTPChecker_Table_AddOTP num_entries t otp =
     map_option (\<lambda>es. t\<lparr>table_entries := es\<rparr>)
       (add_otp_loop num_entries otp (unat otp mod num_entries) 0 (table_entries t))"

definition OTPChecker_Table_CheckOTP :: "nat \<Rightarrow> OTPChecker_table \<Rightarrow> otp \<Rightarrow> (OTPChecker_table \<times> bool) option" where
  "OTPChecker_Table_CheckOTP num_entries t otp =
     map_option (\<lambda>(es, r). (t\<lparr>table_entries := es\<rparr>, r))
       (check_otp_loop num_entries otp (unat otp mod num_entries) 0 (table_entries t))"

fun add_otps :: "nat \<Rightarrow> otp list \<Rightarrow> OTPChecker_table \<Rightarrow> OTPChecker_table option" where
  "add_otps num_entries [] t = Some t"
| "add_otps num_entries (otp # otps) t =
     (case OTPChecker_Table_AddOTP num_entries t otp of None \<Rightarrow> None
      | Some t \<Rightarrow> add_otps num_entries otps t)"

definition OTPChecker_Table_Generate ::
  "nat \<Rightarrow> nat \<Rightarrow> otp list \<Rightarrow> OTPChecker_table \<Rightarrow> OTPChecker_table option" where
  "OTPChecker_Table_Generate num_otps num_entries otps t =
     add_otps num_entries (take num_otps otps) (OTPChecker_Table_Empty num_entries t)"

subsection \<open>The checker\<close>

record OTPChecker =
  chk_num_otps :: nat
  chk_num_entries :: nat
  chk_num_tables :: nat
  chk_tables_used :: nat
  chk_next_table :: nat
  chk_calc :: OTPCalculator
  chk_tables :: "OTPChecker_table list"
  chk_tw_have :: bool
  chk_tw_key :: bytes
  chk_tw_iv :: bytes

text \<open>
  \<open>calc_ok\<close>, \<open>tables_ok\<close> and \<open>entries_ok\<close> are the outcomes of the allocations, \<open>mem\<close> is what the
  new memory holds. \<open>None\<close> is failure.
\<close>

definition OTPChecker_Init ::
  "bool \<Rightarrow> bool \<Rightarrow> bool \<Rightarrow> OTPChecker_table list \<Rightarrow> nat \<Rightarrow> nat \<Rightarrow> nat \<Rightarrow> OTPChecker option" where
  "OTPChecker_Init calc_ok tables_ok entries_ok mem num_otps block_size num_tables =
     (if int num_otps > INT_MAX div 2 then None
      else let num_entries = 2 * num_otps in
        case OTPCalculator_Init calc_ok num_otps block_size of None \<Rightarrow> None
        | Some calc \<Rightarrow>
            if \<not> tables_ok then None
            else if \<not> entries_ok then None
            else Some \<lparr>chk_num_otps = num_otps, chk_num_entries = num_entries, chk_num_tables = num_tables,
              chk_tables_used = 0, chk_next_table = 0, chk_calc = calc,
              chk_tables = map (OTPChecker_Table_Empty num_entries) mem, chk_tw_have = False,
              chk_tw_key = [], chk_tw_iv = []\<rparr>)"

text \<open>The work function runs in another thread and only touches the table \<open>next_table\<close>.\<close>

definition OTPChecker_work_func :: "cipher_fn \<Rightarrow> (nat \<Rightarrow> nat \<Rightarrow> u16) \<Rightarrow> host \<Rightarrow> OTPChecker \<Rightarrow> OTPChecker option" where
  "OTPChecker_work_func encrypt rnd h mc =
     map_option (\<lambda>t. mc\<lparr>chk_tables := (chk_tables mc)[chk_next_table mc := t]\<rparr>)
       (OTPChecker_Table_Generate (chk_num_otps mc) (chk_num_entries mc)
          (OTPCalculator_Generate encrypt rnd h (chk_calc mc) (chk_tw_key mc) (chk_tw_iv mc) False)
          (chk_tables mc ! chk_next_table mc))"

definition OTPChecker_work_done_handler :: "OTPChecker \<Rightarrow> OTPChecker" where
  "OTPChecker_work_done_handler mc =
     (let mc = mc\<lparr>chk_tw_have := False\<rparr>;
          mc = mc\<lparr>chk_next_table := nat (bmodadd_int (int (chk_next_table mc)) 1 (int (chk_num_tables mc)))\<rparr>
      in if chk_tables_used mc < chk_num_tables mc then mc\<lparr>chk_tables_used := chk_tables_used mc + 1\<rparr> else mc)"

definition OTPChecker_AddSeed :: "OTPChecker \<Rightarrow> u16 \<Rightarrow> bytes \<Rightarrow> bytes \<Rightarrow> OTPChecker" where
  "OTPChecker_AddSeed mc seed_id key iv =
     mc\<lparr>chk_tables := (chk_tables mc)[chk_next_table mc := (chk_tables mc ! chk_next_table mc)\<lparr>table_id := seed_id\<rparr>],
        chk_tw_key := key, chk_tw_iv := iv, chk_tw_have := True\<rparr>"

definition OTPChecker_RemoveSeeds :: "OTPChecker \<Rightarrow> OTPChecker" where
  "OTPChecker_RemoveSeeds mc = mc\<lparr>chk_tw_have := False, chk_tables_used := 0, chk_next_table := 0\<rparr>"

function check_tables_loop :: "OTPChecker \<Rightarrow> u16 \<Rightarrow> otp \<Rightarrow> nat \<Rightarrow> (OTPChecker \<times> bool) option" where
  "check_tables_loop mc seed_id otp i =
     (if i \<le> chk_tables_used mc then
        let table_index = nat (bmodadd_int (int (chk_next_table mc)) (int (chk_num_tables mc) - int i) (int (chk_num_tables mc))) in
        if table_index = chk_next_table mc \<and> chk_tw_have mc then check_tables_loop mc seed_id otp (i + 1)
        else let table = chk_tables mc ! table_index in
          if table_id table = seed_id
          then map_option (\<lambda>(t, r). (mc\<lparr>chk_tables := (chk_tables mc)[table_index := t]\<rparr>, r))
                 (OTPChecker_Table_CheckOTP (chk_num_entries mc) table otp)
          else check_tables_loop mc seed_id otp (i + 1)
      else Some (mc, False))"
  by auto
termination by (relation "measure (\<lambda>(mc, s, otp, i). chk_tables_used mc + 1 - i)") auto

declare check_tables_loop.simps [simp del]

definition OTPChecker_CheckOTP :: "OTPChecker \<Rightarrow> u16 \<Rightarrow> otp \<Rightarrow> (OTPChecker \<times> bool) option" where
  "OTPChecker_CheckOTP mc seed_id otp = check_tables_loop mc seed_id otp 1"

subsection \<open>The generator\<close>

text \<open>
  The two calculators differ only in their buffers, which are \<open>gen_otps0\<close> and \<open>gen_otps1\<close>;
  \<open>gen_cur\<close> selects the second, and \<open>gen_calc\<close> holds the parameters both were made with.
\<close>

record OTPGenerator =
  gen_num_otps :: nat
  gen_position :: nat
  gen_cur :: bool
  gen_calc :: OTPCalculator
  gen_otps0 :: "otp list"
  gen_otps1 :: "otp list"
  gen_tw_have :: bool
  gen_tw_key :: bytes
  gen_tw_iv :: bytes

definition OTPGenerator_Init :: "bool \<Rightarrow> bool \<Rightarrow> nat \<Rightarrow> nat \<Rightarrow> OTPGenerator option" where
  "OTPGenerator_Init ok0 ok1 num_otps block_size =
     (case OTPCalculator_Init ok0 num_otps block_size of None \<Rightarrow> None
      | Some calc0 \<Rightarrow>
          (case OTPCalculator_Init ok1 num_otps block_size of None \<Rightarrow> None
           | Some calc1 \<Rightarrow>
               Some \<lparr>gen_num_otps = num_otps, gen_position = num_otps, gen_cur = False, gen_calc = calc0,
                 gen_otps0 = [], gen_otps1 = [], gen_tw_have = False, gen_tw_key = [], gen_tw_iv = []\<rparr>))"

definition OTPGenerator_work_func :: "cipher_fn \<Rightarrow> (nat \<Rightarrow> nat \<Rightarrow> u16) \<Rightarrow> host \<Rightarrow> OTPGenerator \<Rightarrow> OTPGenerator" where
  "OTPGenerator_work_func encrypt rnd h g =
     (let otps = OTPCalculator_Generate encrypt rnd h (gen_calc g) (gen_tw_key g) (gen_tw_iv g) True
      in if gen_cur g then g\<lparr>gen_otps0 := otps\<rparr> else g\<lparr>gen_otps1 := otps\<rparr>)"

definition OTPGenerator_work_done_handler :: "OTPGenerator \<Rightarrow> OTPGenerator" where
  "OTPGenerator_work_done_handler g = g\<lparr>gen_tw_have := False, gen_cur := \<not> gen_cur g, gen_position := 0\<rparr>"

definition OTPGenerator_SetSeed :: "OTPGenerator \<Rightarrow> bytes \<Rightarrow> bytes \<Rightarrow> OTPGenerator" where
  "OTPGenerator_SetSeed g key iv = g\<lparr>gen_tw_key := key, gen_tw_iv := iv, gen_tw_have := True\<rparr>"

definition OTPGenerator_GetPosition :: "OTPGenerator \<Rightarrow> nat" where
  "OTPGenerator_GetPosition g = gen_position g"

definition OTPGenerator_Reset :: "OTPGenerator \<Rightarrow> OTPGenerator" where
  "OTPGenerator_Reset g = g\<lparr>gen_tw_have := False, gen_position := gen_num_otps g\<rparr>"

definition OTPGenerator_GetOTP :: "OTPGenerator \<Rightarrow> OTPGenerator \<times> otp" where
  "OTPGenerator_GetOTP g =
     (g\<lparr>gen_position := gen_position g + 1\<rparr>, (if gen_cur g then gen_otps1 g else gen_otps0 g) ! gen_position g)"

subsection \<open>A table is a multiset\<close>

definition used :: "OTPChecker_entry list \<Rightarrow> nat \<Rightarrow> bool" where
  "used es i \<longleftrightarrow> 0 \<le> entry_avail (es ! i)"

definition probe :: "nat \<Rightarrow> otp \<Rightarrow> nat \<Rightarrow> nat" where
  "probe n otp k = (unat otp mod n + k) mod n"

definition stops :: "nat \<Rightarrow> OTPChecker_entry list \<Rightarrow> otp \<Rightarrow> nat \<Rightarrow> bool" where
  "stops n es otp k \<longleftrightarrow> \<not> used es (probe n otp k) \<or> entry_otp (es ! probe n otp k) = otp"

lemma probe_less: "0 < n \<Longrightarrow> probe n otp k < n"
  by (simp add: probe_def)

lemma bmodadd_probe: "k < n \<Longrightarrow> nat (bmodadd_int (int (unat otp mod n)) (int k) (int n)) = probe n otp k"
  by (simp add: bmodadd_int_mod probe_def nat_mod_distrib nat_add_distrib)

lemma probe_eq:
  assumes "k < n"
  shows "probe n otp k = (if unat otp mod n + k < n then unat otp mod n + k else unat otp mod n + k - n)"
proof -
  have "unat otp mod n < n" using assms by simp
  then have "unat otp mod n + k - n < n" using assms by linarith
  then show ?thesis by (simp add: probe_def le_mod_geq)
qed

lemma probe_inj:
  assumes "k < n" "k' < n" "probe n otp k = probe n otp k'" shows "k = k'"
proof -
  have "unat otp mod n < n" using assms by simp
  then show ?thesis using assms by (simp only: probe_eq split: if_splits)
qed

lemma probe_surj:
  assumes "i < n" obtains k where "k < n" "probe n otp k = i"
proof -
  have s: "unat otp mod n < n" using assms by simp
  show thesis
  proof (cases "unat otp mod n \<le> i")
    case True
    then show thesis using assms by (intro that [of "i - unat otp mod n"]) (auto simp: probe_eq)
  next
    case False
    then show thesis using assms s by (intro that [of "i + n - unat otp mod n"]) (auto simp: probe_eq)
  qed
qed

text \<open>
  The table invariant: no password has two entries, an entry is reached from its hash index over
  used entries only, and there is a free entry. Abstractly the table maps a password to the
  number of times it will still be accepted.
\<close>

definition table_inv :: "nat \<Rightarrow> OTPChecker_entry list \<Rightarrow> bool" where
  "table_inv n es \<longleftrightarrow> length es = n \<and>
     (\<forall>i<n. \<forall>j<n. used es i \<longrightarrow> used es j \<longrightarrow> entry_otp (es ! i) = entry_otp (es ! j) \<longrightarrow> i = j) \<and>
     (\<forall>k<n. \<forall>otp. used es (probe n otp k) \<longrightarrow> entry_otp (es ! probe n otp k) = otp \<longrightarrow> (\<forall>k'<k. used es (probe n otp k')))"

definition has_free :: "nat \<Rightarrow> OTPChecker_entry list \<Rightarrow> bool" where
  "has_free n es \<longleftrightarrow> (\<exists>i<n. \<not> used es i)"

definition table_count :: "nat \<Rightarrow> OTPChecker_entry list \<Rightarrow> otp \<Rightarrow> nat" where
  "table_count n es otp = (\<Sum>i<n. if used es i \<and> entry_otp (es ! i) = otp then nat (entry_avail (es ! i)) else 0)"

lemma first_stop:
  assumes "has_free n es"
  obtains k where "k < n" "stops n es otp k" "\<And>k'. k' < k \<Longrightarrow> \<not> stops n es otp k'"
proof -
  obtain i where i: "i < n" "\<not> used es i" using assms by (auto simp: has_free_def)
  obtain k0 where k0: "k0 < n" "probe n otp k0 = i" using i(1) by (rule probe_surj)
  then have "stops n es otp k0" using i by (simp add: stops_def)
  then have "stops n es otp (LEAST k. stops n es otp k)" "(LEAST k. stops n es otp k) \<le> k0"
    by (rule LeastI, rule Least_le)
  moreover have "\<not> stops n es otp k'" if "k' < (LEAST k. stops n es otp k)" for k'
    using that by (rule not_less_Least)
  ultimately show thesis using that k0(1) by (meson le_less_trans)
qed

lemma add_otp_loop_stop:
  assumes "i \<le> k" "k < n" "stops n es otp k" "\<And>k'. i \<le> k' \<Longrightarrow> k' < k \<Longrightarrow> \<not> stops n es otp k'"
  shows "add_otp_loop n otp (unat otp mod n) i es =
    Some (if used es (probe n otp k) then es[probe n otp k := (es ! probe n otp k)\<lparr>entry_avail := entry_avail (es ! probe n otp k) + 1\<rparr>]
          else es[probe n otp k := \<lparr>entry_otp = otp, entry_avail = 1\<rparr>])"
  using assms
proof (induction "k - i" arbitrary: i)
  case 0
  then have "i = k" by simp
  then show ?case using 0 by (subst add_otp_loop.simps) (auto simp: bmodadd_probe stops_def used_def Let_def)
next
  case (Suc d)
  then have lt: "i < k" by simp
  then have "\<not> stops n es otp i" using Suc.prems by simp
  moreover have "add_otp_loop n otp (unat otp mod n) (i + 1) es = Some (if used es (probe n otp k)
      then es[probe n otp k := (es ! probe n otp k)\<lparr>entry_avail := entry_avail (es ! probe n otp k) + 1\<rparr>]
      else es[probe n otp k := \<lparr>entry_otp = otp, entry_avail = 1\<rparr>])"
    by (rule Suc.hyps(1)) (use Suc.prems Suc.hyps(2) lt in auto)
  ultimately show ?case
    using lt Suc.prems(2) by (subst add_otp_loop.simps) (auto simp: bmodadd_probe stops_def used_def Let_def)
qed

lemma check_otp_loop_stop:
  assumes "i \<le> k" "k < n" "stops n es otp k" "\<And>k'. i \<le> k' \<Longrightarrow> k' < k \<Longrightarrow> \<not> stops n es otp k'"
  shows "check_otp_loop n otp (unat otp mod n) i es =
    Some (if used es (probe n otp k) \<and> entry_avail (es ! probe n otp k) > 0
          then (es[probe n otp k := (es ! probe n otp k)\<lparr>entry_avail := entry_avail (es ! probe n otp k) - 1\<rparr>], True)
          else (es, False))"
  using assms
proof (induction "k - i" arbitrary: i)
  case 0
  then have "i = k" by simp
  then show ?case using 0 by (subst check_otp_loop.simps) (auto simp: bmodadd_probe stops_def used_def Let_def)
next
  case (Suc d)
  then have lt: "i < k" by simp
  then have "\<not> stops n es otp i" using Suc.prems by simp
  moreover have "check_otp_loop n otp (unat otp mod n) (i + 1) es =
    Some (if used es (probe n otp k) \<and> entry_avail (es ! probe n otp k) > 0
          then (es[probe n otp k := (es ! probe n otp k)\<lparr>entry_avail := entry_avail (es ! probe n otp k) - 1\<rparr>], True)
          else (es, False))"
    by (rule Suc.hyps(1)) (use Suc.prems Suc.hyps(2) lt in auto)
  ultimately show ?case
    using lt Suc.prems(2) by (subst check_otp_loop.simps) (auto simp: bmodadd_probe stops_def used_def Let_def)
qed

text \<open>The loop stops at the entry of the password if there is one.\<close>

lemma stop_at_entry:
  assumes inv: "table_inv n es" and k: "k < n" "stops n es otp k" "\<And>k'. k' < k \<Longrightarrow> \<not> stops n es otp k'"
    and i: "i < n" "used es i" "entry_otp (es ! i) = otp"
  shows "probe n otp k = i"
proof -
  obtain k0 where k0: "k0 < n" "probe n otp k0 = i" using i(1) by (rule probe_surj)
  then have "stops n es otp k0" using i by (simp add: stops_def)
  then have le: "k \<le> k0" using k(3) by (metis not_le)
  have "used es (probe n otp k)"
  proof (cases "k = k0")
    case False
    then show ?thesis using le inv k0 i unfolding table_inv_def by (metis le_neq_implies_less)
  qed (use k0 i in simp)
  then have "entry_otp (es ! probe n otp k) = otp" using k(2) by (simp add: stops_def)
  then show ?thesis
    using inv i \<open>used es (probe n otp k)\<close> probe_less [of n otp k] k(1) unfolding table_inv_def by (metis gr_implies_not0 not_gr_zero)
qed

lemma table_count_present:
  assumes inv: "table_inv n es" and i: "i < n" "used es i" "entry_otp (es ! i) = otp"
  shows "table_count n es otp = nat (entry_avail (es ! i))"
proof -
  have "table_count n es otp = (\<Sum>j<n. if j = i then nat (entry_avail (es ! i)) else 0)"
    unfolding table_count_def using inv i by (intro sum.cong) (auto simp: table_inv_def)
  then show ?thesis using i(1) by simp
qed

lemma table_count_absent:
  "(\<And>i. i < n \<Longrightarrow> used es i \<Longrightarrow> entry_otp (es ! i) \<noteq> otp) \<Longrightarrow> table_count n es otp = 0"
  by (auto simp: table_count_def)

lemma used_upd: "i < length es \<Longrightarrow> used (es[i := e]) j \<longleftrightarrow> (if j = i then 0 \<le> entry_avail e else used es j)"
  by (auto simp: used_def)

text \<open>Changing the count of an entry.\<close>

lemma table_set_avail:
  assumes inv: "table_inv n es" and i: "i < n" "used es i" and a: "0 \<le> a"
  defines "es' \<equiv> es[i := (es ! i)\<lparr>entry_avail := a\<rparr>]"
  shows "table_inv n es'" "\<And>j. used es' j \<longleftrightarrow> used es j"
    "table_count n es' otp = (if otp = entry_otp (es ! i) then nat a else table_count n es otp)"
proof -
  have len: "length es = n" using inv by (simp add: table_inv_def)
  have u: "used es' j \<longleftrightarrow> used es j" for j using i a len by (simp add: es'_def used_upd)
  have o: "entry_otp (es' ! j) = entry_otp (es ! j)" if "j < n" for j
    using i len that by (cases "j = i") (simp_all add: es'_def)
  show inv': "table_inv n es'"
    using inv len unfolding table_inv_def u by (simp add: o probe_less es'_def cong: conj_cong) (metis o es'_def gr_implies_not0 not_gr_zero probe_less)
  show "used es' j \<longleftrightarrow> used es j" for j by (rule u)
  show "table_count n es' otp = (if otp = entry_otp (es ! i) then nat a else table_count n es otp)"
  proof (cases "otp = entry_otp (es ! i)")
    case True
    have "entry_avail (es' ! i) = a" using i len by (simp add: es'_def)
    then show ?thesis using table_count_present [OF inv' i(1)] u o i True by simp
  next
    case False
    have "(if used es' j \<and> entry_otp (es' ! j) = otp then nat (entry_avail (es' ! j)) else 0) =
        (if used es j \<and> entry_otp (es ! j) = otp then nat (entry_avail (es ! j)) else 0)" if "j < n" for j
      using that False u [of j] o [of j] len by (cases "j = i") (simp_all add: es'_def)
    then show ?thesis using False by (simp add: table_count_def)
  qed
qed

text \<open>Filling the free entry at which the probing for a new password stops.\<close>

lemma table_insert:
  assumes inv: "table_inv n es" and k: "k < n" "\<not> used es (probe n otp k)" "\<And>k'. k' < k \<Longrightarrow> used es (probe n otp k')"
    and new: "\<And>i. i < n \<Longrightarrow> used es i \<Longrightarrow> entry_otp (es ! i) \<noteq> otp"
  defines "es' \<equiv> es[probe n otp k := \<lparr>entry_otp = otp, entry_avail = 1\<rparr>]"
  shows "table_inv n es'" "\<And>j. j < n \<Longrightarrow> used es' j \<longleftrightarrow> used es j \<or> j = probe n otp k"
    "table_count n es' o' = (if o' = otp then 1 else table_count n es o')"
proof -
  let ?i = "probe n otp k"
  have i: "?i < n" using k(1) by (intro probe_less) simp
  have len: "length es = n" using inv by (simp add: table_inv_def)
  have u: "used es' j \<longleftrightarrow> used es j \<or> j = ?i" for j using i len by (simp add: es'_def used_upd)
  have e: "es' ! j = (if j = ?i then \<lparr>entry_otp = otp, entry_avail = 1\<rparr> else es ! j)" for j
    using i len by (simp add: es'_def)
  have "\<forall>i'<n. \<forall>j<n. used es' i' \<longrightarrow> used es' j \<longrightarrow> entry_otp (es' ! i') = entry_otp (es' ! j) \<longrightarrow> i' = j"
    using inv new k(2) unfolding table_inv_def u e by auto
  moreover have "used es' (probe n x k')" if "k1 < n" "used es' (probe n x k1)" "entry_otp (es' ! probe n x k1) = x" "k' < k1"
    for k1 x k'
  proof (cases "probe n x k1 = ?i")
    case True
    then have "x = otp" using that(3) e by simp
    then have "k1 = k" using True that(1) k(1) probe_inj by metis
    then show ?thesis using k(3) \<open>x = otp\<close> that(4) u by simp
  next
    case False
    then have "used es (probe n x k1)" "entry_otp (es ! probe n x k1) = x" using that u e by auto
    then show ?thesis using inv that(1,4) u unfolding table_inv_def by blast
  qed
  ultimately show inv': "table_inv n es'"
    using len unfolding table_inv_def by (simp add: es'_def)
  show "used es' j \<longleftrightarrow> used es j \<or> j = ?i" for j by (rule u)
  show "table_count n es' o' = (if o' = otp then 1 else table_count n es o')"
  proof (cases "o' = otp")
    case True
    then show ?thesis using table_count_present [OF inv' i] u e by simp
  next
    case False
    have "(if used es' j \<and> entry_otp (es' ! j) = o' then nat (entry_avail (es' ! j)) else 0) =
        (if used es j \<and> entry_otp (es ! j) = o' then nat (entry_avail (es ! j)) else 0)" for j
      using False k(2) by (simp add: u e)
    then show ?thesis using False by (simp add: table_count_def)
  qed
qed

definition n_used :: "nat \<Rightarrow> OTPChecker_entry list \<Rightarrow> nat" where
  "n_used n es = card {i. i < n \<and> used es i}"

lemma n_used_less: "n_used n es < n \<Longrightarrow> has_free n es"
proof (rule ccontr)
  assume lt: "n_used n es < n" and "\<not> has_free n es"
  then have "{i. i < n \<and> used es i} = {..<n}" by (auto simp: has_free_def)
  with lt show False by (simp add: n_used_def)
qed

lemma absent_or_entry:
  obtains (entry) i where "i < n" "used es i" "entry_otp (es ! i) = otp"
  | (absent) "\<And>i. i < n \<Longrightarrow> used es i \<Longrightarrow> entry_otp (es ! i) \<noteq> otp"
  by blast

lemma table_add:
  assumes inv: "table_inv n es" and room: "n_used n es < n"
  shows "\<exists>es'. add_otp_loop n otp (unat otp mod n) 0 es = Some es' \<and> table_inv n es' \<and> n_used n es' \<le> n_used n es + 1 \<and>
    (\<forall>o'. table_count n es' o' = table_count n es o' + (if o' = otp then 1 else 0))"
proof -
  obtain k where k: "k < n" "stops n es otp k" "\<And>k'. k' < k \<Longrightarrow> \<not> stops n es otp k'"
    using first_stop [OF n_used_less [OF room], of otp] by blast
  let ?i = "probe n otp k"
  have i: "?i < n" using k(1) by (intro probe_less) simp
  note loop = add_otp_loop_stop [OF le0 k(1,2) k(3)]
  show ?thesis
  proof (cases rule: absent_or_entry [of n es otp])
    case (entry j)
    then have j: "j = ?i" using stop_at_entry [OF inv k] by simp
    let ?a = "entry_avail (es ! ?i) + 1"
    have a: "0 \<le> ?a" and pos: "0 \<le> entry_avail (es ! ?i)" using entry j by (simp_all add: used_def)
    note upd = table_set_avail [OF inv i _ a]
    have "n_used n (es[?i := (es ! ?i)\<lparr>entry_avail := ?a\<rparr>]) = n_used n es"
      using upd(2) entry j by (simp add: n_used_def)
    moreover have "table_count n es otp = nat (entry_avail (es ! ?i))"
      using table_count_present [OF inv entry] j by simp
    ultimately show ?thesis
      using loop entry j upd pos by (auto simp: nat_add_distrib)
  next
    case absent
    then have free: "\<not> used es ?i" using k(2) i by (auto simp: stops_def)
    have before: "used es (probe n otp k')" if "k' < k" for k' using k(3) [OF that] by (simp add: stops_def)
    note ins = table_insert [OF inv k(1) free before absent]
    have "{j. j < n \<and> used (es[?i := \<lparr>entry_otp = otp, entry_avail = 1\<rparr>]) j} = insert ?i {j. j < n \<and> used es j}"
      using ins(2) i by auto
    then have "n_used n (es[?i := \<lparr>entry_otp = otp, entry_avail = 1\<rparr>]) \<le> n_used n es + 1"
      by (simp add: n_used_def card_insert_if)
    then show ?thesis using loop free ins(1,3) table_count_absent [OF absent] by auto
  qed
qed

lemma table_check:
  assumes inv: "table_inv n es" and room: "n_used n es < n"
  shows "\<exists>es'. check_otp_loop n otp (unat otp mod n) 0 es = Some (es', 0 < table_count n es otp) \<and> table_inv n es' \<and>
    n_used n es' = n_used n es \<and> (\<forall>o'. table_count n es' o' = table_count n es o' - (if o' = otp then 1 else 0))"
proof -
  obtain k where k: "k < n" "stops n es otp k" "\<And>k'. k' < k \<Longrightarrow> \<not> stops n es otp k'"
    using first_stop [OF n_used_less [OF room], of otp] by blast
  let ?i = "probe n otp k"
  have i: "?i < n" using k(1) by (intro probe_less) simp
  note loop = check_otp_loop_stop [OF le0 k(1,2) k(3)]
  show ?thesis
  proof (cases rule: absent_or_entry [of n es otp])
    case (entry j)
    then have j: "j = ?i" using stop_at_entry [OF inv k] by simp
    have c: "table_count n es otp = nat (entry_avail (es ! ?i))"
      using table_count_present [OF inv entry] j by simp
    show ?thesis
    proof (cases "entry_avail (es ! ?i) > 0")
      case True
      let ?a = "entry_avail (es ! ?i) - 1"
      have a: "0 \<le> ?a" using True by simp
      note upd = table_set_avail [OF inv i _ a]
      have "n_used n (es[?i := (es ! ?i)\<lparr>entry_avail := ?a\<rparr>]) = n_used n es"
        using upd(2) entry j by (simp add: n_used_def)
      then show ?thesis using loop entry j upd True c by (auto simp: nat_diff_distrib)
    next
      case False
      then show ?thesis using loop inv c by auto
    qed
  next
    case absent
    then have free: "\<not> used es ?i" using k(2) i by (auto simp: stops_def)
    then show ?thesis using loop inv table_count_absent [OF absent] by auto
  qed
qed

text \<open>Emptying a table and filling it with at most half as many passwords as it has entries.\<close>

definition table_good :: "nat \<Rightarrow> OTPChecker_table \<Rightarrow> bool" where
  "table_good n t \<longleftrightarrow> table_inv n (table_entries t) \<and> n_used n (table_entries t) < n"

definition table_otps :: "nat \<Rightarrow> OTPChecker_table \<Rightarrow> otp \<Rightarrow> nat" where
  "table_otps n t = table_count n (table_entries t)"

lemma Table_Empty_entries:
  "foldl (\<lambda>es i. es[i := (es ! i)\<lparr>entry_avail := -1\<rparr>]) es [0..<n] =
     map (\<lambda>i. if i < n then (es ! i)\<lparr>entry_avail := -1\<rparr> else es ! i) [0..<length es]"
proof (induction n)
  case (Suc n)
  then show ?case by (auto intro!: nth_equalityI) (auto simp: less_Suc_eq nth_list_update)
qed (simp add: map_nth)

lemma Table_Empty_unused:
  "length (table_entries t) = n \<Longrightarrow> i < n \<Longrightarrow> \<not> used (table_entries (OTPChecker_Table_Empty n t)) i"
  by (simp add: OTPChecker_Table_Empty_def Table_Empty_entries used_def)

lemma Table_Empty_spec:
  assumes "length (table_entries t) = n"
  shows "table_inv n (table_entries (OTPChecker_Table_Empty n t))" "n_used n (table_entries (OTPChecker_Table_Empty n t)) = 0"
    "table_count n (table_entries (OTPChecker_Table_Empty n t)) otp = 0"
    "length (table_entries (OTPChecker_Table_Empty n t)) = n" "table_id (OTPChecker_Table_Empty n t) = table_id t"
proof -
  have u: "\<not> used (table_entries (OTPChecker_Table_Empty n t)) (probe n x k)" if "k < n" for x k
    using assms that by (intro Table_Empty_unused probe_less) auto
  show len: "length (table_entries (OTPChecker_Table_Empty n t)) = n"
    using assms by (simp add: OTPChecker_Table_Empty_def Table_Empty_entries)
  show "table_inv n (table_entries (OTPChecker_Table_Empty n t))"
    using len u Table_Empty_unused [OF assms] by (auto simp: table_inv_def)
  show "n_used n (table_entries (OTPChecker_Table_Empty n t)) = 0"
    using Table_Empty_unused [OF assms] by (auto simp: n_used_def)
  show "table_count n (table_entries (OTPChecker_Table_Empty n t)) otp = 0"
    using Table_Empty_unused [OF assms] by (intro table_count_absent) auto
  show "table_id (OTPChecker_Table_Empty n t) = table_id t" by (simp add: OTPChecker_Table_Empty_def)
qed

lemma add_otps_spec:
  assumes "table_inv n (table_entries t)" "n_used n (table_entries t) + length otps \<le> m" "m < n"
  shows "\<exists>t'. add_otps n otps t = Some t' \<and> table_good n t' \<and> table_id t' = table_id t \<and>
    (\<forall>x. table_otps n t' x = table_otps n t x + count (mset otps) x)"
  using assms
proof (induction otps arbitrary: t)
  case Nil
  then show ?case by (simp add: table_good_def)
next
  case (Cons otp otps)
  obtain es where es: "add_otp_loop n otp (unat otp mod n) 0 (table_entries t) = Some es" "table_inv n es"
    "n_used n es \<le> n_used n (table_entries t) + 1"
    "\<And>x. table_count n es x = table_count n (table_entries t) x + (if x = otp then 1 else 0)"
    using table_add [OF Cons.prems(1), of otp] Cons.prems(2,3) by fastforce
  have "\<exists>t'. add_otps n otps (t\<lparr>table_entries := es\<rparr>) = Some t' \<and> table_good n t' \<and> table_id t' = table_id (t\<lparr>table_entries := es\<rparr>) \<and>
    (\<forall>x. table_otps n t' x = table_otps n (t\<lparr>table_entries := es\<rparr>) x + count (mset otps) x)"
    using es Cons.prems by (intro Cons.IH) simp_all
  then show ?case by (auto simp: OTPChecker_Table_AddOTP_def es table_otps_def)
qed

lemma Table_Generate_spec:
  assumes "length (table_entries t) = 2 * num_otps" "0 < num_otps"
  shows "\<exists>t'. OTPChecker_Table_Generate num_otps (2 * num_otps) otps t = Some t' \<and> table_good (2 * num_otps) t' \<and>
    table_id t' = table_id t \<and> table_otps (2 * num_otps) t' = count (mset (take num_otps otps))"
proof -
  have "\<exists>t'. add_otps (2 * num_otps) (take num_otps otps) (OTPChecker_Table_Empty (2 * num_otps) t) = Some t' \<and>
      table_good (2 * num_otps) t' \<and> table_id t' = table_id (OTPChecker_Table_Empty (2 * num_otps) t) \<and>
    (\<forall>x. table_otps (2 * num_otps) t' x = table_otps (2 * num_otps) (OTPChecker_Table_Empty (2 * num_otps) t) x +
      count (mset (take num_otps otps)) x)"
    using assms by (intro add_otps_spec [of _ _ _ num_otps]) (simp_all add: Table_Empty_spec)
  then show ?thesis
    using assms by (auto simp: OTPChecker_Table_Generate_def Table_Empty_spec table_otps_def fun_eq_iff)
qed

lemma Table_CheckOTP_spec:
  assumes "table_good n t"
  shows "\<exists>t'. OTPChecker_Table_CheckOTP n t otp = Some (t', 0 < table_otps n t otp) \<and> table_good n t' \<and> table_id t' = table_id t \<and>
    (\<forall>x. table_otps n t' x = table_otps n t x - (if x = otp then 1 else 0))"
  using table_check [of n "table_entries t" otp] assms
  by (auto simp: table_good_def OTPChecker_Table_CheckOTP_def table_otps_def)

subsection \<open>The shuffle is a permutation\<close>

lemma take_swap:
  assumes "i < n" "j < n" "n \<le> length xs"
  shows "mset (take n (xs[i := xs ! j, j := xs ! i])) = mset (take n xs)"
proof -
  have "take n (xs[i := xs ! j, j := xs ! i]) = (take n xs)[i := take n xs ! j, j := take n xs ! i]"
    using assms by (simp add: take_update_swap)
  also have "mset \<dots> = mset (take n xs)" using assms by (intro mset_swap) simp_all
  finally show ?thesis .
qed

lemma shuffle_batch_mset:
  "n \<le> length data \<Longrightarrow> mset (take n (snd (shuffle_batch ints n j i data))) = mset (take n data) \<and>
    length (snd (shuffle_batch ints n j i data)) = length data"
proof (induction ints n j i data rule: shuffle_batch.induct)
  case (1 ints n j i data)
  show ?case
  proof (cases "j < 256 \<and> i < n")
    case True
    let ?k = "i + unat (ints j) mod (n - i)"
    have k: "?k < n" using True mod_less_divisor [of "n - i" "unat (ints j)"] by linarith
    have "mset (take n (data[i := data ! ?k, ?k := data ! i])) = mset (take n data)"
      using True k 1(2) by (intro take_swap) simp_all
    then show ?thesis using 1(1) [OF True refl refl refl refl] 1(2) True
      by (subst (1 2) shuffle_batch.simps) (simp add: Let_def)
  next
    case False
    then show ?thesis by (subst (1 2) shuffle_batch.simps) auto
  qed
qed

lemma shuffle_loop_mset:
  "n \<le> length data \<Longrightarrow> mset (take n (shuffle_loop rnd n b i data)) = mset (take n data) \<and>
    length (shuffle_loop rnd n b i data) = length data"
proof (induction rnd n b i data rule: shuffle_loop.induct)
  case (1 rnd n b i data)
  show ?case
  proof (cases "i < n")
    case True
    then show ?thesis using 1(1) [OF True] 1(2) shuffle_batch_mset [OF 1(2), of "rnd b" 0 i]
      by (subst (1 2) shuffle_loop.simps) simp
  next
    case False
    then show ?thesis by (subst (1 2) shuffle_loop.simps) simp
  qed
qed

definition calc_ok :: "cipher_fn \<Rightarrow> OTPCalculator \<Rightarrow> bool" where
  "calc_ok encrypt c \<longleftrightarrow> 0 < calc_block_size c \<and> calc_num_blocks c = bdivide_up (calc_num_otps c * 4) (calc_block_size c) \<and>
     (\<forall>key zero iv. length (fst (encrypt key zero iv)) = calc_block_size c)"

lemma encrypt_blocks_length:
  "(\<And>key zero iv. length (fst (encrypt key zero iv)) = b) \<Longrightarrow> length (encrypt_blocks encrypt key zero n iv) = n * b"
proof (induction n arbitrary: iv)
  case (Suc n)
  then show ?case using Suc.prems [of key zero iv] by (simp add: split_beta)
qed simp

lemma otps_of_data_length: "length (otps_of_data h data) = length data div 4"
  by (simp add: otps_of_data_def)

lemma Generate_length:
  assumes "calc_ok encrypt c"
  shows "calc_num_otps c \<le> length (OTPCalculator_Generate encrypt rnd h c key iv False)"
proof -
  have "calc_num_otps c * 4 \<le> calc_block_size c * calc_num_blocks c"
    using assms bdivide_up_ge [of "calc_block_size c" "calc_num_otps c * 4"] by (simp add: calc_ok_def)
  moreover have "length (encrypt_blocks encrypt key zero (calc_num_blocks c) iv') = calc_num_blocks c * calc_block_size c" for zero iv'
    using assms by (intro encrypt_blocks_length) (simp add: calc_ok_def)
  ultimately show ?thesis
    by (simp add: OTPCalculator_Generate_def otps_of_data_length Let_def mult.commute)
qed

text \<open>Shuffled or not, and whatever the random source, the same passwords come out.\<close>

lemma Generate_mset:
  assumes "calc_ok encrypt c"
  shows "mset (take (calc_num_otps c) (OTPCalculator_Generate encrypt rnd h c key iv True)) =
    mset (take (calc_num_otps c) (OTPCalculator_Generate encrypt rnd' h c key iv False))"
    "length (OTPCalculator_Generate encrypt rnd h c key iv True) = length (OTPCalculator_Generate encrypt rnd' h c key iv False)"
  using shuffle_loop_mset [OF Generate_length [OF assms, of rnd h key iv], of rnd 0 0]
  by (simp_all add: OTPCalculator_Generate_def Let_def)

subsection \<open>The checker's invariant\<close>

definition chk_index :: "OTPChecker \<Rightarrow> nat \<Rightarrow> nat" where
  "chk_index mc i = (chk_next_table mc + (chk_num_tables mc - i)) mod chk_num_tables mc"

definition chk_inv :: "OTPChecker \<Rightarrow> bool" where
  "chk_inv mc \<longleftrightarrow> 0 < chk_num_otps mc \<and> chk_num_entries mc = 2 * chk_num_otps mc \<and>
     length (chk_tables mc) = chk_num_tables mc \<and> chk_next_table mc < chk_num_tables mc \<and> chk_tables_used mc \<le> chk_num_tables mc \<and>
     (\<forall>t\<in>set (chk_tables mc). length (table_entries t) = chk_num_entries mc) \<and>
     (\<forall>i. 0 < i \<longrightarrow> i \<le> chk_tables_used mc \<longrightarrow> chk_index mc i \<noteq> chk_next_table mc \<or> \<not> chk_tw_have mc \<longrightarrow>
        table_good (chk_num_entries mc) (chk_tables mc ! chk_index mc i))"

lemma chk_inv_good:
  "chk_inv mc \<Longrightarrow> 0 < i \<Longrightarrow> i \<le> chk_tables_used mc \<Longrightarrow> chk_index mc i \<noteq> chk_next_table mc \<or> \<not> chk_tw_have mc \<Longrightarrow>
   table_good (chk_num_entries mc) (chk_tables mc ! chk_index mc i)"
  unfolding chk_inv_def by blast

lemma chk_inv_cong:
  "chk_num_otps mc = chk_num_otps mc' \<Longrightarrow> chk_num_entries mc = chk_num_entries mc' \<Longrightarrow> chk_num_tables mc = chk_num_tables mc' \<Longrightarrow>
   chk_tables_used mc = chk_tables_used mc' \<Longrightarrow> chk_next_table mc = chk_next_table mc' \<Longrightarrow> chk_tables mc = chk_tables mc' \<Longrightarrow>
   chk_tw_have mc = chk_tw_have mc' \<Longrightarrow> chk_inv mc \<longleftrightarrow> chk_inv mc'"
  by (simp only: chk_inv_def chk_index_def)

lemma bmodadd_one: "n < m \<Longrightarrow> nat (bmodadd_int (int n) 1 (int m)) = (n + 1) mod m"
  by (cases "n + 1 = m") (auto simp: bmodadd_int_def)

lemma bmodadd_chk_index:
  "chk_inv mc \<Longrightarrow> 0 < i \<Longrightarrow> i \<le> chk_tables_used mc \<Longrightarrow>
   nat (bmodadd_int (int (chk_next_table mc)) (int (chk_num_tables mc) - int i) (int (chk_num_tables mc))) = chk_index mc i"
  by (simp add: chk_inv_def bmodadd_int_mod chk_index_def flip: of_nat_diff of_nat_add of_nat_mod)

lemma chk_index_less: "chk_inv mc \<Longrightarrow> chk_index mc i < chk_num_tables mc"
  by (simp add: chk_inv_def chk_index_def)

lemma check_tables_loop_step:
  assumes "chk_inv mc" "0 < i"
  shows "check_tables_loop mc seed_id otp i =
    (if i \<le> chk_tables_used mc then
       if chk_index mc i = chk_next_table mc \<and> chk_tw_have mc \<or> table_id (chk_tables mc ! chk_index mc i) \<noteq> seed_id
       then check_tables_loop mc seed_id otp (i + 1)
       else map_option (\<lambda>(t, r). (mc\<lparr>chk_tables := (chk_tables mc)[chk_index mc i := t]\<rparr>, r))
              (OTPChecker_Table_CheckOTP (chk_num_entries mc) (chk_tables mc ! chk_index mc i) otp)
     else Some (mc, False))"
  using assms by (subst check_tables_loop.simps) (auto simp: bmodadd_chk_index Let_def)

lemma check_tables_loop_spec:
  assumes "chk_inv mc" "0 < i"
  shows "check_tables_loop mc seed_id otp i = Some (mc, False) \<or>
    (\<exists>j t r. i \<le> j \<and> j \<le> chk_tables_used mc \<and> (chk_index mc j \<noteq> chk_next_table mc \<or> \<not> chk_tw_have mc) \<and>
      OTPChecker_Table_CheckOTP (chk_num_entries mc) (chk_tables mc ! chk_index mc j) otp = Some (t, r) \<and>
      table_good (chk_num_entries mc) t \<and>
      check_tables_loop mc seed_id otp i = Some (mc\<lparr>chk_tables := (chk_tables mc)[chk_index mc j := t]\<rparr>, r))"
  using assms(2)
proof (induction "chk_tables_used mc + 1 - i" arbitrary: i)
  case 0
  then show ?case by (subst check_tables_loop.simps) simp
next
  case (Suc d)
  then have le: "i \<le> chk_tables_used mc" by simp
  note step = check_tables_loop_step [OF assms(1) Suc.prems, of seed_id otp]
  show ?case
  proof (cases "chk_index mc i = chk_next_table mc \<and> chk_tw_have mc \<or> table_id (chk_tables mc ! chk_index mc i) \<noteq> seed_id")
    case True
    then have "check_tables_loop mc seed_id otp i = check_tables_loop mc seed_id otp (i + 1)" using step le by simp
    moreover have "d = chk_tables_used mc + 1 - (i + 1)" "0 < i + 1" using Suc.hyps(2) by simp_all
    ultimately show ?thesis using Suc.hyps(1) [of "i + 1"] by (metis Suc_eq_plus1 Suc_leD)
  next
    case False
    then have "table_good (chk_num_entries mc) (chk_tables mc ! chk_index mc i)"
      using assms(1) le Suc.prems by (intro chk_inv_good) auto
    then obtain t r where "OTPChecker_Table_CheckOTP (chk_num_entries mc) (chk_tables mc ! chk_index mc i) otp = Some (t, r)"
      "table_good (chk_num_entries mc) t" using Table_CheckOTP_spec by blast
    then show ?thesis using step le False by (intro disjI2 exI [of _ i] exI [of _ t] exI [of _ r]) auto
  qed
qed

lemma table_good_length: "table_good n t \<Longrightarrow> length (table_entries t) = n"
  by (simp add: table_good_def table_inv_def)

text \<open>Replacing a table by a good one, or the one that is being generated by anything.\<close>

lemma chk_inv_set_table:
  assumes "chk_inv mc" "length (table_entries t) = chk_num_entries mc"
    "table_good (chk_num_entries mc) t \<or> j = chk_next_table mc \<and> chk_tw_have mc"
  shows "chk_inv (mc\<lparr>chk_tables := (chk_tables mc)[j := t]\<rparr>)"
proof -
  let ?mc = "mc\<lparr>chk_tables := (chk_tables mc)[j := t]\<rparr>"
  have idx: "chk_index ?mc i = chk_index mc i" for i by (simp add: chk_index_def)
  have "\<forall>u\<in>set ((chk_tables mc)[j := t]). length (table_entries u) = chk_num_entries mc"
    using assms(1,2) set_update_subset_insert [of "chk_tables mc" j t] by (auto simp: chk_inv_def)
  moreover have "table_good (chk_num_entries mc) ((chk_tables mc)[j := t] ! chk_index mc i)"
    if "0 < i" "i \<le> chk_tables_used mc" "chk_index mc i \<noteq> chk_next_table mc \<or> \<not> chk_tw_have mc" for i
    using that assms chk_index_less [OF assms(1), of i] by (cases "chk_index mc i = j") (auto simp: chk_inv_def)
  ultimately show ?thesis using assms(1) unfolding chk_inv_def idx by simp
qed

inductive chk_step :: "cipher_fn \<Rightarrow> OTPChecker \<Rightarrow> OTPChecker \<Rightarrow> bool" for encrypt where
  add_seed: "chk_step encrypt mc (OTPChecker_AddSeed mc seed_id key iv)"
| worker: "chk_tw_have mc \<Longrightarrow> length es = chk_num_entries mc \<Longrightarrow>
    chk_step encrypt mc (mc\<lparr>chk_tables := (chk_tables mc)[chk_next_table mc := (chk_tables mc ! chk_next_table mc)\<lparr>table_entries := es\<rparr>]\<rparr>)"
| work_done: "chk_tw_have mc \<Longrightarrow> OTPChecker_work_func encrypt rnd h mc = Some mc' \<Longrightarrow>
    chk_step encrypt mc (OTPChecker_work_done_handler mc')"
| remove_seeds: "chk_step encrypt mc (OTPChecker_RemoveSeeds mc)"
| check: "OTPChecker_CheckOTP mc seed_id otp = Some (mc', r) \<Longrightarrow> chk_step encrypt mc mc'"

lemma chk_inv_AddSeed:
  assumes "chk_inv mc" shows "chk_inv (OTPChecker_AddSeed mc seed_id key iv)"
proof -
  have "chk_index (mc\<lparr>chk_tw_have := True\<rparr>) i = chk_index mc i" for i by (simp add: chk_index_def)
  then have tw: "chk_inv (mc\<lparr>chk_tw_have := True\<rparr>)" using assms by (auto simp: chk_inv_def)
  have "chk_tables mc ! chk_next_table mc \<in> set (chk_tables mc)" using assms by (simp add: chk_inv_def)
  then have "length (table_entries (chk_tables mc ! chk_next_table mc)) = chk_num_entries mc"
    using assms by (simp add: chk_inv_def)
  then have "chk_inv (mc\<lparr>chk_tw_have := True, chk_tables := (chk_tables mc)[chk_next_table mc := (chk_tables mc ! chk_next_table mc)\<lparr>table_id := seed_id\<rparr>]\<rparr>)"
    using chk_inv_set_table [OF tw, of "(chk_tables mc ! chk_next_table mc)\<lparr>table_id := seed_id\<rparr>" "chk_next_table mc"] by simp
  then show ?thesis by (rule chk_inv_cong [THEN iffD1, rotated -1]) (simp_all add: OTPChecker_AddSeed_def)
qed

lemma work_func_spec:
  assumes "chk_inv mc"
  shows "\<exists>t. OTPChecker_work_func encrypt rnd h mc = Some (mc\<lparr>chk_tables := (chk_tables mc)[chk_next_table mc := t]\<rparr>) \<and>
    table_good (chk_num_entries mc) t \<and> table_id t = table_id (chk_tables mc ! chk_next_table mc) \<and>
    table_otps (chk_num_entries mc) t = count (mset (take (chk_num_otps mc)
      (OTPCalculator_Generate encrypt rnd h (chk_calc mc) (chk_tw_key mc) (chk_tw_iv mc) False)))"
  using Table_Generate_spec [of "chk_tables mc ! chk_next_table mc" "chk_num_otps mc"] assms
  by (fastforce simp: chk_inv_def OTPChecker_work_func_def)

lemma chk_index_Suc:
  assumes "chk_next_table mc < chk_num_tables mc" "i < chk_num_tables mc" "chk_num_tables mc' = chk_num_tables mc"
    "chk_next_table mc' = (chk_next_table mc + 1) mod chk_num_tables mc"
  shows "chk_index mc' (i + 1) = chk_index mc i"
proof -
  have "chk_index mc' (i + 1) = (chk_next_table mc + 1 + (chk_num_tables mc - (i + 1))) mod chk_num_tables mc"
    by (simp only: chk_index_def assms mod_add_left_eq)
  also have "\<dots> = chk_index mc i" using assms(2) by (simp add: chk_index_def Suc_diff_Suc)
  finally show ?thesis .
qed

lemma chk_index_zero: "chk_next_table mc < chk_num_tables mc \<Longrightarrow> chk_index mc 0 = chk_next_table mc"
  by (simp add: chk_index_def)

lemma chk_index_next:
  assumes "0 < i" "i < chk_num_tables mc" "chk_next_table mc < chk_num_tables mc"
  shows "chk_index mc i \<noteq> chk_next_table mc"
  using assms by (cases "i \<le> chk_next_table mc") (auto simp: chk_index_def le_mod_geq)

lemma chk_inv_work_done:
  assumes inv: "chk_inv mc" and good: "table_good (chk_num_entries mc) (chk_tables mc ! chk_next_table mc)"
  shows "chk_inv (OTPChecker_work_done_handler mc)"
    "0 < chk_tables_used (OTPChecker_work_done_handler mc)"
    "chk_index (OTPChecker_work_done_handler mc) 1 = chk_next_table mc"
proof -
  let ?mc = "OTPChecker_work_done_handler mc"
  have nt: "chk_next_table mc < chk_num_tables mc" "chk_tables_used mc \<le> chk_num_tables mc" using inv by (simp_all add: chk_inv_def)
  have nx: "chk_next_table ?mc = (chk_next_table mc + 1) mod chk_num_tables mc"
    using bmodadd_one [OF nt(1)] by (simp add: OTPChecker_work_done_handler_def Let_def)
  have same: "chk_num_tables ?mc = chk_num_tables mc" "chk_tables ?mc = chk_tables mc" "chk_num_entries ?mc = chk_num_entries mc"
    "chk_num_otps ?mc = chk_num_otps mc" "\<not> chk_tw_have ?mc"
    "chk_tables_used ?mc = (if chk_tables_used mc < chk_num_tables mc then chk_tables_used mc + 1 else chk_tables_used mc)"
    by (simp_all add: OTPChecker_work_done_handler_def Let_def)
  have idx: "chk_index ?mc (i + 1) = chk_index mc i" if "i < chk_num_tables mc" for i
    using nt(1) that same(1) nx by (rule chk_index_Suc)
  have "table_good (chk_num_entries mc) (chk_tables mc ! chk_index ?mc i)" if "0 < i" "i \<le> chk_tables_used ?mc" for i
  proof (cases "i = 1")
    case True
    then show ?thesis using good idx [of 0] nt by (simp add: chk_index_zero)
  next
    case False
    then have i: "0 < i - 1" "i - 1 \<le> chk_tables_used mc" "i - 1 < chk_num_tables mc" "i - 1 + 1 = i" using that same(6) nt(2) by (auto split: if_splits)
    then show ?thesis using chk_inv_good [OF inv i(1,2)] chk_index_next [OF i(1,3) nt(1)] idx [OF i(3)] by simp
  qed
  then show "chk_inv ?mc" using inv same nx unfolding chk_inv_def by auto
  show "0 < chk_tables_used ?mc" using same(6) nt by auto
  show "chk_index ?mc 1 = chk_next_table mc" using idx [of 0] nt(1) by (simp add: chk_index_zero)
qed

lemma chk_inv_RemoveSeeds: "chk_inv mc \<Longrightarrow> chk_inv (OTPChecker_RemoveSeeds mc)"
  by (auto simp: chk_inv_def OTPChecker_RemoveSeeds_def)

lemma CheckOTP_spec:
  assumes inv: "chk_inv mc"
  shows "\<exists>mc' r. OTPChecker_CheckOTP mc seed_id otp = Some (mc', r) \<and> chk_inv mc'"
proof (cases "check_tables_loop mc seed_id otp 1 = Some (mc, False)")
  case True
  then show ?thesis using inv by (intro exI [of _ mc] exI [of _ False]) (simp add: OTPChecker_CheckOTP_def)
next
  case False
  then obtain j t r where good: "table_good (chk_num_entries mc) t"
    and eq: "check_tables_loop mc seed_id otp 1 = Some (mc\<lparr>chk_tables := (chk_tables mc)[chk_index mc j := t]\<rparr>, r)"
    using check_tables_loop_spec [OF inv zero_less_one, of seed_id otp] by auto
  have "chk_inv (mc\<lparr>chk_tables := (chk_tables mc)[chk_index mc j := t]\<rparr>)"
    using inv table_good_length [OF good] good by (intro chk_inv_set_table) auto
  then show ?thesis using eq by (simp add: OTPChecker_CheckOTP_def)
qed

lemma chk_inv_step:
  assumes "chk_step encrypt mc mc'" "chk_inv mc" shows "chk_inv mc'"
  using assms
proof (induction rule: chk_step.induct)
  case (add_seed mc seed_id key iv)
  then show ?case by (rule chk_inv_AddSeed)
next
  case (worker mc es)
  then show ?case by (intro chk_inv_set_table) simp_all
next
  case (work_done mc rnd h mc')
  obtain t where t: "mc' = mc\<lparr>chk_tables := (chk_tables mc)[chk_next_table mc := t]\<rparr>" "table_good (chk_num_entries mc) t"
    using work_func_spec [OF work_done(3), of encrypt rnd h] work_done(2) by auto
  then have "chk_inv mc'" using work_done(3) chk_inv_set_table table_good_length by blast
  moreover have "chk_tables mc' ! chk_next_table mc' = t" using t work_done(3) by (simp add: chk_inv_def)
  ultimately show ?case using t by (intro chk_inv_work_done) simp_all
next
  case (remove_seeds mc)
  then show ?case by (rule chk_inv_RemoveSeeds)
next
  case (check mc seed_id otp mc' r)
  then show ?case using CheckOTP_spec [of mc seed_id otp] by auto
qed

lemma chk_inv_Init:
  assumes "OTPChecker_Init c t e mem num_otps block_size num_tables = Some mc" "0 < num_otps" "0 < num_tables"
    "length mem = num_tables" "\<forall>t\<in>set mem. length (table_entries t) = 2 * num_otps"
  shows "chk_inv mc"
  using assms by (auto simp: OTPChecker_Init_def chk_inv_def Table_Empty_spec Let_def split: if_splits option.splits)

subsection \<open>Properties\<close>

text \<open>A checker in use: states reached from a fresh one by any sequence of steps.\<close>

inductive chk_reachable :: "cipher_fn \<Rightarrow> OTPChecker \<Rightarrow> bool" for encrypt where
  chk_init: "OTPChecker_Init c t e mem num_otps block_size num_tables = Some mc \<Longrightarrow> 0 < num_otps \<Longrightarrow> 0 < num_tables \<Longrightarrow>
    length mem = num_tables \<Longrightarrow> (\<forall>t\<in>set mem. length (table_entries t) = 2 * num_otps) \<Longrightarrow> chk_reachable encrypt mc"
| chk_next: "chk_reachable encrypt mc \<Longrightarrow> chk_step encrypt mc mc' \<Longrightarrow> chk_reachable encrypt mc'"

lemma chk_reachable_inv: "chk_reachable encrypt mc \<Longrightarrow> chk_inv mc"
  by (induction rule: chk_reachable.induct) (auto intro: chk_inv_Init chk_inv_step)

definition otp_test_mem :: "nat \<Rightarrow> OTPChecker_table list" where
  "otp_test_mem n = replicate 2 \<lparr>table_id = 0, table_entries = replicate (2 * n) \<lparr>entry_otp = 7, entry_avail = 3\<rparr>\<rparr>"

definition otp_test_checker :: OTPChecker where
  "otp_test_checker = the (OTPChecker_Init True True True (otp_test_mem 2) 2 4 2)"

lemma otp_test_checker_eq: "OTPChecker_Init True True True (otp_test_mem 2) 2 4 2 = Some otp_test_checker"
  by (simp add: otp_test_checker_def OTPChecker_Init_def OTPCalculator_Init_def Let_def c_limits)

lemma otp_test_checker_reachable: "chk_reachable encrypt otp_test_checker"
  by (rule chk_init [OF otp_test_checker_eq]) (simp_all add: otp_test_mem_def)

text \<open>
  C13: in every state a checker can be in, whatever the worker thread wrote so far, checking a
  password and generating a table end without failing an assertion: the probing loops always meet
  the entry they look for or a free one.
\<close>

theorem otp_no_assertion_fails:
  assumes "chk_reachable encrypt mc"
  shows "OTPChecker_CheckOTP mc seed_id otp \<noteq> None \<and> OTPChecker_work_func encrypt rnd h mc \<noteq> None"
  using CheckOTP_spec [OF chk_reachable_inv [OF assms], of seed_id otp]
    work_func_spec [OF chk_reachable_inv [OF assms], of encrypt rnd h] by auto

theorem otp_no_assertion_fails_witness:
  "OTPChecker_CheckOTP (OTPChecker_AddSeed otp_test_checker 5 [1] [2]) 5 9 \<noteq> None \<and>
   OTPChecker_work_func (\<lambda>k z iv. (iv, iv)) (\<lambda>_ _. 0) BADVPN_LITTLE_ENDIAN (OTPChecker_AddSeed otp_test_checker 5 [1] [2]) \<noteq> None"
  by (rule otp_no_assertion_fails, rule chk_next [OF otp_test_checker_reachable], rule chk_step.add_seed)

definition put_table :: "OTPChecker_table \<Rightarrow> OTPChecker \<Rightarrow> OTPChecker" where
  "put_table t mc = mc\<lparr>chk_tables := (chk_tables mc)[chk_next_table mc := t]\<rparr>"

lemma put_table_simps [simp]:
  "chk_index (put_table t mc) i = chk_index mc i" "chk_next_table (put_table t mc) = chk_next_table mc"
  "chk_tw_have (put_table t mc) = chk_tw_have mc" "chk_tables_used (put_table t mc) = chk_tables_used mc"
  "chk_num_entries (put_table t mc) = chk_num_entries mc" "chk_tables (put_table t mc) = (chk_tables mc)[chk_next_table mc := t]"
  by (simp_all add: put_table_def chk_index_def)

lemma put_table_upd:
  "j \<noteq> chk_next_table mc \<Longrightarrow> put_table t (mc\<lparr>chk_tables := (chk_tables mc)[j := u]\<rparr>) =
    (put_table t mc)\<lparr>chk_tables := (chk_tables mc)[chk_next_table mc := t, j := u]\<rparr>"
  by (simp add: put_table_def list_update_swap)

lemma check_tables_loop_race_free:
  assumes inv: "chk_inv mc" "chk_tw_have mc" and len: "length (table_entries t) = chk_num_entries mc" and i: "0 < i"
  shows "check_tables_loop (put_table t mc) seed_id otp i = map_option (map_prod (put_table t) id) (check_tables_loop mc seed_id otp i)"
  using i
proof (induction "chk_tables_used mc + 1 - i" arbitrary: i)
  case 0
  then show ?case by (subst (1 2) check_tables_loop.simps) simp
next
  case (Suc d)
  have put: "chk_inv (put_table t mc)" using inv len unfolding put_table_def by (intro chk_inv_set_table) simp_all
  have IH: "check_tables_loop (put_table t mc) seed_id otp (i + 1) = map_option (map_prod (put_table t) id) (check_tables_loop mc seed_id otp (i + 1))"
    using Suc.hyps(2) by (intro Suc.hyps(1)) simp_all
  show ?case
  proof (cases "chk_index mc i = chk_next_table mc")
    case True
    then show ?thesis using IH inv(2)
      by (subst check_tables_loop_step [OF put Suc.prems], subst check_tables_loop_step [OF inv(1) Suc.prems]) simp
  next
    case False
    then have "chk_tables (put_table t mc) ! chk_index mc i = chk_tables mc ! chk_index mc i" by simp
    then show ?thesis using IH False
      by (subst check_tables_loop_step [OF put Suc.prems], subst check_tables_loop_step [OF inv(1) Suc.prems])
        (auto simp: put_table_upd option.map_comp comp_def intro!: option.map_cong0 split: prod.splits)
  qed
qed

text \<open>
  C15: while the worker thread generates a table, checking a password neither reads nor writes that
  table: with any other contents of the table the answer is the same, and the contents stay as
  they were.
\<close>

theorem otp_check_race_free:
  assumes "chk_reachable encrypt mc" "chk_tw_have mc" "length (table_entries t) = chk_num_entries mc"
  shows "OTPChecker_CheckOTP (put_table t mc) seed_id otp = map_option (map_prod (put_table t) id) (OTPChecker_CheckOTP mc seed_id otp)"
  unfolding OTPChecker_CheckOTP_def
  by (rule check_tables_loop_race_free [OF chk_reachable_inv [OF assms(1)] assms(2,3)]) simp

lemma otp_test_checker_sizes: "chk_num_entries otp_test_checker = 4"
  by (simp add: otp_test_checker_def OTPChecker_Init_def OTPCalculator_Init_def Let_def c_limits)

theorem otp_check_race_free_witness:
  "OTPChecker_CheckOTP (put_table \<lparr>table_id = 5, table_entries = replicate 4 \<lparr>entry_otp = 9, entry_avail = 1\<rparr>\<rparr>
      (OTPChecker_AddSeed otp_test_checker 5 [1] [2])) 5 9 =
   map_option (map_prod (put_table \<lparr>table_id = 5, table_entries = replicate 4 \<lparr>entry_otp = 9, entry_avail = 1\<rparr>\<rparr>) id)
      (OTPChecker_CheckOTP (OTPChecker_AddSeed otp_test_checker 5 [1] [2]) 5 9)"
proof (rule otp_check_race_free)
  show "chk_reachable (\<lambda>k z iv. (iv, iv)) (OTPChecker_AddSeed otp_test_checker 5 [1] [2])"
    by (rule chk_next [OF otp_test_checker_reachable], rule chk_step.add_seed)
qed (simp_all add: OTPChecker_AddSeed_def otp_test_checker_sizes)

text \<open>Checking a sequence of passwords, and what a multiset of good passwords answers.\<close>

fun check_run :: "u16 \<Rightarrow> otp list \<Rightarrow> OTPChecker \<Rightarrow> bool list option" where
  "check_run seed_id [] mc = Some []"
| "check_run seed_id (otp # otps) mc =
     (case OTPChecker_CheckOTP mc seed_id otp of None \<Rightarrow> None
      | Some (mc, r) \<Rightarrow> map_option ((#) r) (check_run seed_id otps mc))"

fun mset_checks :: "'a multiset \<Rightarrow> 'a list \<Rightarrow> bool list" where
  "mset_checks M [] = []"
| "mset_checks M (x # xs) = (x \<in># M) # mset_checks (M - {#x#}) xs"

fun get_otps :: "nat \<Rightarrow> OTPGenerator \<Rightarrow> otp list" where
  "get_otps 0 g = []"
| "get_otps (Suc n) g = (case OTPGenerator_GetOTP g of (g, otp) \<Rightarrow> otp # get_otps n g)"

text \<open>A checker whose newest table holds the passwords \<open>M\<close>.\<close>

definition checker_holds :: "OTPChecker \<Rightarrow> u16 \<Rightarrow> otp multiset \<Rightarrow> bool" where
  "checker_holds mc seed_id M \<longleftrightarrow> chk_inv mc \<and> \<not> chk_tw_have mc \<and> 0 < chk_tables_used mc \<and>
     table_id (chk_tables mc ! chk_index mc 1) = seed_id \<and>
     table_otps (chk_num_entries mc) (chk_tables mc ! chk_index mc 1) = count M"

lemma CheckOTP_holds:
  assumes "checker_holds mc seed_id M"
  shows "\<exists>mc'. OTPChecker_CheckOTP mc seed_id otp = Some (mc', otp \<in># M) \<and> checker_holds mc' seed_id (M - {#otp#})"
proof -
  let ?n = "chk_num_entries mc" and ?j = "chk_index mc 1"
  have inv: "chk_inv mc" and h: "\<not> chk_tw_have mc" "0 < chk_tables_used mc" "table_id (chk_tables mc ! ?j) = seed_id"
    "table_otps ?n (chk_tables mc ! ?j) = count M" using assms unfolding checker_holds_def by blast+
  have "table_good ?n (chk_tables mc ! ?j)" using inv h by (intro chk_inv_good) simp_all
  then obtain t where t: "OTPChecker_Table_CheckOTP ?n (chk_tables mc ! ?j) otp = Some (t, otp \<in># M)" "table_good ?n t"
    "table_id t = seed_id" "table_otps ?n t = count (M - {#otp#})"
    using Table_CheckOTP_spec [of ?n "chk_tables mc ! ?j" otp] h(3,4) by (auto simp: fun_eq_iff)
  let ?mc = "mc\<lparr>chk_tables := (chk_tables mc)[?j := t]\<rparr>"
  have idx: "chk_index ?mc 1 = ?j" by (simp add: chk_index_def)
  have j: "?j < length (chk_tables mc)" using chk_index_less [OF inv] inv by (simp add: chk_inv_def)
  have "OTPChecker_CheckOTP mc seed_id otp = Some (?mc, otp \<in># M)"
    unfolding OTPChecker_CheckOTP_def using check_tables_loop_step [OF inv zero_less_one, of seed_id otp] h t by simp
  moreover have "chk_inv ?mc" using inv t(2) table_good_length by (intro chk_inv_set_table) auto
  then have "checker_holds ?mc seed_id (M - {#otp#})" unfolding checker_holds_def idx using h t(3,4) j by simp
  ultimately show ?thesis by blast
qed

lemma check_run_spec: "checker_holds mc seed_id M \<Longrightarrow> check_run seed_id otps mc = Some (mset_checks M otps)"
proof (induction otps arbitrary: mc M)
  case (Cons otp otps)
  then show ?case using CheckOTP_holds [OF Cons.prems, of otp] by auto
qed simp

text \<open>Comparing passwords by value is comparing their bytes, on a host of either byte order.\<close>

lemma mset_checks_image:
  "inj_on f (set_mset M \<union> set xs) \<Longrightarrow> mset_checks (image_mset f M) (map f xs) = mset_checks M xs"
proof (induction xs arbitrary: M)
  case (Cons x xs)
  have mem: "f x \<in># image_mset f M \<longleftrightarrow> x \<in># M" using Cons.prems by (auto dest: inj_onD)
  have rem: "image_mset f M - {#f x#} = image_mset f (M - {#x#})"
  proof (cases "x \<in># M")
    case True
    then show ?thesis by (simp add: image_mset_Diff)
  next
    case False
    then show ?thesis using mem by (simp add: diff_single_trivial)
  qed
  have "inj_on f (set_mset (M - {#x#}) \<union> set xs)"
    by (rule inj_on_subset [OF Cons.prems]) (auto dest: in_diffD)
  then show ?case using Cons.IH mem by (simp add: rem)
qed simp

definition otp_bytes :: "host \<Rightarrow> otp \<Rightarrow> bytes" where
  "otp_bytes h otp = host_store h 4 otp"

lemma otps_of_data_hosts:
  "map (otp_bytes h) (otps_of_data h data) = map (otp_bytes h') (otps_of_data h' data)"
  by (auto simp: otps_of_data_def otp_bytes_def host_store_load)

lemma otp_bytes_inj: "inj (otp_bytes h)"
  by (rule inj_on_inverseI [where g = "host_load h"]) (simp add: otp_bytes_def host_load_store)

lemma take_otps_hosts:
  "map (otp_bytes h) (take n (otps_of_data h data)) = map (otp_bytes h') (take n (otps_of_data h' data))"
  by (simp only: take_map [symmetric] otps_of_data_hosts [of h data h'])

lemma mset_checks_bytes:
  assumes "list_all (\<lambda>w. length w = 4) ws"
  shows "mset_checks M (map (host_load h) ws) = mset_checks (image_mset (otp_bytes h) M) ws"
proof -
  have "map (otp_bytes h) (map (host_load h) ws) = ws"
    using assms by (auto simp: otp_bytes_def host_store_load list_all_iff intro!: map_idI)
  then show ?thesis using mset_checks_image [OF inj_on_subset [OF otp_bytes_inj subset_UNIV], of h M "map (host_load h) ws"] by simp
qed

definition seeded_generator ::
  "cipher_fn \<Rightarrow> (nat \<Rightarrow> nat \<Rightarrow> u16) \<Rightarrow> host \<Rightarrow> bytes \<Rightarrow> bytes \<Rightarrow> OTPGenerator \<Rightarrow> OTPGenerator" where
  "seeded_generator encrypt rnd h key iv g =
     OTPGenerator_work_done_handler (OTPGenerator_work_func encrypt rnd h (OTPGenerator_SetSeed g key iv))"

definition seeded_checker ::
  "cipher_fn \<Rightarrow> (nat \<Rightarrow> nat \<Rightarrow> u16) \<Rightarrow> host \<Rightarrow> u16 \<Rightarrow> bytes \<Rightarrow> bytes \<Rightarrow> OTPChecker \<Rightarrow> OTPChecker option" where
  "seeded_checker encrypt rnd h seed_id key iv mc =
     map_option OTPChecker_work_done_handler (OTPChecker_work_func encrypt rnd h (OTPChecker_AddSeed mc seed_id key iv))"

lemma get_otps_eq:
  "gen_position g + n \<le> length (if gen_cur g then gen_otps1 g else gen_otps0 g) \<Longrightarrow>
   get_otps n g = take n (drop (gen_position g) (if gen_cur g then gen_otps1 g else gen_otps0 g))"
proof (induction n arbitrary: g)
  case (Suc n)
  let ?otps = "if gen_cur g then gen_otps1 g else gen_otps0 g"
  have "drop (gen_position g) ?otps = ?otps ! gen_position g # drop (gen_position g + 1) ?otps"
    using Suc.prems by (simp add: Cons_nth_drop_Suc)
  moreover have "get_otps n (g\<lparr>gen_position := gen_position g + 1\<rparr>) = take n (drop (gen_position g + 1) ?otps)"
    using Suc.IH [of "g\<lparr>gen_position := gen_position g + 1\<rparr>"] Suc.prems by (cases "gen_cur g") simp_all
  ultimately show ?case by (simp add: OTPGenerator_GetOTP_def)
qed simp

lemma length_get_otps: "length (get_otps n g) = n"
  by (induction n arbitrary: g) (simp_all split: prod.split)

lemma get_otps_take: "get_otps m g = take m (get_otps (m + k) g)"
  by (induction m arbitrary: g) (simp_all split: prod.split)

lemma seeded_generator_otps:
  assumes "calc_ok encrypt (gen_calc g)" "gen_num_otps g = calc_num_otps (gen_calc g)"
  shows "get_otps (gen_num_otps g) (seeded_generator encrypt rnd h key iv g) =
    take (gen_num_otps g) (OTPCalculator_Generate encrypt rnd h (gen_calc g) key iv True)"
proof -
  have "gen_num_otps g \<le> length (OTPCalculator_Generate encrypt rnd h (gen_calc g) key iv True)"
    using Generate_length [OF assms(1), of rnd h key iv] Generate_mset(2) [OF assms(1), of rnd h key iv rnd] assms(2) by simp
  then show ?thesis
    by (subst get_otps_eq) (simp_all add: seeded_generator_def OTPGenerator_work_done_handler_def
        OTPGenerator_work_func_def OTPGenerator_SetSeed_def Let_def)
qed

lemma seeded_checker_holds:
  assumes inv: "chk_inv mc"
  shows "\<exists>mc'. seeded_checker encrypt rnd h seed_id key iv mc = Some mc' \<and> checker_holds mc' seed_id
    (mset (take (chk_num_otps mc) (OTPCalculator_Generate encrypt rnd h (chk_calc mc) key iv False)))"
proof -
  let ?add = "OTPChecker_AddSeed mc seed_id key iv"
  have add: "chk_inv ?add" using inv by (rule chk_inv_AddSeed)
  obtain t where t: "OTPChecker_work_func encrypt rnd h ?add = Some (?add\<lparr>chk_tables := (chk_tables ?add)[chk_next_table ?add := t]\<rparr>)"
    "table_good (chk_num_entries ?add) t" "table_id t = table_id (chk_tables ?add ! chk_next_table ?add)"
    "table_otps (chk_num_entries ?add) t = count (mset (take (chk_num_otps ?add)
      (OTPCalculator_Generate encrypt rnd h (chk_calc ?add) (chk_tw_key ?add) (chk_tw_iv ?add) False)))"
    using work_func_spec [OF add] by blast
  let ?mc = "?add\<lparr>chk_tables := (chk_tables ?add)[chk_next_table ?add := t]\<rparr>"
  have nt: "chk_next_table mc < length (chk_tables mc)" using inv by (simp add: chk_inv_def)
  have put: "chk_inv ?mc" using add t(2) table_good_length by (intro chk_inv_set_table) auto
  have at: "chk_tables ?mc ! chk_next_table ?mc = t" using nt by (simp add: OTPChecker_AddSeed_def)
  have "table_good (chk_num_entries ?mc) (chk_tables ?mc ! chk_next_table ?mc)" using t(2) at by simp
  note don = chk_inv_work_done [OF put this]
  have keep: "chk_tables (OTPChecker_work_done_handler ?mc) = chk_tables ?mc" "\<not> chk_tw_have (OTPChecker_work_done_handler ?mc)"
    "chk_num_entries (OTPChecker_work_done_handler ?mc) = chk_num_entries ?add"
    by (simp_all add: OTPChecker_work_done_handler_def Let_def)
  have "table_id t = seed_id" using t(3) nt by (simp add: OTPChecker_AddSeed_def)
  moreover have "table_otps (chk_num_entries ?add) t =
      count (mset (take (chk_num_otps mc) (OTPCalculator_Generate encrypt rnd h (chk_calc mc) key iv False)))"
    unfolding t(4) by (simp add: OTPChecker_AddSeed_def)
  ultimately have "checker_holds (OTPChecker_work_done_handler ?mc) seed_id
      (mset (take (chk_num_otps mc) (OTPCalculator_Generate encrypt rnd h (chk_calc mc) key iv False)))"
    unfolding checker_holds_def keep don(3) at using don(1,2) keep(2) by simp
  then show ?thesis by (simp add: seeded_checker_def t(1))
qed

text \<open>As bytes, the generator's passwords are the checker's, whatever the hosts.\<close>

lemma exchange_bytes:
  assumes "calc_ok encrypt (gen_calc g)" "gen_num_otps g = calc_num_otps (gen_calc g)"
  shows "image_mset (otp_bytes h') (mset (take (gen_num_otps g) (OTPCalculator_Generate encrypt rnd h' (gen_calc g) key iv False))) =
    mset (map (otp_bytes h) (get_otps (gen_num_otps g) (seeded_generator encrypt rnd' h key iv g)))"
proof -
  have "map (otp_bytes h') (take (gen_num_otps g) (OTPCalculator_Generate encrypt rnd h' (gen_calc g) key iv False)) =
      map (otp_bytes h) (take (gen_num_otps g) (OTPCalculator_Generate encrypt rnd h (gen_calc g) key iv False))"
    using take_otps_hosts by (simp add: OTPCalculator_Generate_def Let_def)
  then have "image_mset (otp_bytes h') (mset (take (gen_num_otps g) (OTPCalculator_Generate encrypt rnd h' (gen_calc g) key iv False))) =
      image_mset (otp_bytes h) (mset (take (gen_num_otps g) (OTPCalculator_Generate encrypt rnd h (gen_calc g) key iv False)))"
    by (metis mset_map)
  also have "\<dots> = image_mset (otp_bytes h) (mset (take (gen_num_otps g) (OTPCalculator_Generate encrypt rnd' h (gen_calc g) key iv True)))"
    using Generate_mset(1) [OF assms(1), of rnd' h key iv rnd] assms(2) by simp
  finally show ?thesis by (simp only: seeded_generator_otps [OF assms] mset_map)
qed

definition otp_test_generator :: OTPGenerator where
  "otp_test_generator = the (OTPGenerator_Init True True 2 4)"

definition otp_test_cipher :: cipher_fn where
  "otp_test_cipher key zero iv = ([sum_list key, sum_list iv, 0, 0], map (\<lambda>b. b + 1) iv)"

lemma otp_test_calcs:
  "chk_calc otp_test_checker = gen_calc otp_test_generator" "calc_ok otp_test_cipher (gen_calc otp_test_generator)"
  "chk_num_otps otp_test_checker = calc_num_otps (gen_calc otp_test_generator)"
  "gen_num_otps otp_test_generator = calc_num_otps (gen_calc otp_test_generator)"
  by (simp_all add: otp_test_checker_def otp_test_generator_def OTPChecker_Init_def OTPGenerator_Init_def
      OTPCalculator_Init_def Let_def c_limits calc_ok_def otp_test_cipher_def)

text \<open>
  C3: a generator and a checker that get the same key and IV agree, on hosts of any byte orders.
  The generator hands out its passwords in an order of its own choosing; the checker reads any
  sequence \<open>ws\<close> of four-byte passwords from the wire and answers as the multiset of the passwords
  handed out does. So each of them is accepted in any order, exactly as many times as it was handed
  out, and a replay or a guess is rejected. The cipher is assumed to return blocks of the block
  size.
\<close>

theorem otp_exchange:
  assumes "chk_reachable encrypt mc" "chk_calc mc = gen_calc g" "calc_ok encrypt (gen_calc g)"
    "chk_num_otps mc = calc_num_otps (gen_calc g)" "gen_num_otps g = calc_num_otps (gen_calc g)"
    and "list_all (\<lambda>w. length w = 4) ws"
  shows "Option.bind (seeded_checker encrypt rnd h' seed_id key iv mc) (check_run seed_id (map (host_load h') ws)) =
    Some (mset_checks (mset (map (otp_bytes h) (get_otps (gen_num_otps g) (seeded_generator encrypt rnd' h key iv g)))) ws)"
proof -
  let ?M = "mset (take (chk_num_otps mc) (OTPCalculator_Generate encrypt rnd h' (chk_calc mc) key iv False))"
  obtain mc' where mc': "seeded_checker encrypt rnd h' seed_id key iv mc = Some mc'" "checker_holds mc' seed_id ?M"
    using seeded_checker_holds [OF chk_reachable_inv [OF assms(1)]] by blast
  have "mset_checks ?M (map (host_load h') ws) = mset_checks (image_mset (otp_bytes h') ?M) ws"
    by (rule mset_checks_bytes [OF assms(6)])
  then show ?thesis using mc' check_run_spec exchange_bytes [OF assms(3,5), of h' rnd key iv h rnd'] assms(2,4,5) by simp
qed

theorem otp_exchange_witness:
  "Option.bind (seeded_checker otp_test_cipher (\<lambda>_ _. 0) BADVPN_LITTLE_ENDIAN 5 [1] [2] otp_test_checker)
      (check_run 5 (map (host_load BADVPN_LITTLE_ENDIAN) [[1, 2, 0, 0], [1, 3, 0, 0], [1, 2, 0, 0]])) =
    Some (mset_checks (mset (map (otp_bytes BADVPN_BIG_ENDIAN) (get_otps (gen_num_otps otp_test_generator)
      (seeded_generator otp_test_cipher (\<lambda>_ j. of_nat j + 1) BADVPN_BIG_ENDIAN [1] [2] otp_test_generator))))
        [[1, 2, 0, 0], [1, 3, 0, 0], [1, 2, 0, 0]])"
  by (rule otp_exchange [OF otp_test_checker_reachable otp_test_calcs]) simp

end
