(* ===== verification/SPProto.thy ===== *)
theory SPProto
  imports Otp
begin

text \<open>
  Security protocol for datagrams: \<open>src/protocol/spproto.h\<close>, \<open>src/client/SPProtoEncoder.c\<close> and
  \<open>src/client/SPProtoDecoder.c\<close>, with the size functions of \<open>src/security/BHash.c\<close> and
  \<open>BEncryption.c\<close>. The hash functions and block ciphers of the cryptographic library are
  parameters, collected in a record; so are the random IV of each packet and the memory contents.
\<close>

record bsecurity =
  BHash_calculate :: "int \<Rightarrow> bytes \<Rightarrow> bytes"
  BEncryption_Encrypt :: "int \<Rightarrow> bytes \<Rightarrow> bytes \<Rightarrow> bytes \<Rightarrow> bytes"
  BEncryption_Decrypt :: "int \<Rightarrow> bytes \<Rightarrow> bytes \<Rightarrow> bytes \<Rightarrow> bytes"

definition BHash_type_valid :: "int \<Rightarrow> bool" where "BHash_type_valid t \<longleftrightarrow> t = 1 \<or> t = 2"

definition BHash_size :: "int \<Rightarrow> nat" where "BHash_size t = (if t = 1 then 16 else if t = 2 then 20 else 0)"

definition BEncryption_cipher_valid :: "int \<Rightarrow> bool" where "BEncryption_cipher_valid c \<longleftrightarrow> c = 1 \<or> c = 2"

definition BEncryption_cipher_block_size :: "int \<Rightarrow> nat" where
  "BEncryption_cipher_block_size c = (if c = 1 then 8 else if c = 2 then 16 else 0)"

definition BEncryption_cipher_key_size :: "int \<Rightarrow> nat" where
  "BEncryption_cipher_key_size c = (if c = 1 then 16 else if c = 2 then 16 else 0)"

subsection \<open>Parameters and sizes\<close>

record spproto_security_params =
  sp_hash_mode :: int
  sp_encryption_mode :: int
  sp_otp_mode :: int
  sp_otp_num :: nat

definition SPPROTO_HAVE_HASH :: "spproto_security_params \<Rightarrow> bool" where
  "SPPROTO_HAVE_HASH p \<longleftrightarrow> sp_hash_mode p \<noteq> 0"

definition SPPROTO_HASH_SIZE :: "spproto_security_params \<Rightarrow> nat" where
  "SPPROTO_HASH_SIZE p = (if SPPROTO_HAVE_HASH p then BHash_size (sp_hash_mode p) else 0)"

definition SPPROTO_HAVE_ENCRYPTION :: "spproto_security_params \<Rightarrow> bool" where
  "SPPROTO_HAVE_ENCRYPTION p \<longleftrightarrow> sp_encryption_mode p \<noteq> 0"

definition SPPROTO_HAVE_OTP :: "spproto_security_params \<Rightarrow> bool" where
  "SPPROTO_HAVE_OTP p \<longleftrightarrow> sp_otp_mode p \<noteq> 0"

definition SPPROTO_HEADER_OTPDATA_LEN :: "spproto_security_params \<Rightarrow> nat" where
  "SPPROTO_HEADER_OTPDATA_LEN p = (if SPPROTO_HAVE_OTP p then 6 else 0)"

definition SPPROTO_HEADER_HASH_OFF :: "spproto_security_params \<Rightarrow> nat" where
  "SPPROTO_HEADER_HASH_OFF p = SPPROTO_HEADER_OTPDATA_LEN p"

definition SPPROTO_HEADER_LEN :: "spproto_security_params \<Rightarrow> nat" where
  "SPPROTO_HEADER_LEN p = SPPROTO_HEADER_HASH_OFF p + SPPROTO_HASH_SIZE p"

definition spproto_assert_security_params :: "spproto_security_params \<Rightarrow> bool" where
  "spproto_assert_security_params p \<longleftrightarrow>
     (sp_hash_mode p = 0 \<or> BHash_type_valid (sp_hash_mode p)) \<and>
     (sp_encryption_mode p = 0 \<or> BEncryption_cipher_valid (sp_encryption_mode p)) \<and>
     (sp_otp_mode p = 0 \<or> BEncryption_cipher_valid (sp_otp_mode p)) \<and> (sp_otp_mode p = 0 \<or> sp_otp_num p > 0)"

text \<open>The alignment macros on sizes that are passed as integers.\<close>

definition align_up :: "nat \<Rightarrow> nat \<Rightarrow> nat" where "align_up x n = unat (balign_up (of_nat x) (of_nat n))"

definition align_down :: "nat \<Rightarrow> nat \<Rightarrow> nat" where "align_down x n = unat (balign_down (of_nat x) (of_nat n))"

definition spproto_payload_mtu_for_carrier_mtu :: "spproto_security_params \<Rightarrow> nat \<Rightarrow> int" where
  "spproto_payload_mtu_for_carrier_mtu p carrier_mtu =
     (if sp_encryption_mode p = 0 then int carrier_mtu - int (SPPROTO_HEADER_LEN p)
      else let block_size = BEncryption_cipher_block_size (sp_encryption_mode p)
        in int (align_down carrier_mtu block_size) - int block_size - int (SPPROTO_HEADER_LEN p) - 1)"

definition spproto_carrier_mtu_for_payload_mtu :: "spproto_security_params \<Rightarrow> nat \<Rightarrow> int" where
  "spproto_carrier_mtu_for_payload_mtu p payload_mtu =
     (if sp_encryption_mode p = 0 then
        (if int payload_mtu > INT_MAX - int (SPPROTO_HEADER_LEN p) then -1 else int (SPPROTO_HEADER_LEN p + payload_mtu))
      else let block_size = BEncryption_cipher_block_size (sp_encryption_mode p) in
        if int payload_mtu > INT_MAX - int (block_size + SPPROTO_HEADER_LEN p + block_size) then -1
        else int (block_size + align_up (SPPROTO_HEADER_LEN p + payload_mtu + 1) block_size))"

subsection \<open>The encoder\<close>

text \<open>
  \<open>se_in_len\<close> and \<open>se_out\<close> are absent when the code has \<open>in_len = -1\<close> and \<open>out_have = 0\<close>; a key is
  absent when \<open>have_encryption_key\<close> is 0.
\<close>

record SPProtoEncoder =
  se_params :: spproto_security_params
  se_otp_warning_count :: nat
  se_otpgen :: OTPGenerator
  se_otpgen_seed_id :: u16
  se_otpgen_pending_seed_id :: u16
  se_key :: "bytes option"
  se_input_mtu :: nat
  se_output_mtu :: int
  se_in_len :: "nat option"
  se_out :: "bytes option"
  se_buf :: bytes
  se_handler_job :: bool
  se_tw_have :: bool
  se_tw_seed_id :: u16
  se_tw_otp :: otp
  se_tw_out_len :: nat

definition spe_can_encode :: "SPProtoEncoder \<Rightarrow> bool" where
  "spe_can_encode ob \<longleftrightarrow>
     (\<not> SPPROTO_HAVE_OTP (se_params ob) \<or> OTPGenerator_GetPosition (se_otpgen ob) < sp_otp_num (se_params ob)) \<and>
     (\<not> SPPROTO_HAVE_ENCRYPTION (se_params ob) \<or> se_key ob \<noteq> None)"

definition spe_encode_packet :: "SPProtoEncoder \<Rightarrow> SPProtoEncoder" where
  "spe_encode_packet ob =
     (let ob = (if SPPROTO_HAVE_OTP (se_params ob) then
                  case OTPGenerator_GetOTP (se_otpgen ob) of (g, otp) \<Rightarrow>
                    ob\<lparr>se_tw_seed_id := se_otpgen_seed_id ob, se_otpgen := g, se_tw_otp := otp\<rparr>
                else ob);
          ob = ob\<lparr>se_tw_have := True\<rparr>
      in if SPPROTO_HAVE_OTP (se_params ob) \<and> OTPGenerator_GetPosition (se_otpgen ob) = se_otp_warning_count ob
         then ob\<lparr>se_handler_job := True\<rparr> else ob)"

text \<open>The plaintext memory: the buffer when encrypting, the output packet otherwise.\<close>

definition spe_plaintext :: "SPProtoEncoder \<Rightarrow> bytes" where
  "spe_plaintext ob = (if SPPROTO_HAVE_ENCRYPTION (se_params ob) then se_buf ob else the (se_out ob))"

definition spe_set_plaintext :: "bytes \<Rightarrow> SPProtoEncoder \<Rightarrow> SPProtoEncoder" where
  "spe_set_plaintext pt ob =
     (if SPPROTO_HAVE_ENCRYPTION (se_params ob) then ob\<lparr>se_buf := pt\<rparr> else ob\<lparr>se_out := Some pt\<rparr>)"

definition spe_write_header :: "bsecurity \<Rightarrow> host \<Rightarrow> SPProtoEncoder \<Rightarrow> bytes \<Rightarrow> nat \<Rightarrow> bytes" where
  "spe_write_header sec h ob plaintext plaintext_len =
     (let p = se_params ob;
          plaintext = (if SPPROTO_HAVE_OTP p
            then mem_write plaintext 0 (host_store h 2 (htol16 h (se_tw_seed_id ob)) @ host_store h 4 (se_tw_otp ob))
            else plaintext)
      in if SPPROTO_HAVE_HASH p then
           let zeroed = mem_write plaintext (SPPROTO_HEADER_HASH_OFF p) (replicate (SPPROTO_HASH_SIZE p) 0);
               hash = BHash_calculate sec (sp_hash_mode p) (take plaintext_len zeroed)
           in mem_write zeroed (SPPROTO_HEADER_HASH_OFF p) (take (SPPROTO_HASH_SIZE p) hash)
         else plaintext)"

text \<open>\<open>iv\<close> is what the random source returns. \<open>None\<close> is a failed assertion.\<close>

definition spe_encode_work_func :: "bsecurity \<Rightarrow> host \<Rightarrow> bytes \<Rightarrow> SPProtoEncoder \<Rightarrow> SPProtoEncoder option" where
  "spe_encode_work_func sec h iv ob =
     (case (se_in_len ob, se_out ob) of
        (Some in_len, Some out) \<Rightarrow>
          let p = se_params ob in
          if \<not> (\<not> SPPROTO_HAVE_ENCRYPTION p \<or> se_key ob \<noteq> None) \<or> \<not> in_len \<le> se_input_mtu ob then None
          else let plaintext_len = SPPROTO_HEADER_LEN p + in_len;
                   plaintext = spe_write_header sec h ob (spe_plaintext ob) plaintext_len;
                   ob = spe_set_plaintext plaintext ob in
            if SPPROTO_HAVE_ENCRYPTION p then
              let block_size = BEncryption_cipher_block_size (sp_encryption_mode p);
                  cyphertext_len = align_up (plaintext_len + 1) block_size;
                  plaintext = mem_write plaintext plaintext_len (1 # replicate (cyphertext_len - (plaintext_len + 1)) 0);
                  out = mem_write out 0 iv;
                  out = mem_write out block_size
                    (BEncryption_Encrypt sec (sp_encryption_mode p) (the (se_key ob)) iv (take cyphertext_len plaintext))
              in Some (ob\<lparr>se_buf := plaintext, se_out := Some out, se_tw_out_len := block_size + cyphertext_len\<rparr>)
            else Some (ob\<lparr>se_tw_out_len := plaintext_len\<rparr>)
      | _ \<Rightarrow> None)"

text \<open>The finished packet is returned with the new state.\<close>

definition spe_encode_work_handler :: "SPProtoEncoder \<Rightarrow> (SPProtoEncoder \<times> bytes) option" where
  "spe_encode_work_handler ob =
     (case (se_in_len ob, se_out ob) of
        (Some _, Some out) \<Rightarrow>
          if \<not> se_tw_have ob then None
          else Some (ob\<lparr>se_tw_have := False, se_in_len := None, se_out := None\<rparr>, take (se_tw_out_len ob) out)
      | _ \<Rightarrow> None)"

definition spe_maybe_encode :: "SPProtoEncoder \<Rightarrow> SPProtoEncoder" where
  "spe_maybe_encode ob =
     (if se_in_len ob \<noteq> None \<and> se_out ob \<noteq> None \<and> \<not> se_tw_have ob \<and> spe_can_encode ob then spe_encode_packet ob else ob)"

text \<open>The receive that is scheduled goes to the plaintext memory, behind the header.\<close>

definition spe_output_handler_recv :: "SPProtoEncoder \<Rightarrow> bytes \<Rightarrow> SPProtoEncoder option" where
  "spe_output_handler_recv ob data =
     (if se_in_len ob \<noteq> None \<or> se_out ob \<noteq> None \<or> se_tw_have ob then None else Some (ob\<lparr>se_out := Some data\<rparr>))"

text \<open>The input is done: it wrote the payload \<open>data\<close>.\<close>

definition spe_input_handler_done :: "SPProtoEncoder \<Rightarrow> bytes \<Rightarrow> SPProtoEncoder option" where
  "spe_input_handler_done ob data =
     (if \<not> length data \<le> se_input_mtu ob \<or> se_in_len ob \<noteq> None \<or> se_out ob = None \<or> se_tw_have ob then None
      else let ob = spe_set_plaintext (mem_write (spe_plaintext ob) (SPPROTO_HEADER_LEN (se_params ob)) data) ob;
               ob = ob\<lparr>se_in_len := Some (length data)\<rparr>
        in Some (if spe_can_encode ob then spe_encode_packet ob else ob))"

definition spe_otpgenerator_handler :: "SPProtoEncoder \<Rightarrow> SPProtoEncoder" where
  "spe_otpgenerator_handler ob = spe_maybe_encode (ob\<lparr>se_otpgen_seed_id := se_otpgen_pending_seed_id ob\<rparr>)"

definition spe_maybe_stop_work :: "SPProtoEncoder \<Rightarrow> SPProtoEncoder" where
  "spe_maybe_stop_work ob = (if se_tw_have ob then ob\<lparr>se_tw_have := False\<rparr> else ob)"

text \<open>
  \<open>ok0\<close>, \<open>ok1\<close> and \<open>buf\<close> are the outcomes of the allocations; \<open>g0\<close> is what the memory of the
  generator holds when none is used.
\<close>

definition SPProtoEncoder_Init ::
  "spproto_security_params \<Rightarrow> nat \<Rightarrow> nat \<Rightarrow> bool \<Rightarrow> bool \<Rightarrow> OTPGenerator \<Rightarrow> bytes option \<Rightarrow> SPProtoEncoder option" where
  "SPProtoEncoder_Init p otp_warning_count input_mtu ok0 ok1 g0 buf =
     (if \<not> spproto_assert_security_params p \<or> spproto_carrier_mtu_for_payload_mtu p input_mtu < 0 \<or>
         SPPROTO_HAVE_OTP p \<and> \<not> (otp_warning_count > 0 \<and> otp_warning_count \<le> sp_otp_num p) then None
      else case (if SPPROTO_HAVE_OTP p
                 then OTPGenerator_Init ok0 ok1 (sp_otp_num p) (BEncryption_cipher_block_size (sp_otp_mode p))
                 else Some g0) of None \<Rightarrow> None
      | Some g \<Rightarrow>
          (case (if SPPROTO_HAVE_ENCRYPTION p then buf else Some []) of None \<Rightarrow> None
           | Some b \<Rightarrow> Some \<lparr>se_params = p, se_otp_warning_count = otp_warning_count, se_otpgen = g, se_otpgen_seed_id = 0,
               se_otpgen_pending_seed_id = 0, se_key = None, se_input_mtu = input_mtu,
               se_output_mtu = spproto_carrier_mtu_for_payload_mtu p input_mtu, se_in_len = None, se_out = None,
               se_buf = b, se_handler_job = False, se_tw_have = False, se_tw_seed_id = 0, se_tw_otp = 0, se_tw_out_len = 0\<rparr>))"

definition SPProtoEncoder_SetEncryptionKey :: "SPProtoEncoder \<Rightarrow> bytes \<Rightarrow> SPProtoEncoder" where
  "SPProtoEncoder_SetEncryptionKey ob key = spe_maybe_encode ((spe_maybe_stop_work ob)\<lparr>se_key := Some key\<rparr>)"

definition SPProtoEncoder_RemoveEncryptionKey :: "SPProtoEncoder \<Rightarrow> SPProtoEncoder" where
  "SPProtoEncoder_RemoveEncryptionKey ob =
     (let ob = spe_maybe_stop_work ob in if se_key ob \<noteq> None then ob\<lparr>se_key := None\<rparr> else ob)"

definition SPProtoEncoder_SetOTPSeed :: "SPProtoEncoder \<Rightarrow> u16 \<Rightarrow> bytes \<Rightarrow> bytes \<Rightarrow> SPProtoEncoder" where
  "SPProtoEncoder_SetOTPSeed ob seed_id key iv =
     ob\<lparr>se_otpgen := OTPGenerator_SetSeed (se_otpgen ob) key iv, se_otpgen_pending_seed_id := seed_id\<rparr>"

definition SPProtoEncoder_RemoveOTPSeed :: "SPProtoEncoder \<Rightarrow> SPProtoEncoder" where
  "SPProtoEncoder_RemoveOTPSeed ob = ob\<lparr>se_otpgen := OTPGenerator_Reset (se_otpgen ob)\<rparr>"

subsection \<open>The decoder\<close>

datatype spproto_error =
  SizeNotBlocks | NoIV | NoKey | NoPaddingBlock | PaddingNonzero | PaddingAllZero | NoHeader | TooLong | WrongHash

text \<open>Reading the padding from the end of the decrypted block.\<close>

function read_padding :: "bytes \<Rightarrow> int \<Rightarrow> int \<Rightarrow> spproto_error + nat" where
  "read_padding plaintext i stop =
     (if i \<ge> stop then
        if plaintext ! nat i = 1 then Inr (nat i)
        else if plaintext ! nat i \<noteq> 0 then Inl PaddingNonzero
        else read_padding plaintext (i - 1) stop
      else Inl PaddingAllZero)"
  by auto
termination by (relation "measure (\<lambda>(pt, i, stop). nat (i - stop + 1))") auto

declare read_padding.simps [simp del]

record SPProtoDecoder =
  sd_params :: spproto_security_params
  sd_output_mtu :: nat
  sd_input_mtu :: int
  sd_key :: "bytes option"
  sd_otpchecker :: OTPChecker
  sd_in :: "bytes option"
  sd_tw_have :: bool

text \<open>The plaintext of a received packet.\<close>

definition spd_plaintext :: "bsecurity \<Rightarrow> SPProtoDecoder \<Rightarrow> bytes \<Rightarrow> spproto_error + bytes" where
  "spd_plaintext sec ob data =
     (let p = sd_params ob in
      if \<not> SPPROTO_HAVE_ENCRYPTION p then Inr data
      else let block_size = BEncryption_cipher_block_size (sp_encryption_mode p) in
        if length data mod block_size \<noteq> 0 then Inl SizeNotBlocks
        else if length data < block_size then Inl NoIV
        else case sd_key ob of None \<Rightarrow> Inl NoKey
        | Some key \<Rightarrow>
            let iv = take block_size data;
                ciphertext = drop block_size data;
                ciphertext_len = length data - block_size;
                plaintext = BEncryption_Decrypt sec (sp_encryption_mode p) key iv ciphertext in
            if ciphertext_len < block_size then Inl NoPaddingBlock
            else case read_padding plaintext (int ciphertext_len - 1) (int ciphertext_len - int block_size) of
                Inl e \<Rightarrow> Inl e
              | Inr i \<Rightarrow> Inr (take i plaintext))"

text \<open>The result is the seed identifier and the password of the packet, and its payload.\<close>

definition spd_decode_work_func :: "bsecurity \<Rightarrow> host \<Rightarrow> SPProtoDecoder \<Rightarrow> bytes \<Rightarrow> spproto_error + (u16 \<times> otp \<times> bytes)" where
  "spd_decode_work_func sec h ob data =
     (case spd_plaintext sec ob data of Inl e \<Rightarrow> Inl e
      | Inr plaintext \<Rightarrow>
          let p = sd_params ob in
          if length plaintext < SPPROTO_HEADER_LEN p then Inl NoHeader
          else if length plaintext - SPPROTO_HEADER_LEN p > sd_output_mtu ob then Inl TooLong
          else let seed_id = (if SPPROTO_HAVE_OTP p then ltoh16 h (host_load h (mem_read plaintext 0 2)) else 0);
                   otp = (if SPPROTO_HAVE_OTP p then host_load h (mem_read plaintext 2 4) else 0) in
            if SPPROTO_HAVE_HASH p \<and>
               (let hash = mem_read plaintext (SPPROTO_HEADER_HASH_OFF p) (SPPROTO_HASH_SIZE p);
                    zeroed = mem_write plaintext (SPPROTO_HEADER_HASH_OFF p) (replicate (SPPROTO_HASH_SIZE p) 0);
                    hash_calc = BHash_calculate sec (sp_hash_mode p) zeroed
                in hash \<noteq> take (SPPROTO_HASH_SIZE p) hash_calc)
            then Inl WrongHash
            else Inr (seed_id, otp, drop (SPPROTO_HEADER_LEN p) plaintext))"

text \<open>
  The packet that is passed on, if any; \<open>res\<close> is what the work function returned. \<open>None\<close> is a
  failed assertion. A packet that is not passed on is finished at once.
\<close>

definition spd_decode_work_handler ::
  "SPProtoDecoder \<Rightarrow> spproto_error + (u16 \<times> otp \<times> bytes) \<Rightarrow> (SPProtoDecoder \<times> bytes option) option" where
  "spd_decode_work_handler ob res =
     (if sd_in ob = None \<or> \<not> sd_tw_have ob then None
      else let ob = ob\<lparr>sd_tw_have := False\<rparr> in
        case res of Inl _ \<Rightarrow> Some (ob\<lparr>sd_in := None\<rparr>, None)
        | Inr (seed_id, otp, payload) \<Rightarrow>
            if SPPROTO_HAVE_OTP (sd_params ob) then
              (case OTPChecker_CheckOTP (sd_otpchecker ob) seed_id otp of None \<Rightarrow> None
               | Some (mc, True) \<Rightarrow> Some (ob\<lparr>sd_otpchecker := mc\<rparr>, Some payload)
               | Some (mc, False) \<Rightarrow> Some (ob\<lparr>sd_otpchecker := mc, sd_in := None\<rparr>, None))
            else Some (ob, Some payload))"

definition spd_input_handler_send :: "SPProtoDecoder \<Rightarrow> bytes \<Rightarrow> SPProtoDecoder option" where
  "spd_input_handler_send ob data =
     (if \<not> int (length data) \<le> sd_input_mtu ob \<or> sd_in ob \<noteq> None \<or> sd_tw_have ob then None
      else Some (ob\<lparr>sd_in := Some data, sd_tw_have := True\<rparr>))"

definition spd_output_handler_done :: "SPProtoDecoder \<Rightarrow> SPProtoDecoder option" where
  "spd_output_handler_done ob = (if sd_in ob = None \<or> sd_tw_have ob then None else Some (ob\<lparr>sd_in := None\<rparr>))"

definition spd_maybe_stop_work_and_ignore :: "SPProtoDecoder \<Rightarrow> SPProtoDecoder" where
  "spd_maybe_stop_work_and_ignore ob = (if sd_tw_have ob then ob\<lparr>sd_tw_have := False, sd_in := None\<rparr> else ob)"

definition SPProtoDecoder_Init ::
  "spproto_security_params \<Rightarrow> nat \<Rightarrow> nat \<Rightarrow> bool \<Rightarrow> bool \<Rightarrow> bool \<Rightarrow> bool \<Rightarrow> OTPChecker_table list \<Rightarrow> OTPChecker \<Rightarrow> SPProtoDecoder option" where
  "SPProtoDecoder_Init p output_mtu num_otp_seeds buf_ok otps_ok tables_ok entries_ok mem mc0 =
     (if \<not> spproto_assert_security_params p \<or> spproto_carrier_mtu_for_payload_mtu p output_mtu < 0 \<or>
         SPPROTO_HAVE_OTP p \<and> \<not> num_otp_seeds \<ge> 2 then None
      else if SPPROTO_HAVE_ENCRYPTION p \<and> \<not> buf_ok then None
      else case (if SPPROTO_HAVE_OTP p
                 then OTPChecker_Init otps_ok tables_ok entries_ok mem (sp_otp_num p)
                   (BEncryption_cipher_block_size (sp_otp_mode p)) num_otp_seeds
                 else Some mc0) of None \<Rightarrow> None
      | Some mc \<Rightarrow> Some \<lparr>sd_params = p, sd_output_mtu = output_mtu, sd_input_mtu = spproto_carrier_mtu_for_payload_mtu p output_mtu,
          sd_key = None, sd_otpchecker = mc, sd_in = None, sd_tw_have = False\<rparr>)"

definition SPProtoDecoder_SetEncryptionKey :: "SPProtoDecoder \<Rightarrow> bytes \<Rightarrow> SPProtoDecoder" where
  "SPProtoDecoder_SetEncryptionKey ob key = (spd_maybe_stop_work_and_ignore ob)\<lparr>sd_key := Some key\<rparr>"

definition SPProtoDecoder_RemoveEncryptionKey :: "SPProtoDecoder \<Rightarrow> SPProtoDecoder" where
  "SPProtoDecoder_RemoveEncryptionKey ob =
     (let ob = spd_maybe_stop_work_and_ignore ob in if sd_key ob \<noteq> None then ob\<lparr>sd_key := None\<rparr> else ob)"

definition SPProtoDecoder_AddOTPSeed :: "SPProtoDecoder \<Rightarrow> u16 \<Rightarrow> bytes \<Rightarrow> bytes \<Rightarrow> SPProtoDecoder" where
  "SPProtoDecoder_AddOTPSeed ob seed_id key iv = ob\<lparr>sd_otpchecker := OTPChecker_AddSeed (sd_otpchecker ob) seed_id key iv\<rparr>"

definition SPProtoDecoder_RemoveOTPSeeds :: "SPProtoDecoder \<Rightarrow> SPProtoDecoder" where
  "SPProtoDecoder_RemoveOTPSeeds ob = ob\<lparr>sd_otpchecker := OTPChecker_RemoveSeeds (sd_otpchecker ob)\<rparr>"

subsection \<open>Sizes\<close>

lemma align_up_eq:
  assumes "0 < n" "x + n < 2 ^ 64"
  shows "align_up x n = n * bdivide_up x n"
proof -
  have u: "unat (of_nat x :: size_t) = x" "unat (of_nat n :: size_t) = n" using assms by (simp_all add: unat_of_nat)
  have r: "unat (of_nat x mod of_nat n :: size_t) = x mod n" by (simp add: unat_mod u)
  show ?thesis
  proof (cases "x mod n = 0")
    case True
    then have "(of_nat x mod of_nat n :: size_t) = 0" using r by (metis unsigned_0 word_unat_eq_iff)
    moreover have "x = n * (x div n)" using True mult_div_mod_eq [of n x] by simp
    ultimately show ?thesis using True u by (simp add: align_up_def balign_up_def Let_def bdivide_up_def)
  next
    case False
    then have ne: "(of_nat x mod of_nat n :: size_t) \<noteq> 0" using r by (metis unsigned_0)
    have le: "of_nat x mod of_nat n \<le> (of_nat n :: size_t)" using r u assms(1) by (simp add: word_le_nat_alt less_imp_le)
    have "unat (of_nat x + (of_nat n - of_nat x mod of_nat n) :: size_t) = x + (n - x mod n)"
      using assms r u le by (simp add: unat_word_ariths unat_sub)
    then have "align_up x n = x + (n - x mod n)" using ne by (simp add: align_up_def balign_up_def Let_def)
    moreover have "x + (n - x mod n) = n * (x div n + 1)"
      using mod_less_divisor [OF assms(1), of x] mult_div_mod_eq [of n x] unfolding distrib_left mult_1_right by linarith
    ultimately show ?thesis using False by (simp add: bdivide_up_def)
  qed
qed

lemma align_down_eq:
  assumes "x < 2 ^ 64" "n < 2 ^ 64" shows "align_down x n = n * (x div n)"
proof -
  have u: "unat (of_nat x :: size_t) = x" "unat (of_nat n :: size_t) = n" using assms by (simp_all add: unat_of_nat)
  have r: "unat (of_nat x mod of_nat n :: size_t) = x mod n" by (simp add: unat_mod u)
  then have "of_nat x mod of_nat n \<le> (of_nat x :: size_t)" by (simp add: word_le_nat_alt u)
  then have "unat (of_nat x - of_nat x mod of_nat n :: size_t) = x - x mod n" by (simp only: unat_sub u r)
  then show ?thesis unfolding align_down_def balign_down_def by (simp only: minus_mod_eq_mult_div)
qed

lemma block_room_iff:
  assumes "0 < b" shows "b + x \<le> b * (c div b) \<longleftrightarrow> b + b * bdivide_up x b \<le> (c :: nat)"
proof -
  have "b + b * bdivide_up x b \<le> c \<longleftrightarrow> Suc (bdivide_up x b) \<le> c div b"
    using less_eq_div_iff_mult_less_eq [OF assms, of "Suc (bdivide_up x b)" c] by (simp add: algebra_simps)
  also have "\<dots> \<longleftrightarrow> b + x \<le> b * (c div b)"
    using assms bdivide_up_le_iff [OF assms, of x] by (cases "c div b") auto
  finally show ?thesis by blast
qed

lemma header_len_le: "SPPROTO_HEADER_LEN p \<le> 26"
  by (simp add: SPPROTO_HEADER_LEN_def SPPROTO_HEADER_HASH_OFF_def SPPROTO_HEADER_OTPDATA_LEN_def SPPROTO_HASH_SIZE_def BHash_size_def)

lemma block_size_pos: "spproto_assert_security_params p \<Longrightarrow> SPPROTO_HAVE_ENCRYPTION p \<Longrightarrow>
   0 < BEncryption_cipher_block_size (sp_encryption_mode p) \<and> BEncryption_cipher_block_size (sp_encryption_mode p) \<le> 16"
  by (auto simp: spproto_assert_security_params_def SPPROTO_HAVE_ENCRYPTION_def BEncryption_cipher_valid_def BEncryption_cipher_block_size_def)

lemma block_size_le: "BEncryption_cipher_block_size c \<le> 16"
  by (simp add: BEncryption_cipher_block_size_def)

text \<open>
  C25: the two size functions are inverse to each other in the only sense they can be: a payload
  fits a carrier exactly when the carrier that the payload needs is at most that carrier.
\<close>

theorem spproto_mtu_galois:
  assumes "spproto_assert_security_params p" "int carrier_mtu \<le> INT_MAX" "0 \<le> spproto_carrier_mtu_for_payload_mtu p payload_mtu"
  shows "int payload_mtu \<le> spproto_payload_mtu_for_carrier_mtu p carrier_mtu \<longleftrightarrow>
    spproto_carrier_mtu_for_payload_mtu p payload_mtu \<le> int carrier_mtu"
proof (cases "sp_encryption_mode p = 0")
  case True
  then show ?thesis using assms(3) by (auto simp: spproto_payload_mtu_for_carrier_mtu_def spproto_carrier_mtu_for_payload_mtu_def)
next
  case False
  let ?b = "BEncryption_cipher_block_size (sp_encryption_mode p)" and ?H = "SPPROTO_HEADER_LEN p"
  have b: "0 < ?b" "?b \<le> 16" using block_size_pos [OF assms(1)] False by (simp_all add: SPPROTO_HAVE_ENCRYPTION_def)
  have pm: "int payload_mtu \<le> INT_MAX - int (?b + ?H + ?b)"
    using assms(3) False by (auto simp: spproto_carrier_mtu_for_payload_mtu_def Let_def split: if_splits)
  then have up: "align_up (?H + payload_mtu + 1) ?b = ?b * bdivide_up (?H + payload_mtu + 1) ?b"
    using b header_len_le [of p] by (intro align_up_eq) (simp_all add: INT_MAX_def)
  have down: "align_down carrier_mtu ?b = ?b * (carrier_mtu div ?b)"
    using assms(2) b by (intro align_down_eq) (simp_all add: INT_MAX_def)
  have "int payload_mtu \<le> spproto_payload_mtu_for_carrier_mtu p carrier_mtu \<longleftrightarrow>
      int payload_mtu \<le> int (?b * (carrier_mtu div ?b)) - int ?b - int ?H - 1"
    using False down by (simp add: spproto_payload_mtu_for_carrier_mtu_def Let_def)
  also have "\<dots> \<longleftrightarrow> ?b + (?H + payload_mtu + 1) \<le> ?b * (carrier_mtu div ?b)" by linarith
  also have "\<dots> \<longleftrightarrow> ?b + ?b * bdivide_up (?H + payload_mtu + 1) ?b \<le> carrier_mtu" by (rule block_room_iff [OF b(1)])
  also have "\<dots> \<longleftrightarrow> spproto_carrier_mtu_for_payload_mtu p payload_mtu \<le> int carrier_mtu"
    unfolding spproto_carrier_mtu_for_payload_mtu_def Let_def up using False pm by (simp only: not_less [symmetric] if_False of_nat_less_iff simp_thms)
  finally show ?thesis .
qed

theorem spproto_mtu_galois_witness:
  "int 20 \<le> spproto_payload_mtu_for_carrier_mtu \<lparr>sp_hash_mode = 1, sp_encryption_mode = 2, sp_otp_mode = 1, sp_otp_num = 2\<rparr> 64 \<longleftrightarrow>
   spproto_carrier_mtu_for_payload_mtu \<lparr>sp_hash_mode = 1, sp_encryption_mode = 2, sp_otp_mode = 1, sp_otp_num = 2\<rparr> 20 \<le> int 64"
proof (rule spproto_mtu_galois)
  show "spproto_assert_security_params \<lparr>sp_hash_mode = 1, sp_encryption_mode = 2, sp_otp_mode = 1, sp_otp_num = 2\<rparr>" by code_simp
  show "0 \<le> spproto_carrier_mtu_for_payload_mtu \<lparr>sp_hash_mode = 1, sp_encryption_mode = 2, sp_otp_mode = 1, sp_otp_num = 2\<rparr> 20"
    by code_simp
qed (simp add: INT_MAX_def)

subsection \<open>What a packet is\<close>

text \<open>
  What is assumed of the cryptographic library: digests have the documented size, and a cipher
  in CBC mode keeps the size of whole blocks and is undone by decryption with the same key and IV.
\<close>

definition bsecurity_ok :: "bsecurity \<Rightarrow> bool" where
  "bsecurity_ok sec \<longleftrightarrow>
     (\<forall>t x. BHash_type_valid t \<longrightarrow> length (BHash_calculate sec t x) = BHash_size t) \<and>
     (\<forall>c key iv x. BEncryption_cipher_valid c \<longrightarrow> length key = BEncryption_cipher_key_size c \<longrightarrow>
        length iv = BEncryption_cipher_block_size c \<longrightarrow> length x mod BEncryption_cipher_block_size c = 0 \<longrightarrow>
        length (BEncryption_Encrypt sec c key iv x) = length x \<and>
        BEncryption_Decrypt sec c key iv (BEncryption_Encrypt sec c key iv x) = x)"

text \<open>The packet for a payload: header and payload, and padded and encrypted behind the IV.\<close>

definition sp_otpdata :: "spproto_security_params \<Rightarrow> u16 \<Rightarrow> bytes \<Rightarrow> bytes" where
  "sp_otpdata p seed_id w = (if SPPROTO_HAVE_OTP p then badvpn_write_le16 seed_id @ w else [])"

definition sp_hash :: "bsecurity \<Rightarrow> spproto_security_params \<Rightarrow> bytes \<Rightarrow> bytes \<Rightarrow> bytes" where
  "sp_hash sec p pre payload =
     (if SPPROTO_HAVE_HASH p then BHash_calculate sec (sp_hash_mode p) (pre @ replicate (SPPROTO_HASH_SIZE p) 0 @ payload) else [])"

definition sp_plain :: "bsecurity \<Rightarrow> spproto_security_params \<Rightarrow> u16 \<Rightarrow> bytes \<Rightarrow> bytes \<Rightarrow> bytes" where
  "sp_plain sec p seed_id w payload =
     sp_otpdata p seed_id w @ sp_hash sec p (sp_otpdata p seed_id w) payload @ payload"

definition sp_pad :: "spproto_security_params \<Rightarrow> nat \<Rightarrow> nat" where
  "sp_pad p n = align_up (n + 1) (BEncryption_cipher_block_size (sp_encryption_mode p)) - (n + 1)"

definition sp_packet :: "bsecurity \<Rightarrow> spproto_security_params \<Rightarrow> bytes \<Rightarrow> bytes \<Rightarrow> bytes \<Rightarrow> bytes" where
  "sp_packet sec p key iv pt =
     (if SPPROTO_HAVE_ENCRYPTION p
      then iv @ BEncryption_Encrypt sec (sp_encryption_mode p) key iv (pt @ 1 # replicate (sp_pad p (length pt)) 0)
      else pt)"

lemma sp_otpdata_length: "length w = 4 \<Longrightarrow> length (sp_otpdata p seed_id w) = SPPROTO_HEADER_OTPDATA_LEN p"
  by (simp add: sp_otpdata_def SPPROTO_HEADER_OTPDATA_LEN_def wire_len)

lemma sp_hash_length:
  "bsecurity_ok sec \<Longrightarrow> spproto_assert_security_params p \<Longrightarrow> length (sp_hash sec p pre payload) = SPPROTO_HASH_SIZE p"
  by (auto simp: sp_hash_def SPPROTO_HASH_SIZE_def SPPROTO_HAVE_HASH_def bsecurity_ok_def spproto_assert_security_params_def)

lemma sp_plain_length:
  "bsecurity_ok sec \<Longrightarrow> spproto_assert_security_params p \<Longrightarrow> length w = 4 \<Longrightarrow>
   length (sp_plain sec p seed_id w payload) = SPPROTO_HEADER_LEN p + length payload"
  by (simp add: sp_plain_def sp_otpdata_length sp_hash_length SPPROTO_HEADER_LEN_def SPPROTO_HEADER_HASH_OFF_def)

lemma mem_write_mid: "length a = q \<Longrightarrow> length b = length b' \<Longrightarrow> mem_write (a @ b @ c) q b' = a @ b' @ c"
  by (simp add: mem_write_def)

lemma mem_read_mid: "length a = q \<Longrightarrow> length b = n \<Longrightarrow> mem_read (a @ b @ c) q n = b"
  by (simp add: mem_read_def)

lemma write_header_spec:
  assumes "bsecurity_ok sec" "spproto_assert_security_params (se_params ob)" "length X = SPPROTO_HEADER_LEN (se_params ob)"
  shows "spe_write_header sec h ob (X @ payload @ rest) (SPPROTO_HEADER_LEN (se_params ob) + length payload) =
    sp_plain sec (se_params ob) (se_tw_seed_id ob) (otp_bytes h (se_tw_otp ob)) payload @ rest"
proof -
  let ?p = "se_params ob" and ?w = "otp_bytes h (se_tw_otp ob)"
  let ?pre = "sp_otpdata ?p (se_tw_seed_id ob) ?w"
  define A where "A = take (SPPROTO_HEADER_OTPDATA_LEN ?p) X"
  define B where "B = drop (SPPROTO_HEADER_OTPDATA_LEN ?p) X"
  have X: "X = A @ B" by (simp add: A_def B_def)
  have len: "length A = SPPROTO_HEADER_OTPDATA_LEN ?p" "length B = SPPROTO_HASH_SIZE ?p"
    using assms(3) by (simp_all add: A_def B_def SPPROTO_HEADER_LEN_def SPPROTO_HEADER_HASH_OFF_def)
  have pre: "length ?pre = SPPROTO_HEADER_HASH_OFF ?p" by (simp add: sp_otpdata_length otp_bytes_def SPPROTO_HEADER_HASH_OFF_def)
  have otp: "(if SPPROTO_HAVE_OTP ?p then mem_write (X @ payload @ rest) 0 (host_store h 2 (htol16 h (se_tw_seed_id ob)) @ host_store h 4 (se_tw_otp ob))
      else X @ payload @ rest) = ?pre @ B @ payload @ rest"
    using len(1) X mem_write_mid [of "[]" 0 A "badvpn_write_le16 (se_tw_seed_id ob) @ ?w" "B @ payload @ rest"]
    by (auto simp: sp_otpdata_def host_store_htol16 otp_bytes_def SPPROTO_HEADER_OTPDATA_LEN_def wire_len split: if_splits)
  have z: "mem_write (?pre @ B @ payload @ rest) (SPPROTO_HEADER_HASH_OFF ?p) (replicate (SPPROTO_HASH_SIZE ?p) 0) =
      ?pre @ replicate (SPPROTO_HASH_SIZE ?p) 0 @ payload @ rest"
    using pre len(2) by (intro mem_write_mid) simp_all
  have t: "take (SPPROTO_HEADER_LEN ?p + length payload) (?pre @ replicate (SPPROTO_HASH_SIZE ?p) 0 @ payload @ rest) =
      ?pre @ replicate (SPPROTO_HASH_SIZE ?p) 0 @ payload"
    using pre by (simp add: SPPROTO_HEADER_LEN_def)
  show ?thesis
  proof (cases "SPPROTO_HAVE_HASH ?p")
    case True
    have "length (sp_hash sec ?p ?pre payload) = SPPROTO_HASH_SIZE ?p" by (rule sp_hash_length [OF assms(1,2)])
    then show ?thesis using True pre unfolding spe_write_header_def Let_def otp z t sp_plain_def
      by (simp add: mem_write_mid sp_hash_def)
  next
    case False
    then have "B = []" using len(2) by (simp add: SPPROTO_HASH_SIZE_def)
    then show ?thesis using False unfolding spe_write_header_def Let_def otp sp_plain_def by (simp add: sp_hash_def)
  qed
qed

lemma read_padding_spec:
  "j \<le> k \<Longrightarrow> stop \<le> int (length X) \<Longrightarrow>
   read_padding (X @ 1 # replicate k 0) (int (length X + j)) stop = Inr (length X)"
proof (induction j)
  case 0
  then show ?case by (subst read_padding.simps) simp
next
  case (Suc j)
  have "(X @ 1 # replicate k (0 :: u8)) ! (length X + Suc j) = 0" using Suc.prems by (simp add: nth_append)
  moreover have "nat (1 + (int (length X) + int j)) = Suc (length X + j)" by simp
  ultimately show ?case using Suc by (subst read_padding.simps) simp
qed

lemma align_up_facts:
  assumes "0 < n" "x + n < 2 ^ 64"
  shows "align_up x n mod n = 0" "x \<le> align_up x n" "align_up x n < x + n"
proof -
  show "align_up x n mod n = 0" "x \<le> align_up x n" using assms by (simp_all add: align_up_eq bdivide_up_ge)
  have "bdivide_up x n \<le> x div n \<or> 0 < x mod n \<and> bdivide_up x n = x div n + 1" by (simp add: bdivide_up_def)
  then have "n * bdivide_up x n \<le> n * (x div n) \<or> 0 < x mod n \<and> n * bdivide_up x n = n * (x div n) + n" by auto
  moreover have "n * (x div n) + x mod n = x" by simp
  ultimately have "n * bdivide_up x n < x + n" using assms(1) by linarith
  then show "align_up x n < x + n" using align_up_eq [OF assms] by simp
qed

text \<open>A payload that the carrier has room for stays within the range of \<open>int\<close>.\<close>

definition fits :: "spproto_security_params \<Rightarrow> nat \<Rightarrow> bool" where
  "fits p n \<longleftrightarrow> 0 \<le> spproto_carrier_mtu_for_payload_mtu p n"

lemma fits_mono: "fits p n \<Longrightarrow> m \<le> n \<Longrightarrow> fits p m"
  by (auto simp: fits_def spproto_carrier_mtu_for_payload_mtu_def Let_def split: if_splits)

lemma padded:
  assumes "spproto_assert_security_params p" "SPPROTO_HAVE_ENCRYPTION p" "fits p n"
  defines "b \<equiv> BEncryption_cipher_block_size (sp_encryption_mode p)" and "m \<equiv> SPPROTO_HEADER_LEN p + n"
  shows "(m + 1 + sp_pad p m) mod b = 0" "sp_pad p m < b" "m + 1 + sp_pad p m = align_up (m + 1) b" "0 < b"
    "spproto_carrier_mtu_for_payload_mtu p n = int (b + (m + 1 + sp_pad p m))"
proof -
  have b: "0 < b" "b \<le> 16" using block_size_pos [OF assms(1,2)] by (simp_all add: b_def)
  have room: "\<not> int n > INT_MAX - int (b + SPPROTO_HEADER_LEN p + b)"
    using assms(2,3) by (auto simp: fits_def SPPROTO_HAVE_ENCRYPTION_def spproto_carrier_mtu_for_payload_mtu_def Let_def b_def split: if_splits)
  then have "m + 1 + b < 2 ^ 64" using b header_len_le [of p] by (simp add: m_def INT_MAX_def)
  note f = align_up_facts [OF b(1) this]
  show eq: "m + 1 + sp_pad p m = align_up (m + 1) b" using f(2) by (simp add: sp_pad_def b_def)
  show "(m + 1 + sp_pad p m) mod b = 0" "sp_pad p m < b" "0 < b" using f eq b by simp_all
  show "spproto_carrier_mtu_for_payload_mtu p n = int (b + (m + 1 + sp_pad p m))"
    using assms(2) room unfolding eq by (simp add: SPPROTO_HAVE_ENCRYPTION_def spproto_carrier_mtu_for_payload_mtu_def Let_def b_def m_def)
qed

lemma align_up_mono_fits:
  assumes "spproto_assert_security_params p" "SPPROTO_HAVE_ENCRYPTION p" "fits p n" "m \<le> n"
  shows "align_up (SPPROTO_HEADER_LEN p + m + 1) (BEncryption_cipher_block_size (sp_encryption_mode p)) \<le>
    align_up (SPPROTO_HEADER_LEN p + n + 1) (BEncryption_cipher_block_size (sp_encryption_mode p))"
proof -
  let ?b = "BEncryption_cipher_block_size (sp_encryption_mode p)"
  have b: "0 < ?b" "?b \<le> 16" using block_size_pos [OF assms(1,2)] by simp_all
  have "int n \<le> INT_MAX"
    using assms(2,3) by (auto simp: fits_def SPPROTO_HAVE_ENCRYPTION_def spproto_carrier_mtu_for_payload_mtu_def Let_def split: if_splits)
  then show ?thesis using assms(4) b header_len_le [of p] by (simp add: align_up_eq bdivide_up_mono INT_MAX_def)
qed

lemma bsecurity_cipher:
  assumes "bsecurity_ok sec" "spproto_assert_security_params p" "SPPROTO_HAVE_ENCRYPTION p"
    "length key = BEncryption_cipher_key_size (sp_encryption_mode p)" "length iv = BEncryption_cipher_block_size (sp_encryption_mode p)"
    "length x mod BEncryption_cipher_block_size (sp_encryption_mode p) = 0"
  shows "length (BEncryption_Encrypt sec (sp_encryption_mode p) key iv x) = length x"
    "BEncryption_Decrypt sec (sp_encryption_mode p) key iv (BEncryption_Encrypt sec (sp_encryption_mode p) key iv x) = x"
  using assms by (simp_all add: bsecurity_ok_def spproto_assert_security_params_def SPPROTO_HAVE_ENCRYPTION_def)

text \<open>The key and the IV have the sizes that the cipher asks for.\<close>

definition sp_keys_ok :: "spproto_security_params \<Rightarrow> bytes \<Rightarrow> bytes \<Rightarrow> bool" where
  "sp_keys_ok p key iv \<longleftrightarrow> (SPPROTO_HAVE_ENCRYPTION p \<longrightarrow>
     length key = BEncryption_cipher_key_size (sp_encryption_mode p) \<and>
     length iv = BEncryption_cipher_block_size (sp_encryption_mode p))"

lemma sp_packet_length:
  assumes "bsecurity_ok sec" "spproto_assert_security_params p" "sp_keys_ok p key iv" "length w = 4" "fits p (length payload)"
  shows "int (length (sp_packet sec p key iv (sp_plain sec p seed_id w payload))) = spproto_carrier_mtu_for_payload_mtu p (length payload)"
proof (cases "SPPROTO_HAVE_ENCRYPTION p")
  case True
  note pad = padded [OF assms(2) True assms(5)] and pl = sp_plain_length [OF assms(1,2,4), of seed_id payload]
  show ?thesis using True assms(3) pad pl bsecurity_cipher(1) [OF assms(1,2) True, of key iv]
    by (simp add: sp_packet_def sp_keys_ok_def)
next
  case False
  then show ?thesis using sp_plain_length [OF assms(1,2,4), of seed_id payload] assms(5)
    by (auto simp: sp_packet_def SPPROTO_HAVE_ENCRYPTION_def fits_def spproto_carrier_mtu_for_payload_mtu_def split: if_splits)
qed

lemma plaintext_of_packet:
  assumes "bsecurity_ok sec" "spproto_assert_security_params (sd_params d)" "sp_keys_ok (sd_params d) key iv" "fits (sd_params d) n"
    "SPPROTO_HAVE_ENCRYPTION (sd_params d) \<Longrightarrow> sd_key d = Some key" "length pt = SPPROTO_HEADER_LEN (sd_params d) + n"
  shows "spd_plaintext sec d (sp_packet sec (sd_params d) key iv pt) = Inr pt"
proof (cases "SPPROTO_HAVE_ENCRYPTION (sd_params d)")
  case True
  let ?p = "sd_params d" and ?b = "BEncryption_cipher_block_size (sp_encryption_mode (sd_params d))"
  let ?k = "sp_pad ?p (length pt)"
  let ?x = "pt @ 1 # replicate ?k 0"
  note pad = padded [OF assms(2) True assms(4), folded assms(6)]
  have iv: "length key = BEncryption_cipher_key_size (sp_encryption_mode ?p)" "length iv = ?b" using True assms(3) by (simp_all add: sp_keys_ok_def)
  note enc = bsecurity_cipher [OF assms(1,2) True iv, of ?x]
  have lx: "length ?x mod ?b = 0" "length ?x = length pt + 1 + ?k" using pad(1) by simp_all
  have "?b dvd length ?x" using lx(1) by (simp add: mod_eq_0_iff_dvd)
  then have "?b \<le> length ?x" by (rule dvd_imp_le) simp
  moreover have "read_padding ?x (int (length ?x) - 1) (int (length ?x) - int ?b) = Inr (length pt)"
    using read_padding_spec [of ?k ?k "int (length ?x) - int ?b" pt] pad(2) by simp
  moreover have "Suc (?b + (length pt + ?k)) mod ?b = 0" using lx mod_add_self1 [of ?b "length ?x"] by simp
  ultimately show ?thesis using True assms(5) enc [OF lx(1)] iv(2) unfolding spd_plaintext_def Let_def sp_packet_def by simp
next
  case False
  then show ?thesis by (simp add: spd_plaintext_def sp_packet_def)
qed

lemma decode_packet:
  assumes "bsecurity_ok sec" "spproto_assert_security_params (sd_params d)" "sp_keys_ok (sd_params d) key iv" "length w = 4"
    "fits (sd_params d) (length payload)" "length payload \<le> sd_output_mtu d" "SPPROTO_HAVE_ENCRYPTION (sd_params d) \<Longrightarrow> sd_key d = Some key"
  shows "spd_decode_work_func sec h d (sp_packet sec (sd_params d) key iv (sp_plain sec (sd_params d) seed_id w payload)) =
    Inr (if SPPROTO_HAVE_OTP (sd_params d) then seed_id else 0, if SPPROTO_HAVE_OTP (sd_params d) then host_load h w else 0, payload)"
proof -
  let ?p = "sd_params d"
  let ?pt = "sp_plain sec ?p seed_id w payload" and ?pre = "sp_otpdata ?p seed_id w"
  let ?hash = "sp_hash sec ?p ?pre payload"
  have pl: "length ?pt = SPPROTO_HEADER_LEN ?p + length payload" by (rule sp_plain_length [OF assms(1,2,4)])
  have pt: "spd_plaintext sec d (sp_packet sec ?p key iv ?pt) = Inr ?pt"
    using assms(1-3,5,7) pl by (intro plaintext_of_packet)
  have len: "length ?pre = SPPROTO_HEADER_HASH_OFF ?p" "length ?hash = SPPROTO_HASH_SIZE ?p"
    using sp_otpdata_length [OF assms(4), of ?p seed_id] sp_hash_length [OF assms(1,2)] by (simp_all add: SPPROTO_HEADER_HASH_OFF_def)
  have z: "mem_write ?pt (SPPROTO_HEADER_HASH_OFF ?p) (replicate (SPPROTO_HASH_SIZE ?p) 0) = ?pre @ replicate (SPPROTO_HASH_SIZE ?p) 0 @ payload"
    "mem_read ?pt (SPPROTO_HEADER_HASH_OFF ?p) (SPPROTO_HASH_SIZE ?p) = ?hash"
    using len unfolding sp_plain_def by (simp_all add: mem_write_mid mem_read_mid)
  have "SPPROTO_HAVE_OTP ?p \<Longrightarrow> mem_read ?pt 0 2 = badvpn_write_le16 seed_id \<and> mem_read ?pt 2 4 = w"
    using assms(4) by (simp add: sp_plain_def sp_otpdata_def mem_read_def wire_len)
  moreover have "drop (SPPROTO_HEADER_LEN ?p) ?pt = payload" using len by (simp add: sp_plain_def SPPROTO_HEADER_LEN_def)
  moreover have "SPPROTO_HAVE_HASH ?p \<Longrightarrow> BHash_calculate sec (sp_hash_mode ?p) (?pre @ replicate (SPPROTO_HASH_SIZE ?p) 0 @ payload) = ?hash"
    by (simp add: sp_hash_def)
  moreover have "ltoh16 h (host_load h (badvpn_write_le16 seed_id)) = seed_id"
    unfolding host_store_htol16 [of h, symmetric] by (simp add: host_load_store ltoh_htol)
  ultimately show ?thesis unfolding spd_decode_work_func_def pt Let_def using assms(6) pl len by (simp add: z)
qed

subsection \<open>One packet through the encoder and the decoder\<close>

text \<open>
  The whole way of a packet: the output asks for one, the input delivers the payload, the work
  function runs and its result is collected. \<open>out\<close> is the output memory.
\<close>

definition spproto_encode :: "bsecurity \<Rightarrow> host \<Rightarrow> bytes \<Rightarrow> bytes \<Rightarrow> bytes \<Rightarrow> SPProtoEncoder \<Rightarrow> (SPProtoEncoder \<times> bytes) option" where
  "spproto_encode sec h out iv payload ob =
     Option.bind (spe_output_handler_recv ob out) (\<lambda>ob. Option.bind (spe_input_handler_done ob payload)
       (\<lambda>ob. Option.bind (spe_encode_work_func sec h iv ob) spe_encode_work_handler))"

text \<open>A packet at the decoder; one that is passed on is consumed by the output.\<close>

definition spproto_decode :: "bsecurity \<Rightarrow> host \<Rightarrow> bytes \<Rightarrow> SPProtoDecoder \<Rightarrow> (SPProtoDecoder \<times> bytes option) option" where
  "spproto_decode sec h data ob =
     Option.bind (spd_input_handler_send ob data) (\<lambda>ob.
       Option.bind (spd_decode_work_handler ob (spd_decode_work_func sec h ob data)) (\<lambda>(ob, r).
         case r of None \<Rightarrow> Some (ob, None)
         | Some payload \<Rightarrow> map_option (\<lambda>ob. (ob, Some payload)) (spd_output_handler_done ob)))"

definition spe_idle :: "SPProtoEncoder \<Rightarrow> bool" where
  "spe_idle ob \<longleftrightarrow> se_in_len ob = None \<and> se_out ob = None \<and> \<not> se_tw_have ob"

text \<open>The sizes that the initialiser sets up and that the environment respects.\<close>

definition spe_sizes :: "SPProtoEncoder \<Rightarrow> bool" where
  "spe_sizes ob \<longleftrightarrow> spproto_assert_security_params (se_params ob) \<and> fits (se_params ob) (se_input_mtu ob) \<and>
     se_output_mtu ob = spproto_carrier_mtu_for_payload_mtu (se_params ob) (se_input_mtu ob) \<and>
     (SPPROTO_HAVE_ENCRYPTION (se_params ob) \<longrightarrow> length (se_buf ob) = align_up (SPPROTO_HEADER_LEN (se_params ob) + se_input_mtu ob + 1)
        (BEncryption_cipher_block_size (sp_encryption_mode (se_params ob))))"

definition spe_next_otp :: "SPProtoEncoder \<Rightarrow> otp" where
  "spe_next_otp ob = snd (OTPGenerator_GetOTP (se_otpgen ob))"

definition spe_after :: "SPProtoEncoder \<Rightarrow> SPProtoEncoder \<Rightarrow> bool" where
  "spe_after ob ob' \<longleftrightarrow> spe_idle ob' \<and> spe_sizes ob' \<and> se_params ob' = se_params ob \<and> se_input_mtu ob' = se_input_mtu ob \<and>
     se_output_mtu ob' = se_output_mtu ob \<and> se_key ob' = se_key ob \<and> se_otpgen_seed_id ob' = se_otpgen_seed_id ob \<and>
     se_otpgen ob' = (if SPPROTO_HAVE_OTP (se_params ob) then fst (OTPGenerator_GetOTP (se_otpgen ob)) else se_otpgen ob)"

lemma encode_packet_fields:
  "se_params (spe_encode_packet ob) = se_params ob" "se_input_mtu (spe_encode_packet ob) = se_input_mtu ob"
  "se_output_mtu (spe_encode_packet ob) = se_output_mtu ob" "se_key (spe_encode_packet ob) = se_key ob"
  "se_buf (spe_encode_packet ob) = se_buf ob" "se_out (spe_encode_packet ob) = se_out ob"
  "se_in_len (spe_encode_packet ob) = se_in_len ob" "se_tw_have (spe_encode_packet ob)"
  "se_otpgen_seed_id (spe_encode_packet ob) = se_otpgen_seed_id ob"
  "se_otpgen (spe_encode_packet ob) = (if SPPROTO_HAVE_OTP (se_params ob) then fst (OTPGenerator_GetOTP (se_otpgen ob)) else se_otpgen ob)"
  "SPPROTO_HAVE_OTP (se_params ob) \<Longrightarrow> se_tw_seed_id (spe_encode_packet ob) = se_otpgen_seed_id ob"
  "SPPROTO_HAVE_OTP (se_params ob) \<Longrightarrow> se_tw_otp (spe_encode_packet ob) = spe_next_otp ob"
  by (simp_all add: spe_encode_packet_def Let_def spe_next_otp_def split: prod.split)

text \<open>The work function on a plaintext memory that holds the payload behind the header.\<close>

lemma encode_work_func_spec:
  assumes "bsecurity_ok sec" "spe_sizes ob" "se_in_len ob = Some (length payload)" "se_out ob = Some out"
    "length payload \<le> se_input_mtu ob" "sp_keys_ok (se_params ob) (the (se_key ob)) iv"
    "SPPROTO_HAVE_ENCRYPTION (se_params ob) \<Longrightarrow> se_key ob \<noteq> None" "int (length out) = se_output_mtu ob"
    "spe_write_header sec h ob (spe_plaintext ob) (SPPROTO_HEADER_LEN (se_params ob) + length payload) =
       sp_plain sec (se_params ob) seed_id w payload @ rest" "length w = 4"
    "length (spe_plaintext ob) = SPPROTO_HEADER_LEN (se_params ob) + length payload + length rest"
  defines "pkt \<equiv> sp_packet sec (se_params ob) (the (se_key ob)) iv (sp_plain sec (se_params ob) seed_id w payload)"
  shows "\<exists>buf rest'. spe_encode_work_func sec h iv ob = Some (ob\<lparr>se_buf := buf, se_out := Some (pkt @ rest'), se_tw_out_len := length pkt\<rparr>) \<and>
    length buf = length (se_buf ob)"
proof -
  let ?p = "se_params ob" and ?pt = "sp_plain sec (se_params ob) seed_id w payload"
  have ap: "spproto_assert_security_params ?p" and fit: "fits ?p (se_input_mtu ob)" using assms(2) by (simp_all add: spe_sizes_def)
  note wh = assms(9)
  have pl: "length ?pt = SPPROTO_HEADER_LEN ?p + length payload" by (rule sp_plain_length [OF assms(1) ap assms(10)])
  show ?thesis
  proof (cases "SPPROTO_HAVE_ENCRYPTION ?p")
    case False
    then have "spe_encode_work_func sec h iv ob = Some (ob\<lparr>se_buf := se_buf ob, se_out := Some (pkt @ rest), se_tw_out_len := length pkt\<rparr>)"
      using assms(3-5) pl wh by (simp add: spe_encode_work_func_def spe_set_plaintext_def pkt_def sp_packet_def Let_def)
    then show ?thesis by blast
  next
    case True
    let ?b = "BEncryption_cipher_block_size (sp_encryption_mode ?p)"
    let ?k = "sp_pad ?p (length ?pt)"
    let ?x = "?pt @ 1 # replicate ?k 0"
    let ?c = "BEncryption_Encrypt sec (sp_encryption_mode ?p) (the (se_key ob)) iv ?x"
    note pad = padded [OF ap True fits_mono [OF fit assms(5)], folded pl]
    have iv: "length (the (se_key ob)) = BEncryption_cipher_key_size (sp_encryption_mode ?p)" "length iv = ?b"
      using True assms(6) by (simp_all add: sp_keys_ok_def)
    have el: "length ?c = length ?x" using bsecurity_cipher(1) [OF assms(1) ap True iv, of ?x] pad(1) by simp
    have pkt: "pkt = iv @ ?c" using True by (simp add: pkt_def sp_packet_def)
    have "length ?x \<le> length (se_buf ob)"
      using pad(3) align_up_mono_fits [OF ap True fit assms(5)] True assms(2) pl by (simp add: spe_sizes_def)
    then have room: "?k + 1 \<le> length rest" using assms(11) True pl by (simp add: spe_plaintext_def)
    have wr: "mem_write (?pt @ rest) (length ?pt) (1 # replicate ?k 0) = ?x @ drop (?k + 1) rest" by (simp add: mem_write_def)
    have out: "mem_write (mem_write out 0 iv) ?b ?c = pkt @ drop (length pkt) out"
      using iv(2) by (simp add: mem_write_def pkt add.commute)
    have len: "align_up (length ?pt + 1) ?b = length ?x" using pad(3) by simp
    have ppad: "align_up (length ?pt + 1) ?b - (length ?pt + 1) = ?k" using len by simp
    have "spe_encode_work_func sec h iv ob = Some (ob\<lparr>se_buf := ?x @ drop (?k + 1) rest, se_out := Some (pkt @ drop (length pkt) out), se_tw_out_len := length pkt\<rparr>)"
      unfolding spe_encode_work_func_def assms(3,4) prod.case option.case Let_def wh unfolding pl [symmetric] ppad wr
      using True assms(5,7) iv(2) el len out by (simp add: spe_set_plaintext_def pkt)
    moreover have "length (?x @ drop (?k + 1) rest) = length (se_buf ob)" using room pl assms(11) True by (simp add: spe_plaintext_def)
    ultimately show ?thesis by blast
  qed
qed

lemma set_plaintext_fields [simp]:
  "se_params (spe_set_plaintext pt ob) = se_params ob" "se_input_mtu (spe_set_plaintext pt ob) = se_input_mtu ob"
  "se_output_mtu (spe_set_plaintext pt ob) = se_output_mtu ob" "se_key (spe_set_plaintext pt ob) = se_key ob"
  "se_in_len (spe_set_plaintext pt ob) = se_in_len ob" "se_tw_have (spe_set_plaintext pt ob) = se_tw_have ob"
  "se_otpgen (spe_set_plaintext pt ob) = se_otpgen ob" "se_otpgen_seed_id (spe_set_plaintext pt ob) = se_otpgen_seed_id ob"
  "se_buf (spe_set_plaintext pt ob) = (if SPPROTO_HAVE_ENCRYPTION (se_params ob) then pt else se_buf ob)"
  "se_out (spe_set_plaintext pt ob) = (if SPPROTO_HAVE_ENCRYPTION (se_params ob) then se_out ob else Some pt)"
  by (simp_all add: spe_set_plaintext_def)

lemma plaintext_room:
  assumes "spproto_assert_security_params p" "fits p mtu" "n \<le> mtu" "int (length out) = spproto_carrier_mtu_for_payload_mtu p mtu"
    "SPPROTO_HAVE_ENCRYPTION p \<longrightarrow> length buf = align_up (SPPROTO_HEADER_LEN p + mtu + 1) (BEncryption_cipher_block_size (sp_encryption_mode p))"
  shows "SPPROTO_HEADER_LEN p + n \<le> length (if SPPROTO_HAVE_ENCRYPTION p then buf else out)"
proof (cases "SPPROTO_HAVE_ENCRYPTION p")
  case True
  then show ?thesis using padded(3) [OF assms(1) True assms(2)] assms(3,5) by simp
next
  case False
  then show ?thesis using assms(2-4)
    by (auto simp: SPPROTO_HAVE_ENCRYPTION_def fits_def spproto_carrier_mtu_for_payload_mtu_def split: if_splits)
qed

text \<open>The encoder once it has a payload and started to work on it.\<close>

definition spe_working :: "bsecurity \<Rightarrow> host \<Rightarrow> bytes \<Rightarrow> SPProtoEncoder \<Rightarrow> SPProtoEncoder \<Rightarrow> bytes \<Rightarrow> bool" where
  "spe_working sec h payload ob ob1 rest \<longleftrightarrow>
     se_params ob1 = se_params ob \<and> se_input_mtu ob1 = se_input_mtu ob \<and> se_output_mtu ob1 = se_output_mtu ob \<and>
     se_key ob1 = se_key ob \<and> se_in_len ob1 = Some (length payload) \<and> se_tw_have ob1 \<and> spe_sizes ob1 \<and>
     se_otpgen_seed_id ob1 = se_otpgen_seed_id ob \<and>
     se_otpgen ob1 = (if SPPROTO_HAVE_OTP (se_params ob) then fst (OTPGenerator_GetOTP (se_otpgen ob)) else se_otpgen ob) \<and>
     length (spe_plaintext ob1) = SPPROTO_HEADER_LEN (se_params ob) + length payload + length rest \<and>
     spe_write_header sec h ob1 (spe_plaintext ob1) (SPPROTO_HEADER_LEN (se_params ob) + length payload) =
       sp_plain sec (se_params ob) (se_otpgen_seed_id ob) (otp_bytes h (spe_next_otp ob)) payload @ rest"

lemma encode_start:
  assumes sec: "bsecurity_ok sec" and sizes: "spe_sizes ob" and idle: "spe_idle ob" and can: "spe_can_encode ob"
    and len: "length payload \<le> se_input_mtu ob" "int (length out) = se_output_mtu ob"
  shows "\<exists>ob1 out1 rest. Option.bind (spe_output_handler_recv ob out) (\<lambda>ob. spe_input_handler_done ob payload) = Some ob1 \<and>
    se_out ob1 = Some out1 \<and> length out1 = length out \<and> spe_working sec h payload ob ob1 rest"
proof -
  let ?p = "se_params ob" and ?H = "SPPROTO_HEADER_LEN (se_params ob)"
  let ?m = "if SPPROTO_HAVE_ENCRYPTION ?p then se_buf ob else out"
  define ob1 where "ob1 = spe_encode_packet (spe_set_plaintext (mem_write ?m ?H payload) (ob\<lparr>se_out := Some out\<rparr>)\<lparr>se_in_len := Some (length payload)\<rparr>)"
  have m: "?H + length payload \<le> length ?m"
    using sizes len(1) by (intro plaintext_room) (auto simp: spe_sizes_def len(2) [symmetric])
  define X where "X = take ?H ?m"
  define rest where "rest = drop (?H + length payload) ?m"
  have w: "mem_write ?m ?H payload = X @ payload @ rest" by (simp add: mem_write_def X_def rest_def)
  have X: "length X = ?H" "length (X @ payload @ rest) = length ?m" using m by (simp_all add: X_def rest_def)
  have st: "Option.bind (spe_output_handler_recv ob out) (\<lambda>ob. spe_input_handler_done ob payload) = Some ob1"
    using idle can len by (simp add: spe_output_handler_recv_def spe_input_handler_done_def spe_idle_def Let_def spe_can_encode_def
        spe_plaintext_def ob1_def)
  have pt: "spe_plaintext ob1 = X @ payload @ rest" by (simp add: spe_plaintext_def encode_packet_fields w ob1_def)
  have ff: "se_params ob1 = ?p" "se_input_mtu ob1 = se_input_mtu ob" "se_output_mtu ob1 = se_output_mtu ob" "se_key ob1 = se_key ob"
    "se_in_len ob1 = Some (length payload)" "se_out ob1 = Some (if SPPROTO_HAVE_ENCRYPTION ?p then out else X @ payload @ rest)"
    "length (se_buf ob1) = length (se_buf ob)" "se_tw_have ob1" "se_otpgen_seed_id ob1 = se_otpgen_seed_id ob"
    "se_otpgen ob1 = (if SPPROTO_HAVE_OTP ?p then fst (OTPGenerator_GetOTP (se_otpgen ob)) else se_otpgen ob)"
    using X(2) by (auto simp: encode_packet_fields w ob1_def)
  have "sp_otpdata ?p (se_tw_seed_id ob1) (otp_bytes h (se_tw_otp ob1)) = sp_otpdata ?p (se_otpgen_seed_id ob) (otp_bytes h (spe_next_otp ob))"
    by (cases "SPPROTO_HAVE_OTP ?p") (simp_all add: sp_otpdata_def encode_packet_fields spe_next_otp_def ob1_def)
  then have "spe_write_header sec h ob1 (spe_plaintext ob1) (?H + length payload) =
      sp_plain sec ?p (se_otpgen_seed_id ob) (otp_bytes h (spe_next_otp ob)) payload @ rest"
    using write_header_spec [OF sec, of ob1 X h payload rest] sizes X(1) unfolding pt by (simp add: ff sp_plain_def spe_sizes_def)
  moreover have "spe_sizes ob1" using sizes unfolding spe_sizes_def ff .
  ultimately have "spe_working sec h payload ob ob1 rest" using ff X pt by (simp add: spe_working_def)
  moreover have "length (if SPPROTO_HAVE_ENCRYPTION ?p then out else X @ payload @ rest) = length out" using X(2) by simp
  ultimately show ?thesis using st ff(6) by blast
qed

lemma encode_spec:
  assumes sec: "bsecurity_ok sec" and sizes: "spe_sizes ob" and idle: "spe_idle ob" and can: "spe_can_encode ob"
    and len: "length payload \<le> se_input_mtu ob" "int (length out) = se_output_mtu ob"
    and keys: "sp_keys_ok (se_params ob) (the (se_key ob)) iv"
  shows "\<exists>ob'. spproto_encode sec h out iv payload ob = Some (ob', sp_packet sec (se_params ob) (the (se_key ob)) iv
      (sp_plain sec (se_params ob) (se_otpgen_seed_id ob) (otp_bytes h (spe_next_otp ob)) payload)) \<and> spe_after ob ob'"
proof -
  let ?pkt = "sp_packet sec (se_params ob) (the (se_key ob)) iv
      (sp_plain sec (se_params ob) (se_otpgen_seed_id ob) (otp_bytes h (spe_next_otp ob)) payload)"
  obtain ob1 out1 rest where st: "Option.bind (spe_output_handler_recv ob out) (\<lambda>ob. spe_input_handler_done ob payload) = Some ob1"
    and out1: "se_out ob1 = Some out1" "length out1 = length out" and "spe_working sec h payload ob ob1 rest"
    using encode_start [OF assms(1-6)] by blast
  then have ff: "se_params ob1 = se_params ob" "se_input_mtu ob1 = se_input_mtu ob" "se_output_mtu ob1 = se_output_mtu ob"
    "se_key ob1 = se_key ob" and wk: "se_in_len ob1 = Some (length payload)" "se_tw_have ob1" "spe_sizes ob1"
    "se_otpgen_seed_id ob1 = se_otpgen_seed_id ob"
    "se_otpgen ob1 = (if SPPROTO_HAVE_OTP (se_params ob) then fst (OTPGenerator_GetOTP (se_otpgen ob)) else se_otpgen ob)"
    and hdr: "length (spe_plaintext ob1) = SPPROTO_HEADER_LEN (se_params ob) + length payload + length rest"
    "spe_write_header sec h ob1 (spe_plaintext ob1) (SPPROTO_HEADER_LEN (se_params ob) + length payload) =
       sp_plain sec (se_params ob) (se_otpgen_seed_id ob) (otp_bytes h (spe_next_otp ob)) payload @ rest"
    unfolding spe_working_def by blast+
  have "\<exists>buf rest'. spe_encode_work_func sec h iv ob1 = Some (ob1\<lparr>se_buf := buf, se_out := Some (?pkt @ rest'), se_tw_out_len := length ?pkt\<rparr>) \<and>
      length buf = length (se_buf ob1)"
    using encode_work_func_spec [OF sec wk(3,1) out1(1), unfolded ff, OF len(1) keys _ _ hdr(2) _ hdr(1)] can len(2) out1(2)
    by (simp add: spe_can_encode_def otp_bytes_def)
  then obtain buf rest' where wf: "spe_encode_work_func sec h iv ob1 = Some (ob1\<lparr>se_buf := buf, se_out := Some (?pkt @ rest'), se_tw_out_len := length ?pkt\<rparr>)"
    "length buf = length (se_buf ob1)" by blast
  let ?ob' = "ob1\<lparr>se_buf := buf, se_out := None, se_tw_out_len := length ?pkt, se_tw_have := False, se_in_len := None\<rparr>"
  have "spproto_encode sec h out iv payload ob = Option.bind (spe_encode_work_func sec h iv ob1) spe_encode_work_handler"
    unfolding spproto_encode_def using st by (cases "spe_output_handler_recv ob out") (auto simp: bind_eq_Some_conv)
  also have "\<dots> = Some (?ob', ?pkt)" using wk(1,2) by (simp add: wf(1) spe_encode_work_handler_def)
  finally have "spproto_encode sec h out iv payload ob = Some (?ob', ?pkt)" .
  moreover have "spe_after ob ?ob'" using wk ff wf(2) by (simp add: spe_after_def spe_idle_def spe_sizes_def)
  ultimately show ?thesis by blast
qed

lemma carrier_mtu_mono:
  assumes "spproto_assert_security_params p" "fits p n" "m \<le> n"
  shows "spproto_carrier_mtu_for_payload_mtu p m \<le> spproto_carrier_mtu_for_payload_mtu p n"
proof (cases "SPPROTO_HAVE_ENCRYPTION p")
  case True
  show ?thesis
    using padded(3,5) [OF assms(1) True fits_mono [OF assms(2,3)]] padded(3,5) [OF assms(1) True assms(2)]
      align_up_mono_fits [OF assms(1) True assms(2,3)] by (simp only: of_nat_le_iff add_le_cancel_left)
next
  case False
  then show ?thesis using assms(2,3)
    by (auto simp: SPPROTO_HAVE_ENCRYPTION_def fits_def spproto_carrier_mtu_for_payload_mtu_def split: if_splits)
qed

text \<open>A decoder that waits for a packet.\<close>

definition spd_ready :: "SPProtoDecoder \<Rightarrow> bytes \<Rightarrow> bool" where
  "spd_ready d key \<longleftrightarrow> spproto_assert_security_params (sd_params d) \<and> fits (sd_params d) (sd_output_mtu d) \<and>
     sd_input_mtu d = spproto_carrier_mtu_for_payload_mtu (sd_params d) (sd_output_mtu d) \<and> sd_in d = None \<and> \<not> sd_tw_have d \<and>
     (SPPROTO_HAVE_ENCRYPTION (sd_params d) \<longrightarrow> sd_key d = Some key)"

lemma decode_spec:
  assumes "bsecurity_ok sec" "spd_ready d key" "sp_keys_ok (sd_params d) key iv" "length w = 4" "length payload \<le> sd_output_mtu d"
    "SPPROTO_HAVE_OTP (sd_params d)" "OTPChecker_CheckOTP (sd_otpchecker d) seed_id (host_load h w) = Some (mc, r)"
  shows "spproto_decode sec h (sp_packet sec (sd_params d) key iv (sp_plain sec (sd_params d) seed_id w payload)) d =
    Some (d\<lparr>sd_otpchecker := mc\<rparr>, if r then Some payload else None)"
proof -
  let ?pkt = "sp_packet sec (sd_params d) key iv (sp_plain sec (sd_params d) seed_id w payload)"
  let ?d = "d\<lparr>sd_in := Some ?pkt, sd_tw_have := True\<rparr>"
  have r: "spproto_assert_security_params (sd_params d)" "fits (sd_params d) (sd_output_mtu d)"
    "sd_input_mtu d = spproto_carrier_mtu_for_payload_mtu (sd_params d) (sd_output_mtu d)" "sd_in d = None" "\<not> sd_tw_have d"
    "SPPROTO_HAVE_ENCRYPTION (sd_params d) \<longrightarrow> sd_key d = Some key" using assms(2) unfolding spd_ready_def by blast+
  note fit = fits_mono [OF r(2) assms(5)]
  have "int (length ?pkt) \<le> sd_input_mtu d"
    using sp_packet_length [OF assms(1) r(1) assms(3,4) fit, of seed_id] carrier_mtu_mono [OF r(1,2) assms(5)] r(3) by simp
  then have send: "spd_input_handler_send d ?pkt = Some ?d" using r(4,5) by (simp add: spd_input_handler_send_def)
  have "spd_decode_work_func sec h ?d ?pkt = Inr (seed_id, host_load h w, payload)"
    using decode_packet [OF assms(1), of ?d key iv w payload h seed_id] r assms(3-6) fit by simp
  moreover have "d\<lparr>sd_tw_have := False, sd_otpchecker := mc, sd_in := None\<rparr> = d\<lparr>sd_otpchecker := mc\<rparr>" using r(4,5) by (cases d) simp
  ultimately show ?thesis unfolding spproto_decode_def send using assms(6,7)
    by (cases r) (simp_all add: spd_decode_work_handler_def spd_output_handler_done_def)
qed

text \<open>
  C9: what the encoder makes of a payload, the decoder takes apart again: with any combination
  of hash, encryption and passwords, and on hosts of any byte orders, the packet fits the carrier
  that the encoder announced, and the decoder's work function returns the payload, the identifier
  of the seed and the bytes of the password that the generator handed out. The cryptographic
  library is assumed to have the documented sizes and decryption to undo encryption.
\<close>

theorem spproto_roundtrip:
  assumes "bsecurity_ok sec" "spe_sizes ob" "spe_idle ob" "spe_can_encode ob"
    and "length payload \<le> se_input_mtu ob" "int (length out) = se_output_mtu ob" "sp_keys_ok (se_params ob) (the (se_key ob)) iv"
    and "sd_params d = se_params ob" "sd_output_mtu d = se_input_mtu ob" "sd_key d = se_key ob"
  shows "\<exists>ob' pkt. spproto_encode sec h out iv payload ob = Some (ob', pkt) \<and> int (length pkt) \<le> se_output_mtu ob \<and>
    spd_decode_work_func sec h' d pkt =
      Inr (if SPPROTO_HAVE_OTP (se_params ob) then se_otpgen_seed_id ob else 0,
           if SPPROTO_HAVE_OTP (se_params ob) then host_load h' (otp_bytes h (snd (OTPGenerator_GetOTP (se_otpgen ob)))) else 0, payload)"
proof -
  let ?w = "otp_bytes h (spe_next_otp ob)"
  let ?pkt = "sp_packet sec (se_params ob) (the (se_key ob)) iv (sp_plain sec (se_params ob) (se_otpgen_seed_id ob) ?w payload)"
  obtain ob' where ob': "spproto_encode sec h out iv payload ob = Some (ob', ?pkt)" using encode_spec [OF assms(1-7)] by blast
  have s: "spproto_assert_security_params (se_params ob)" "fits (se_params ob) (se_input_mtu ob)"
    "se_output_mtu ob = spproto_carrier_mtu_for_payload_mtu (se_params ob) (se_input_mtu ob)" using assms(2) unfolding spe_sizes_def by blast+
  have w: "length ?w = 4" by (simp add: otp_bytes_def)
  have "int (length ?pkt) \<le> se_output_mtu ob"
    using sp_packet_length [OF assms(1) s(1) assms(7) w fits_mono [OF s(2) assms(5)]] carrier_mtu_mono [OF s(1,2) assms(5)] s(3) by simp
  moreover have "spd_decode_work_func sec h' d ?pkt = Inr (if SPPROTO_HAVE_OTP (se_params ob) then se_otpgen_seed_id ob else 0,
      if SPPROTO_HAVE_OTP (se_params ob) then host_load h' ?w else 0, payload)"
    using decode_packet [OF assms(1), of d "the (se_key ob)" iv ?w payload h' "se_otpgen_seed_id ob", unfolded assms(8-10)]
      s(1) assms(4,5,7) w fits_mono [OF s(2) assms(5)] by (auto simp: spe_can_encode_def)
  ultimately show ?thesis using ob' unfolding spe_next_otp_def by blast
qed

subsection \<open>Exactly once\<close>

text \<open>Runs of the encoder on output memories, IVs and payloads, and of the decoder on packets.\<close>

fun spe_run :: "bsecurity \<Rightarrow> host \<Rightarrow> (bytes \<times> bytes \<times> bytes) list \<Rightarrow> SPProtoEncoder \<Rightarrow> bytes list option" where
  "spe_run sec h [] ob = Some []"
| "spe_run sec h ((out, iv, payload) # jobs) ob =
     (case spproto_encode sec h out iv payload ob of None \<Rightarrow> None
      | Some (ob, pkt) \<Rightarrow> map_option ((#) pkt) (spe_run sec h jobs ob))"

fun spd_run :: "bsecurity \<Rightarrow> host \<Rightarrow> bytes list \<Rightarrow> SPProtoDecoder \<Rightarrow> bytes option list option" where
  "spd_run sec h [] ob = Some []"
| "spd_run sec h (pkt # pkts) ob =
     (case spproto_decode sec h pkt ob of None \<Rightarrow> None
      | Some (ob, r) \<Rightarrow> map_option ((#) r) (spd_run sec h pkts ob))"

text \<open>What a receiver that delivers each packet once makes of the packets \<open>js\<close> of a sender.\<close>

fun deliver_once :: "'a list \<Rightarrow> nat set \<Rightarrow> nat list \<Rightarrow> 'a option list" where
  "deliver_once ps seen [] = []"
| "deliver_once ps seen (j # js) = (if j \<in> seen then None else Some (ps ! j)) # deliver_once ps (insert j seen) js"

text \<open>An encoder and a decoder that got their keys and seeds, and whose seed work is done.\<close>

definition spe_configure ::
  "cipher_fn \<Rightarrow> (nat \<Rightarrow> nat \<Rightarrow> u16) \<Rightarrow> host \<Rightarrow> bytes \<Rightarrow> u16 \<Rightarrow> bytes \<Rightarrow> bytes \<Rightarrow> SPProtoEncoder \<Rightarrow> SPProtoEncoder" where
  "spe_configure encrypt rnd h key seed_id otp_key otp_iv ob =
     (let ob = (if SPPROTO_HAVE_ENCRYPTION (se_params ob) then SPProtoEncoder_SetEncryptionKey ob key else ob);
          ob = SPProtoEncoder_SetOTPSeed ob seed_id otp_key otp_iv
      in spe_otpgenerator_handler
           (ob\<lparr>se_otpgen := OTPGenerator_work_done_handler (OTPGenerator_work_func encrypt rnd h (se_otpgen ob))\<rparr>))"

definition spd_configure ::
  "cipher_fn \<Rightarrow> (nat \<Rightarrow> nat \<Rightarrow> u16) \<Rightarrow> host \<Rightarrow> bytes \<Rightarrow> u16 \<Rightarrow> bytes \<Rightarrow> bytes \<Rightarrow> SPProtoDecoder \<Rightarrow> SPProtoDecoder option" where
  "spd_configure encrypt rnd h key seed_id otp_key otp_iv ob =
     (let ob = (if SPPROTO_HAVE_ENCRYPTION (sd_params ob) then SPProtoDecoder_SetEncryptionKey ob key else ob);
          ob = SPProtoDecoder_AddOTPSeed ob seed_id otp_key otp_iv
      in map_option (\<lambda>mc. ob\<lparr>sd_otpchecker := OTPChecker_work_done_handler mc\<rparr>)
           (OTPChecker_work_func encrypt rnd h (sd_otpchecker ob)))"

lemma spe_run_spec:
  assumes sec: "bsecurity_ok sec" and otp: "SPPROTO_HAVE_OTP p"
  shows "\<lbrakk>se_params ob = p; spe_sizes ob; spe_idle ob; SPPROTO_HAVE_ENCRYPTION p \<longrightarrow> se_key ob = Some key;
      gen_position (se_otpgen ob) + length jobs \<le> sp_otp_num p;
      list_all (\<lambda>(out, iv, payload). length payload \<le> se_input_mtu ob \<and> int (length out) = se_output_mtu ob \<and> sp_keys_ok p key iv) jobs\<rbrakk> \<Longrightarrow>
    spe_run sec h jobs ob = Some (map (\<lambda>((out, iv, payload), otp). sp_packet sec p key iv
      (sp_plain sec p (se_otpgen_seed_id ob) (otp_bytes h otp) payload)) (zip jobs (get_otps (length jobs) (se_otpgen ob))))"
proof (induction jobs arbitrary: ob)
  case (Cons job jobs)
  obtain out iv payload where job: "job = (out, iv, payload)" by (cases job)
  have key: "SPPROTO_HAVE_ENCRYPTION p \<Longrightarrow> the (se_key ob) = key" using Cons.prems(4) by simp
  then have pk: "sp_packet sec p (the (se_key ob)) iv pt = sp_packet sec p key iv pt" for pt
    by (cases "SPPROTO_HAVE_ENCRYPTION p") (simp_all add: sp_packet_def)
  have keys: "sp_keys_ok p (the (se_key ob)) iv" using Cons.prems(6) key by (auto simp: job sp_keys_ok_def)
  have can: "spe_can_encode ob" using Cons.prems(1,4,5) by (simp add: spe_can_encode_def OTPGenerator_GetPosition_def)
  obtain ob' where ob': "spproto_encode sec h out iv payload ob = Some (ob', sp_packet sec p key iv
      (sp_plain sec p (se_otpgen_seed_id ob) (otp_bytes h (spe_next_otp ob)) payload))" and af: "spe_after ob ob'"
    using encode_spec [OF sec Cons.prems(2,3) can, of payload out iv h] Cons.prems(1,6) keys pk by (auto simp: job)
  have g: "get_otps (length (job # jobs)) (se_otpgen ob) = spe_next_otp ob # get_otps (length jobs) (se_otpgen ob')"
    using af otp Cons.prems(1) by (simp add: spe_after_def spe_next_otp_def split: prod.split)
  have "spe_run sec h jobs ob' = Some (map (\<lambda>((out, iv, payload), otp). sp_packet sec p key iv
      (sp_plain sec p (se_otpgen_seed_id ob') (otp_bytes h otp) payload)) (zip jobs (get_otps (length jobs) (se_otpgen ob'))))"
    using Cons.IH [of ob'] Cons.prems af otp by (simp add: spe_after_def OTPGenerator_GetOTP_def)
  moreover have "se_otpgen_seed_id ob' = se_otpgen_seed_id ob" using af by (simp add: spe_after_def)
  ultimately show ?case using ob' unfolding g unfolding job by simp
qed simp

lemma spd_run_spec:
  assumes sec: "bsecurity_ok sec" and otp: "SPPROTO_HAVE_OTP p"
  shows "\<lbrakk>sd_params d = p; spd_ready d key; checker_holds (sd_otpchecker d) seed_id M;
      list_all (\<lambda>(iv, w, payload). sp_keys_ok p key iv \<and> length w = 4 \<and> length payload \<le> sd_output_mtu d) xs\<rbrakk> \<Longrightarrow>
    spd_run sec h (map (\<lambda>(iv, w, payload). sp_packet sec p key iv (sp_plain sec p seed_id w payload)) xs) d =
    Some (map2 (\<lambda>r (iv, w, payload). if r then Some payload else None) (mset_checks M (map (\<lambda>(iv, w, payload). host_load h w) xs)) xs)"
proof (induction xs arbitrary: d M)
  case (Cons x xs)
  obtain iv w payload where x: "x = (iv, w, payload)" by (cases x)
  obtain mc where mc: "OTPChecker_CheckOTP (sd_otpchecker d) seed_id (host_load h w) = Some (mc, host_load h w \<in># M)"
    "checker_holds mc seed_id (M - {#host_load h w#})" using CheckOTP_holds [OF Cons.prems(3)] by blast
  have "spproto_decode sec h (sp_packet sec p key iv (sp_plain sec p seed_id w payload)) d =
      Some (d\<lparr>sd_otpchecker := mc\<rparr>, if host_load h w \<in># M then Some payload else None)"
    using decode_spec [OF sec Cons.prems(2), of iv w payload seed_id h mc] Cons.prems(1,4) otp mc(1) by (simp add: x)
  moreover have "spd_ready (d\<lparr>sd_otpchecker := mc\<rparr>) key" using Cons.prems(2) by (simp add: spd_ready_def)
  ultimately show ?case using Cons.IH [of "d\<lparr>sd_otpchecker := mc\<rparr>" "M - {#host_load h w#}"] Cons.prems(1,4) mc(2) by (simp add: x)
qed simp

text \<open>Distinct passwords identify the packets.\<close>

lemma mset_checks_deliver:
  assumes "distinct os" "length ps \<le> length os"
  shows "list_all (\<lambda>j. j < length ps) js \<Longrightarrow> seen \<subseteq> {..<length ps} \<Longrightarrow>
    map2 (\<lambda>r j. if r then Some (ps ! j) else None) (mset_checks (mset_set (set os - (!) os ` seen)) (map ((!) os) js)) js =
    deliver_once ps seen js"
proof (induction js arbitrary: seen)
  case (Cons j js)
  have j: "j < length os" using Cons.prems(1) assms(2) by simp
  have inj: "os ! j \<in> (!) os ` seen \<longleftrightarrow> j \<in> seen"
    using assms j Cons.prems(2) by (auto simp: nth_eq_iff_index_eq subset_iff)
  have "mset_set (set os - (!) os ` seen) - {#os ! j#} = mset_set (set os - (!) os ` insert j seen)"
    by (rule multiset_eqI) (auto simp: count_mset_set')
  then show ?case using Cons.IH [of "insert j seen"] Cons.prems inj j by (auto simp: insert_absorb)
qed simp

text \<open>The packet for a job with the password \<open>w\<close>, and what the decoder makes of such packets.\<close>

definition nth_packet :: "bsecurity \<Rightarrow> spproto_security_params \<Rightarrow> bytes \<Rightarrow> u16 \<Rightarrow> bytes \<times> bytes \<times> bytes \<Rightarrow> bytes \<Rightarrow> bytes" where
  "nth_packet sec p key seed_id job w = (case job of (out, iv, payload) \<Rightarrow> sp_packet sec p key iv (sp_plain sec p seed_id w payload))"

lemma spd_run_deliver:
  assumes "bsecurity_ok sec" "SPPROTO_HAVE_OTP p" "sd_params d = p" "spd_ready d key" "checker_holds (sd_otpchecker d) seed_id M"
    "image_mset (otp_bytes h) M = mset os" "distinct os" "list_all (\<lambda>w. length w = 4) os" "length jobs \<le> length os"
    "list_all (\<lambda>(out, iv, payload). length payload \<le> sd_output_mtu d \<and> sp_keys_ok p key iv) jobs" "list_all (\<lambda>j. j < length jobs) js"
  shows "spd_run sec h (map (\<lambda>j. nth_packet sec p key seed_id (jobs ! j) (os ! j)) js) d =
    Some (deliver_once (map (\<lambda>(out, iv, payload). payload) jobs) {} js)"
proof -
  define xs where "xs = map (\<lambda>j. (case jobs ! j of (out, iv, payload) \<Rightarrow> iv, os ! j, case jobs ! j of (out, iv, payload) \<Rightarrow> payload)) js"
  have xs: "map (\<lambda>j. nth_packet sec p key seed_id (jobs ! j) (os ! j)) js =
      map (\<lambda>(iv, w, payload). sp_packet sec p key iv (sp_plain sec p seed_id w payload)) xs"
    by (simp add: xs_def nth_packet_def split: prod.split)
  have "list_all (\<lambda>(iv, w, payload). sp_keys_ok p key iv \<and> length w = 4 \<and> length payload \<le> sd_output_mtu d) xs"
    using assms(8-11) by (auto simp: xs_def list_all_length split: prod.split)
  note run = spd_run_spec [OF assms(1-5) this, of h]
  have "mset_checks M (map (\<lambda>(iv, w, payload). host_load h w) xs) = mset_checks M (map (host_load h) (map ((!) os) js))"
    by (simp add: xs_def comp_def)
  also have "\<dots> = mset_checks (image_mset (otp_bytes h) M) (map ((!) os) js)"
    using assms(8,9,11) by (intro mset_checks_bytes) (auto simp: list_all_length)
  also have "image_mset (otp_bytes h) M = mset_set (set os - (!) os ` {})" using assms(6,7) by (simp add: mset_set_set)
  finally have M: "mset_checks M (map (\<lambda>(iv, w, payload). host_load h w) xs) = mset_checks (mset_set (set os - (!) os ` {})) (map ((!) os) js)" .
  have "map2 (\<lambda>r (iv, w, payload). if r then Some payload else None) rs xs =
      map2 (\<lambda>r j. if r then Some (map (\<lambda>(out, iv, payload). payload) jobs ! j) else None) rs js" for rs
    using assms(11) by (auto simp: xs_def zip_map2 list_all_iff dest!: set_zip_rightD split: prod.split)
  then show ?thesis unfolding xs run M
    using mset_checks_deliver [OF assms(7), of "map (\<lambda>(out, iv, payload). payload) jobs" js "{}"] assms(9,11) by simp
qed

lemma Init_encoder:
  assumes "SPProtoEncoder_Init p warn mtu ok0 ok1 g0 (Some buf) = Some e" "SPPROTO_HAVE_OTP p"
  shows "spproto_assert_security_params p" "fits p mtu" "OTPGenerator_Init ok0 ok1 (sp_otp_num p) (BEncryption_cipher_block_size (sp_otp_mode p)) = Some (se_otpgen e)"
    "se_params e = p" "se_input_mtu e = mtu" "se_output_mtu e = spproto_carrier_mtu_for_payload_mtu p mtu" "spe_idle e"
    "SPPROTO_HAVE_ENCRYPTION p \<Longrightarrow> se_buf e = buf"
  using assms by (auto simp: SPProtoEncoder_Init_def fits_def spe_idle_def split: if_splits option.splits)

lemma Init_decoder:
  assumes "SPProtoDecoder_Init p mtu num_otp_seeds buf_ok otps_ok tables_ok entries_ok mem mc0 = Some d" "SPPROTO_HAVE_OTP p"
  shows "OTPChecker_Init otps_ok tables_ok entries_ok mem (sp_otp_num p) (BEncryption_cipher_block_size (sp_otp_mode p)) num_otp_seeds = Some (sd_otpchecker d)"
    "2 \<le> num_otp_seeds" "sd_params d = p" "sd_output_mtu d = mtu" "sd_input_mtu d = spproto_carrier_mtu_for_payload_mtu p mtu"
    "sd_in d = None" "\<not> sd_tw_have d"
  using assms by (auto simp: SPProtoDecoder_Init_def split: if_splits option.splits)

lemma configured_encoder:
  fixes encrypt rnd h key seed_id otp_key otp_iv
  assumes "spe_idle e" "spe_sizes e"
  defines "ob \<equiv> spe_configure encrypt rnd h key seed_id otp_key otp_iv e"
  shows "se_params ob = se_params e" "spe_sizes ob" "spe_idle ob" "SPPROTO_HAVE_ENCRYPTION (se_params e) \<longrightarrow> se_key ob = Some key"
    "se_otpgen ob = seeded_generator encrypt rnd h otp_key otp_iv (se_otpgen e)" "se_otpgen_seed_id ob = seed_id"
    "se_input_mtu ob = se_input_mtu e" "se_output_mtu ob = se_output_mtu e"
  using assms(1,2) unfolding ob_def spe_idle_def spe_sizes_def spe_configure_def Let_def
  by (simp_all add: SPProtoEncoder_SetEncryptionKey_def spe_maybe_stop_work_def spe_maybe_encode_def SPProtoEncoder_SetOTPSeed_def
      spe_otpgenerator_handler_def seeded_generator_def)

lemma configured_decoder:
  assumes "sd_in d = None" "\<not> sd_tw_have d" "seeded_checker encrypt rnd h seed_id otp_key otp_iv (sd_otpchecker d) = Some mc"
  shows "\<exists>d'. spd_configure encrypt rnd h key seed_id otp_key otp_iv d = Some d' \<and> sd_params d' = sd_params d \<and> sd_otpchecker d' = mc \<and>
    sd_output_mtu d' = sd_output_mtu d \<and> sd_input_mtu d' = sd_input_mtu d \<and> sd_in d' = None \<and> \<not> sd_tw_have d' \<and>
    (SPPROTO_HAVE_ENCRYPTION (sd_params d) \<longrightarrow> sd_key d' = Some key)"
  using assms by (auto simp: spd_configure_def Let_def SPProtoDecoder_SetEncryptionKey_def spd_maybe_stop_work_and_ignore_def
      SPProtoDecoder_AddOTPSeed_def seeded_checker_def)

text \<open>Each side's calculator, made with the same parameters.\<close>

lemma Init_calcs:
  assumes "OTPGenerator_Init ok0 ok1 n b = Some g" "OTPChecker_Init otps_ok tables_ok entries_ok mem n b k = Some mc"
    "0 < b" "\<forall>key zero iv. length (fst (encrypt key zero iv)) = b"
  shows "chk_calc mc = gen_calc g" "calc_ok encrypt (gen_calc g)" "chk_num_otps mc = n" "gen_num_otps g = n" "calc_num_otps (gen_calc g) = n"
  using assms by (auto simp: OTPGenerator_Init_def OTPChecker_Init_def OTPCalculator_Init_def calc_ok_def Let_def split: if_splits option.splits)


subsection \<open>The encoder never stalls\<close>

text \<open>
  What happens to an encoder, and what its peers promise: the output asks for a packet only when it
  got the last one, the input answers a request once, with a payload within its MTU, and the
  results of work are reported while the work exists.
\<close>

datatype spe_event =
    Recv bytes | Done bytes | Work bytes
  | SetKey bytes | RemoveKey | SetSeed u16 bytes bytes | SeedDone | RemoveSeed

fun spe_enabled :: "SPProtoEncoder \<Rightarrow> spe_event \<Rightarrow> bool" where
  "spe_enabled ob (Recv out) \<longleftrightarrow> se_out ob = None"
| "spe_enabled ob (Done payload) \<longleftrightarrow> se_out ob \<noteq> None \<and> se_in_len ob = None \<and> length payload \<le> se_input_mtu ob"
| "spe_enabled ob (Work iv) \<longleftrightarrow> se_tw_have ob"
| "spe_enabled ob (SetKey key) \<longleftrightarrow> SPPROTO_HAVE_ENCRYPTION (se_params ob)"
| "spe_enabled ob RemoveKey \<longleftrightarrow> SPPROTO_HAVE_ENCRYPTION (se_params ob)"
| "spe_enabled ob (SetSeed seed_id key iv) \<longleftrightarrow> SPPROTO_HAVE_OTP (se_params ob)"
| "spe_enabled ob SeedDone \<longleftrightarrow> SPPROTO_HAVE_OTP (se_params ob) \<and> gen_tw_have (se_otpgen ob)"
| "spe_enabled ob RemoveSeed \<longleftrightarrow> SPPROTO_HAVE_OTP (se_params ob)"

fun spe_handle ::
  "bsecurity \<Rightarrow> cipher_fn \<Rightarrow> (nat \<Rightarrow> nat \<Rightarrow> u16) \<Rightarrow> host \<Rightarrow> SPProtoEncoder \<Rightarrow> spe_event \<Rightarrow> SPProtoEncoder option" where
  "spe_handle sec encrypt rnd h ob (Recv out) = spe_output_handler_recv ob out"
| "spe_handle sec encrypt rnd h ob (Done payload) = spe_input_handler_done ob payload"
| "spe_handle sec encrypt rnd h ob (Work iv) =
     Option.bind (spe_encode_work_func sec h iv ob) (\<lambda>ob. map_option fst (spe_encode_work_handler ob))"
| "spe_handle sec encrypt rnd h ob (SetKey key) = Some (SPProtoEncoder_SetEncryptionKey ob key)"
| "spe_handle sec encrypt rnd h ob RemoveKey = Some (SPProtoEncoder_RemoveEncryptionKey ob)"
| "spe_handle sec encrypt rnd h ob (SetSeed seed_id key iv) = Some (SPProtoEncoder_SetOTPSeed ob seed_id key iv)"
| "spe_handle sec encrypt rnd h ob SeedDone = Some (spe_otpgenerator_handler
     (ob\<lparr>se_otpgen := OTPGenerator_work_done_handler (OTPGenerator_work_func encrypt rnd h (se_otpgen ob))\<rparr>))"
| "spe_handle sec encrypt rnd h ob RemoveSeed = Some (SPProtoEncoder_RemoveOTPSeed ob)"

inductive spe_reachable :: "bsecurity \<Rightarrow> cipher_fn \<Rightarrow> host \<Rightarrow> SPProtoEncoder \<Rightarrow> bool" for sec encrypt h where
  spe_init: "SPProtoEncoder_Init p warn mtu ok0 ok1 g0 buf = Some ob \<Longrightarrow> spe_reachable sec encrypt h ob"
| spe_next: "spe_reachable sec encrypt h ob \<Longrightarrow> spe_enabled ob ev \<Longrightarrow> spe_handle sec encrypt rnd h ob ev = Some ob' \<Longrightarrow>
    spe_reachable sec encrypt h ob'"

definition spe_holding :: "SPProtoEncoder \<Rightarrow> bool" where
  "spe_holding ob \<longleftrightarrow>
     (se_tw_have ob \<longrightarrow> se_in_len ob \<noteq> None \<and> (SPPROTO_HAVE_ENCRYPTION (se_params ob) \<longrightarrow> se_key ob \<noteq> None)) \<and>
     (\<forall>n. se_in_len ob = Some n \<longrightarrow> se_out ob \<noteq> None \<and> n \<le> se_input_mtu ob) \<and>
     (SPPROTO_HAVE_OTP (se_params ob) \<longrightarrow> gen_num_otps (se_otpgen ob) = sp_otp_num (se_params ob))"

definition spe_inv :: "SPProtoEncoder \<Rightarrow> bool" where
  "spe_inv ob \<longleftrightarrow> spe_holding ob \<and> (se_in_len ob \<noteq> None \<and> spe_can_encode ob \<longrightarrow> se_tw_have ob)"

lemma encode_packet_inv:
  assumes "spe_holding ob" "spe_can_encode ob" "se_in_len ob \<noteq> None" shows "spe_inv (spe_encode_packet ob)"
  using assms by (simp add: spe_inv_def spe_holding_def encode_packet_fields spe_can_encode_def OTPGenerator_GetOTP_def)

lemma maybe_encode_inv:
  assumes "spe_holding ob" shows "spe_inv (spe_maybe_encode ob)"
proof (cases "se_in_len ob \<noteq> None \<and> se_out ob \<noteq> None \<and> \<not> se_tw_have ob \<and> spe_can_encode ob")
  case True
  then show ?thesis using assms encode_packet_inv by (simp add: spe_maybe_encode_def)
next
  case False
  moreover have "se_in_len ob \<noteq> None \<longrightarrow> se_out ob \<noteq> None" using assms by (auto simp: spe_holding_def)
  ultimately have "se_in_len ob \<noteq> None \<and> spe_can_encode ob \<longrightarrow> se_tw_have ob" by blast
  moreover have "spe_maybe_encode ob = ob" unfolding spe_maybe_encode_def using False by (rule if_not_P)
  ultimately show ?thesis using assms by (simp only: spe_inv_def simp_thms)
qed

lemma work_total:
  assumes "spe_inv ob" "se_tw_have ob"
  shows "\<exists>ob'. spe_handle sec encrypt rnd h ob (Work iv) = Some ob' \<and> spe_idle ob' \<and> se_params ob' = se_params ob \<and> se_otpgen ob' = se_otpgen ob"
proof -
  obtain n out where n: "se_in_len ob = Some n" "se_out ob = Some out" "n \<le> se_input_mtu ob" using assms by (auto simp: spe_inv_def spe_holding_def)
  have "SPPROTO_HAVE_ENCRYPTION (se_params ob) \<Longrightarrow> se_key ob \<noteq> None" using assms by (simp add: spe_inv_def spe_holding_def)
  then have "\<exists>ob1. spe_encode_work_func sec h iv ob = Some ob1 \<and> se_in_len ob1 = Some n \<and> se_out ob1 \<noteq> None \<and> se_tw_have ob1 \<and>
      se_params ob1 = se_params ob \<and> se_otpgen ob1 = se_otpgen ob"
    using n assms(2) by (cases "SPPROTO_HAVE_ENCRYPTION (se_params ob)") (simp_all add: spe_encode_work_func_def Let_def)
  then show ?thesis by (auto simp: spe_encode_work_handler_def spe_idle_def)
qed

lemma spe_inv_handle:
  assumes "spe_inv ob" "spe_enabled ob ev" "spe_handle sec encrypt rnd h ob ev = Some ob'"
  shows "spe_inv ob'"
proof (cases ev)
  case (Recv out)
  then have ob': "ob' = ob\<lparr>se_out := Some out\<rparr>" "se_in_len ob = None" "\<not> se_tw_have ob"
    using assms(3) by (simp_all add: spe_output_handler_recv_def split: if_splits)
  show ?thesis using assms(1) ob'(2,3) unfolding ob'(1) spe_inv_def spe_holding_def by simp
next
  case (Done payload)
  let ?ob = "spe_set_plaintext (mem_write (spe_plaintext ob) (SPPROTO_HEADER_LEN (se_params ob)) payload) ob\<lparr>se_in_len := Some (length payload)\<rparr>"
  have "spe_holding ?ob" using assms(1,2) Done by (auto simp: spe_inv_def spe_holding_def)
  moreover have "ob' = (if spe_can_encode ?ob then spe_encode_packet ?ob else ?ob)"
    using assms(3) Done by (simp add: spe_input_handler_done_def Let_def split: if_splits)
  ultimately show ?thesis using encode_packet_inv [of ?ob] by (auto simp: spe_inv_def)
next
  case (Work iv)
  then have "spe_idle ob' \<and> se_params ob' = se_params ob \<and> se_otpgen ob' = se_otpgen ob"
    using work_total [OF assms(1), of sec encrypt rnd h iv] assms(2,3) by auto
  then show ?thesis using assms(1) by (auto simp: spe_idle_def spe_inv_def spe_holding_def)
next
  case (SetKey key)
  have "spe_holding ((spe_maybe_stop_work ob)\<lparr>se_key := Some key\<rparr>)"
    using assms(1) by (auto simp: spe_inv_def spe_holding_def spe_maybe_stop_work_def)
  then show ?thesis using assms(3) SetKey maybe_encode_inv by (auto simp: SPProtoEncoder_SetEncryptionKey_def)
next
  case RemoveKey
  then have ob': "ob' = SPProtoEncoder_RemoveEncryptionKey ob" using assms(3) by simp
  have ff: "\<not> se_tw_have ob'" "se_key ob' = None" "se_params ob' = se_params ob" "se_in_len ob' = se_in_len ob" "se_out ob' = se_out ob"
    "se_input_mtu ob' = se_input_mtu ob" "se_otpgen ob' = se_otpgen ob"
    unfolding ob' SPProtoEncoder_RemoveEncryptionKey_def spe_maybe_stop_work_def Let_def by simp_all
  have "spe_holding ob'" using assms(1) ff(1) unfolding spe_inv_def spe_holding_def ff(3-7) by blast
  moreover have "\<not> spe_can_encode ob'" using assms(2) RemoveKey unfolding spe_can_encode_def ff(2,3) by simp
  ultimately show ?thesis unfolding spe_inv_def by blast
next
  case (SetSeed seed_id key iv)
  then show ?thesis using assms by (auto simp: SPProtoEncoder_SetOTPSeed_def OTPGenerator_SetSeed_def OTPGenerator_GetPosition_def
        spe_inv_def spe_holding_def spe_can_encode_def)
next
  case SeedDone
  have "spe_holding (ob\<lparr>se_otpgen := OTPGenerator_work_done_handler (OTPGenerator_work_func encrypt rnd h (se_otpgen ob)),
      se_otpgen_seed_id := se_otpgen_pending_seed_id ob\<rparr>)"
    using assms(1) by (auto simp: spe_inv_def spe_holding_def OTPGenerator_work_done_handler_def OTPGenerator_work_func_def Let_def)
  then show ?thesis using assms(3) SeedDone maybe_encode_inv by (auto simp: spe_otpgenerator_handler_def)
next
  case RemoveSeed
  then show ?thesis using assms by (auto simp: SPProtoEncoder_RemoveOTPSeed_def OTPGenerator_Reset_def OTPGenerator_GetPosition_def
        spe_inv_def spe_holding_def spe_can_encode_def)
qed

lemma spe_reachable_inv: "spe_reachable sec encrypt h ob \<Longrightarrow> spe_inv ob"
proof (induction rule: spe_reachable.induct)
  case (spe_init p warn mtu ok0 ok1 g0 buf ob)
  then show ?case by (auto simp: SPProtoEncoder_Init_def spe_inv_def spe_holding_def OTPGenerator_Init_def split: if_splits option.splits)
next
  case (spe_next ob ev rnd ob')
  show ?case by (rule spe_inv_handle [OF spe_next.IH spe_next.hyps(2,3)])
qed

text \<open>
  C14: the encoder never stalls and never fails an assertion. Whatever requests, payloads, keys,
  seeds and results of work arrive, every event that the peers may raise is handled. Whenever
  the encoder holds a payload, still has a password if it needs one and a key if it encrypts, the
  work for it is running, and when that work ends the packet is handed over: removing or changing
  the key in between does not lose it.
\<close>

theorem spproto_encoder_live:
  assumes "spe_reachable sec encrypt h ob"
  shows "(spe_enabled ob ev \<longrightarrow> spe_handle sec encrypt rnd h ob ev \<noteq> None) \<and>
    (se_in_len ob \<noteq> None \<and> spe_can_encode ob \<longrightarrow> se_tw_have ob) \<and>
    (se_tw_have ob \<longrightarrow> (\<forall>iv. \<exists>ob'. spe_handle sec encrypt rnd h ob (Work iv) = Some ob' \<and> spe_idle ob'))"
proof -
  note inv = spe_reachable_inv [OF assms]
  have "spe_enabled ob ev \<Longrightarrow> spe_handle sec encrypt rnd h ob ev \<noteq> None"
    using inv work_total [OF inv, of sec encrypt rnd h]
    by (cases ev) (auto simp: spe_output_handler_recv_def spe_input_handler_done_def spe_inv_def spe_holding_def Let_def)
  moreover have "se_in_len ob \<noteq> None \<and> spe_can_encode ob \<Longrightarrow> se_tw_have ob" using inv by (simp add: spe_inv_def)
  ultimately show ?thesis using work_total [OF inv] by blast
qed

text \<open>A small instance.\<close>

definition sp_test_params :: spproto_security_params where
  "sp_test_params = \<lparr>sp_hash_mode = 1, sp_encryption_mode = 1, sp_otp_mode = 1, sp_otp_num = 2\<rparr>"

definition sp_test_sec :: bsecurity where
  "sp_test_sec = \<lparr>BHash_calculate = \<lambda>t x. replicate (BHash_size t) (sum_list x),
     BEncryption_Encrypt = \<lambda>c key iv x. map (\<lambda>b. b + sum_list (key @ iv)) x,
     BEncryption_Decrypt = \<lambda>c key iv x. map (\<lambda>b. b - sum_list (key @ iv)) x\<rparr>"

definition sp_test_cipher :: cipher_fn where
  "sp_test_cipher key zero iv = ([sum_list key, sum_list iv, 0, 0, sum_list iv, sum_list key, 0, 1], iv)"

definition sp_test_encoder :: SPProtoEncoder where
  "sp_test_encoder = the (SPProtoEncoder_Init sp_test_params 1 4 True True otp_test_generator (Some (replicate 32 0)))"

definition sp_test_decoder :: SPProtoDecoder where
  "sp_test_decoder = the (SPProtoDecoder_Init sp_test_params 4 2 True True True True (otp_test_mem 2) otp_test_checker)"

definition sp_test_ready :: SPProtoEncoder where
  "sp_test_ready = spe_configure sp_test_cipher (\<lambda>_ _. 0) BADVPN_BIG_ENDIAN (replicate 16 3) 7 [1] [2] sp_test_encoder"

definition sp_test_jobs :: "(bytes \<times> bytes \<times> bytes) list" where
  "sp_test_jobs = [(replicate 40 0, replicate 8 1, [9]), (replicate 40 0, replicate 8 2, [7, 7])]"

lemma sp_test_sec_ok: "bsecurity_ok sp_test_sec"
  by (simp add: bsecurity_ok_def sp_test_sec_def comp_def)

lemma sp_test_encoder_eq:
  "SPProtoEncoder_Init sp_test_params 1 4 True True otp_test_generator (Some (replicate 32 0)) = Some sp_test_encoder"
proof -
  have "SPProtoEncoder_Init sp_test_params 1 4 True True otp_test_generator (Some (replicate 32 0)) \<noteq> None" by code_simp
  then show ?thesis by (auto simp: sp_test_encoder_def)
qed

lemma sp_test_decoder_eq:
  "SPProtoDecoder_Init sp_test_params 4 2 True True True True (otp_test_mem 2) otp_test_checker = Some sp_test_decoder"
proof -
  have "SPProtoDecoder_Init sp_test_params 4 2 True True True True (otp_test_mem 2) otp_test_checker \<noteq> None" by code_simp
  then show ?thesis by (auto simp: sp_test_decoder_def)
qed

theorem spproto_roundtrip_witness:
  "\<exists>ob' pkt. spproto_encode sp_test_sec BADVPN_BIG_ENDIAN (replicate 40 0) (replicate 8 1) [9, 8] sp_test_ready = Some (ob', pkt) \<and>
    int (length pkt) \<le> se_output_mtu sp_test_ready \<and>
    spd_decode_work_func sp_test_sec BADVPN_LITTLE_ENDIAN (SPProtoDecoder_SetEncryptionKey sp_test_decoder (replicate 16 3)) pkt =
      Inr (if SPPROTO_HAVE_OTP (se_params sp_test_ready) then se_otpgen_seed_id sp_test_ready else 0,
           if SPPROTO_HAVE_OTP (se_params sp_test_ready)
           then host_load BADVPN_LITTLE_ENDIAN (otp_bytes BADVPN_BIG_ENDIAN (snd (OTPGenerator_GetOTP (se_otpgen sp_test_ready)))) else 0, [9, 8])"
proof (rule spproto_roundtrip [OF sp_test_sec_ok])
  show "spe_sizes sp_test_ready" by code_simp
  show "spe_idle sp_test_ready" by code_simp
  show "spe_can_encode sp_test_ready" by code_simp
  show "length ([9, 8] :: bytes) \<le> se_input_mtu sp_test_ready" by code_simp
  show "int (length (replicate 40 (0 :: u8))) = se_output_mtu sp_test_ready" by code_simp
  show "sp_keys_ok (se_params sp_test_ready) (the (se_key sp_test_ready)) (replicate 8 1)" by code_simp
  show "sd_params (SPProtoDecoder_SetEncryptionKey sp_test_decoder (replicate 16 3)) = se_params sp_test_ready" by code_simp
  show "sd_output_mtu (SPProtoDecoder_SetEncryptionKey sp_test_decoder (replicate 16 3)) = se_input_mtu sp_test_ready" by code_simp
  show "sd_key (SPProtoDecoder_SetEncryptionKey sp_test_decoder (replicate 16 3)) = se_key sp_test_ready" by code_simp
qed


text \<open>A run of events, each enabled when it happens.\<close>

fun spe_events :: "bsecurity \<Rightarrow> cipher_fn \<Rightarrow> (nat \<Rightarrow> nat \<Rightarrow> u16) \<Rightarrow> host \<Rightarrow> spe_event list \<Rightarrow> SPProtoEncoder \<Rightarrow> SPProtoEncoder option" where
  "spe_events sec encrypt rnd h [] ob = Some ob"
| "spe_events sec encrypt rnd h (ev # evs) ob =
     (if spe_enabled ob ev then Option.bind (spe_handle sec encrypt rnd h ob ev) (spe_events sec encrypt rnd h evs) else None)"

lemma spe_events_reachable:
  "spe_reachable sec encrypt h ob \<Longrightarrow> spe_events sec encrypt rnd h evs ob = Some ob' \<Longrightarrow> spe_reachable sec encrypt h ob'"
  by (induction evs arbitrary: ob) (auto simp: bind_eq_Some_conv split: if_splits intro: spe_next)

definition sp_test_events :: "spe_event list" where
  "sp_test_events = [SetSeed 7 [1] [2], SeedDone, Recv (replicate 40 0), Done [9], SetKey (replicate 16 3)]"

definition sp_test_working :: SPProtoEncoder where
  "sp_test_working = the (spe_events sp_test_sec sp_test_cipher (\<lambda>_ _. 0) BADVPN_BIG_ENDIAN sp_test_events sp_test_encoder)"

lemma sp_test_working_reachable: "spe_reachable sp_test_sec sp_test_cipher BADVPN_BIG_ENDIAN sp_test_working"
proof (rule spe_events_reachable [OF spe_init [OF sp_test_encoder_eq]])
  have "spe_events sp_test_sec sp_test_cipher (\<lambda>_ _. 0) BADVPN_BIG_ENDIAN sp_test_events sp_test_encoder \<noteq> None" by code_simp
  then show "spe_events sp_test_sec sp_test_cipher (\<lambda>_ _. 0) BADVPN_BIG_ENDIAN sp_test_events sp_test_encoder = Some sp_test_working"
    by (auto simp: sp_test_working_def)
qed

theorem spproto_encoder_live_witness:
  "se_in_len sp_test_working = Some 1 \<and> spe_can_encode sp_test_working \<and> se_tw_have sp_test_working \<and>
   spe_handle sp_test_sec sp_test_cipher (\<lambda>_ _. 0) BADVPN_BIG_ENDIAN sp_test_working RemoveSeed \<noteq> None \<and>
   (\<exists>ob'. spe_handle sp_test_sec sp_test_cipher (\<lambda>_ _. 0) BADVPN_BIG_ENDIAN sp_test_working (Work (replicate 8 1)) = Some ob' \<and> spe_idle ob')"
proof -
  have "se_in_len sp_test_working = Some 1" by code_simp
  moreover have "spe_can_encode sp_test_working" by code_simp
  moreover have "spe_enabled sp_test_working RemoveSeed" by code_simp
  ultimately show ?thesis using spproto_encoder_live [OF sp_test_working_reachable, of RemoveSeed "\<lambda>_ _. 0"] by simp
qed

end
