(* ===== verification/FragAssemble.thy ===== *)
theory FragAssemble
  imports Byteorder Misc_Arith
begin

text \<open>
  Fragmentation, receiving side: \<open>src/protocol/fragmentproto.h\<close> and
  \<open>src/client/FragmentProtoAssembler.c\<close>. Frame entries live in an array and are named by their
  index; the free and the used list hold indices in list order, and the search tree is the map it
  implements. A failed assertion is \<open>None\<close>. The frame that was handed to the output is named by its
  entry and length, because the output reads it from the entry's buffer until it is done.
\<close>

type_synonym fragmentproto_frameid = u16

definition FPA_MAX_TIME :: u32 where "FPA_MAX_TIME = -1"

definition fragmentproto_header_size :: nat where "fragmentproto_header_size = 7"

definition fragmentproto_max_chunks_for_frame :: "nat \<Rightarrow> nat \<Rightarrow> nat" where
  "fragmentproto_max_chunks_for_frame carrier_mtu frame_mtu =
     bdivide_up frame_mtu (carrier_mtu - fragmentproto_header_size) + 1"

record FragmentProtoAssembler_chunk =
  ck_start :: nat
  ck_len :: nat

text \<open>\<open>fr_chunks\<close> is the used part of the chunk array, so the number of chunks is its length.\<close>

record FragmentProtoAssembler_frame =
  fr_chunks :: "FragmentProtoAssembler_chunk list"
  fr_buffer :: bytes
  fr_id :: fragmentproto_frameid
  fr_time :: u32
  fr_sum :: nat
  fr_length :: int
  fr_length_so_far :: nat

record FragmentProtoAssembler =
  fa_output_mtu :: nat
  fa_num_chunks :: nat
  fa_time :: u32
  fa_time_tolerance :: nat
  fa_frames :: "FragmentProtoAssembler_frame list"
  fa_free :: "nat list"
  fa_used :: "nat list"
  fa_tree :: "fragmentproto_frameid \<rightharpoonup> nat"
  fa_in :: "bytes option"
  fa_in_pos :: nat
  fa_out :: "(nat \<times> nat) option"

definition fpa_free_frame :: "nat \<Rightarrow> FragmentProtoAssembler \<Rightarrow> FragmentProtoAssembler" where
  "fpa_free_frame i ob = ob\<lparr>fa_used := remove1 i (fa_used ob),
     fa_tree := (fa_tree ob)(fr_id (fa_frames ob ! i) := None), fa_free := fa_free ob @ [i]\<rparr>"

definition fpa_free_oldest_frame :: "FragmentProtoAssembler \<Rightarrow> FragmentProtoAssembler option" where
  "fpa_free_oldest_frame ob = (case fa_used ob of [] \<Rightarrow> None | i # _ \<Rightarrow> Some (fpa_free_frame i ob))"

definition fpa_allocate_new_frame ::
  "FragmentProtoAssembler \<Rightarrow> fragmentproto_frameid \<Rightarrow> (FragmentProtoAssembler \<times> nat) option" where
  "fpa_allocate_new_frame ob frame_id =
     (if fa_tree ob frame_id \<noteq> None then None
      else case (if fa_free ob = [] then fpa_free_oldest_frame ob else Some ob) of None \<Rightarrow> None
      | Some ob \<Rightarrow>
          (case fa_free ob of [] \<Rightarrow> None
           | i # rest \<Rightarrow>
               Some (ob\<lparr>fa_free := rest,
                 fa_frames := (fa_frames ob)[i := (fa_frames ob ! i)\<lparr>fr_id := frame_id, fr_time := fa_time ob,
                   fr_chunks := [], fr_sum := 0, fr_length := -1, fr_length_so_far := 0\<rparr>],
                 fa_used := fa_used ob @ [i], fa_tree := (fa_tree ob)(frame_id \<mapsto> i)\<rparr>, i)))"

definition chunks_overlap :: "nat \<Rightarrow> nat \<Rightarrow> nat \<Rightarrow> nat \<Rightarrow> bool" where
  "chunks_overlap c1_start c1_len c2_start c2_len \<longleftrightarrow>
     c1_start + c1_len > c2_start \<and> c2_start + c2_len > c1_start"

definition frame_is_timed_out :: "FragmentProtoAssembler \<Rightarrow> FragmentProtoAssembler_frame \<Rightarrow> bool option" where
  "frame_is_timed_out ob frame =
     (if fr_time frame \<le> fa_time ob then Some (fa_time ob - fr_time frame > of_nat (fa_time_tolerance ob)) else None)"

text \<open>The first loop of \<open>reduce_times\<close>: the second argument is \<open>minframe\<close>.\<close>

fun reduce_scan :: "nat list \<Rightarrow> nat option \<Rightarrow> FragmentProtoAssembler \<Rightarrow> (FragmentProtoAssembler \<times> nat option) option" where
  "reduce_scan [] minframe ob = Some (ob, minframe)"
| "reduce_scan (i # is) minframe ob =
     (case frame_is_timed_out ob (fa_frames ob ! i) of None \<Rightarrow> None
      | Some True \<Rightarrow> reduce_scan is minframe (fpa_free_frame i ob)
      | Some False \<Rightarrow>
          reduce_scan is
            (case minframe of None \<Rightarrow> Some i
             | Some j \<Rightarrow> if fr_time (fa_frames ob ! i) < fr_time (fa_frames ob ! j) then Some i else minframe) ob)"

definition reduce_times :: "FragmentProtoAssembler \<Rightarrow> FragmentProtoAssembler option" where
  "reduce_times ob =
     (case reduce_scan (fa_used ob) None ob of None \<Rightarrow> None
      | Some (ob, None) \<Rightarrow> Some (ob\<lparr>fa_time := 0\<rparr>)
      | Some (ob, Some j) \<Rightarrow>
          let min_time = fr_time (fa_frames ob ! j);
              frames = foldl (\<lambda>fs i. fs[i := (fs ! i)\<lparr>fr_time := fr_time (fs ! i) - min_time\<rparr>]) (fa_frames ob) (fa_used ob)
          in Some (ob\<lparr>fa_frames := frames, fa_time := fa_time ob - min_time\<rparr>))"

text \<open>Looking up the frame of a chunk, or starting a new one.\<close>

definition fpa_obtain_frame ::
  "FragmentProtoAssembler \<Rightarrow> fragmentproto_frameid \<Rightarrow> (FragmentProtoAssembler \<times> nat) option" where
  "fpa_obtain_frame ob frame_id =
     (case fa_tree ob frame_id of None \<Rightarrow> fpa_allocate_new_frame ob frame_id
      | Some i \<Rightarrow>
          (case frame_is_timed_out ob (fa_frames ob ! i) of None \<Rightarrow> None
           | Some True \<Rightarrow> fpa_allocate_new_frame (fpa_free_frame i ob) frame_id
           | Some False \<Rightarrow> Some (ob, i)))"

definition chunk_rejected :: "FragmentProtoAssembler_frame \<Rightarrow> nat \<Rightarrow> nat \<Rightarrow> bool \<Rightarrow> bool" where
  "chunk_rejected frame chunk_start chunk_len is_last \<longleftrightarrow>
     list_ex (\<lambda>c. chunks_overlap (ck_start c) (ck_len c) chunk_start chunk_len) (fr_chunks frame) \<or>
     (if is_last then fr_length frame \<ge> 0 \<or> fr_length_so_far frame > chunk_start + chunk_len
      else fr_length frame \<ge> 0 \<and> int (chunk_start + chunk_len) > fr_length frame)"

definition chunk_added ::
  "FragmentProtoAssembler \<Rightarrow> FragmentProtoAssembler_frame \<Rightarrow> nat \<Rightarrow> nat \<Rightarrow> bool \<Rightarrow> bytes \<Rightarrow> FragmentProtoAssembler_frame" where
  "chunk_added ob frame chunk_start chunk_len is_last payload =
     (let chunk_end = chunk_start + chunk_len;
          frame = frame\<lparr>fr_time := fa_time ob\<rparr>;
          frame = frame\<lparr>fr_chunks := fr_chunks frame @ [\<lparr>ck_start = chunk_start, ck_len = chunk_len\<rparr>]\<rparr>;
          frame = frame\<lparr>fr_sum := fr_sum frame + chunk_len\<rparr>;
          frame = (if is_last then frame\<lparr>fr_length := int chunk_end\<rparr>
                   else if fr_length frame < 0 \<and> fr_length_so_far frame < chunk_end
                   then frame\<lparr>fr_length_so_far := chunk_end\<rparr> else frame)
      in frame\<lparr>fr_buffer := mem_write (fr_buffer frame) chunk_start (take chunk_len payload)\<rparr>)"

definition process_chunk ::
  "FragmentProtoAssembler \<Rightarrow> fragmentproto_frameid \<Rightarrow> nat \<Rightarrow> nat \<Rightarrow> bool \<Rightarrow> bytes \<Rightarrow> (FragmentProtoAssembler \<times> bool) option" where
  "process_chunk ob frame_id chunk_start chunk_len is_last payload =
     (if chunk_start > fa_output_mtu ob then Some (ob, False)
      else if chunk_len > fa_output_mtu ob - chunk_start then Some (ob, False)
      else case fpa_obtain_frame ob frame_id of None \<Rightarrow> None
      | Some (ob, i) \<Rightarrow>
          let frame = fa_frames ob ! i in
          if \<not> length (fr_chunks frame) < fa_num_chunks ob then None
          else if chunk_rejected frame chunk_start chunk_len is_last then Some (fpa_free_frame i ob, False)
          else let frame = chunk_added ob frame chunk_start chunk_len is_last payload;
                   ob = ob\<lparr>fa_frames := (fa_frames ob)[i := frame]\<rparr> in
            if fr_length frame < 0 \<or> int (fr_sum frame) < fr_length frame then
              (if length (fr_chunks frame) = fa_num_chunks ob then Some (fpa_free_frame i ob, False)
               else Some (ob, False))
            else if int (fr_sum frame) \<noteq> fr_length frame then None
            else Some ((fpa_free_frame i ob)\<lparr>fa_out := Some (i, nat (fr_length frame))\<rparr>, True))"

text \<open>The loop of \<open>process_input\<close>; the last component tells whether a complete frame is being sent.\<close>

function process_loop ::
  "host \<Rightarrow> bytes \<Rightarrow> FragmentProtoAssembler \<Rightarrow> nat \<Rightarrow> (FragmentProtoAssembler \<times> nat \<times> bool) option" where
  "process_loop h data ob pos =
     (if pos < length data then
        if length data - pos < fragmentproto_header_size then Some (ob, pos, False)
        else let frame_id = ltoh16 h (host_load h (mem_read data pos 2));
                 chunk_start = unat (ltoh16 h (host_load h (mem_read data (pos + 2) 2)));
                 chunk_len = unat (ltoh16 h (host_load h (mem_read data (pos + 4) 2)));
                 is_last = unat (ltoh8 (data ! (pos + 6))) in
          if \<not> (is_last = 0 \<or> is_last = 1) then Some (ob, pos + fragmentproto_header_size, False)
          else if length data - (pos + fragmentproto_header_size) < chunk_len
          then Some (ob, pos + fragmentproto_header_size, False)
          else case process_chunk ob frame_id chunk_start chunk_len (is_last = 1) (drop (pos + fragmentproto_header_size) data) of
              None \<Rightarrow> None
            | Some (ob, res) \<Rightarrow>
                if res then Some (ob, pos + fragmentproto_header_size + chunk_len, True)
                else process_loop h data ob (pos + fragmentproto_header_size + chunk_len)
      else Some (ob, pos, False))"
  by auto
termination
  by (relation "measure (\<lambda>(h, data, ob, pos). length data - pos)") (auto simp: fragmentproto_header_size_def)

declare process_loop.simps [simp del]

definition increment_time :: "FragmentProtoAssembler \<Rightarrow> FragmentProtoAssembler option" where
  "increment_time ob =
     (if fa_time ob = FPA_MAX_TIME then
        (case reduce_times ob of None \<Rightarrow> None
         | Some ob \<Rightarrow>
             if fa_used ob \<noteq> [] then
               (if fa_time ob < FPA_MAX_TIME then Some (ob\<lparr>fa_time := fa_time ob + 1\<rparr>) else None)
             else if fa_time ob = 0 then Some ob else None)
      else Some (ob\<lparr>fa_time := fa_time ob + 1\<rparr>))"

definition process_input :: "host \<Rightarrow> FragmentProtoAssembler \<Rightarrow> FragmentProtoAssembler option" where
  "process_input h ob =
     (case fa_in ob of None \<Rightarrow> None
      | Some data \<Rightarrow>
          (case process_loop h data ob (fa_in_pos ob) of None \<Rightarrow> None
           | Some (ob, pos, sent) \<Rightarrow>
               let ob = ob\<lparr>fa_in_pos := pos\<rparr> in
               if sent then Some ob else map_option (\<lambda>ob. ob\<lparr>fa_in := None\<rparr>) (increment_time ob)))"

definition fpa_input_handler_send :: "host \<Rightarrow> FragmentProtoAssembler \<Rightarrow> bytes \<Rightarrow> FragmentProtoAssembler option" where
  "fpa_input_handler_send h ob data =
     (if fa_in ob \<noteq> None then None else process_input h (ob\<lparr>fa_in := Some data, fa_in_pos := 0\<rparr>))"

text \<open>The output is done with the frame it was given.\<close>

definition fpa_output_handler_done :: "host \<Rightarrow> FragmentProtoAssembler \<Rightarrow> FragmentProtoAssembler option" where
  "fpa_output_handler_done h ob = process_input h (ob\<lparr>fa_out := None\<rparr>)"

text \<open>\<open>mem\<close> is what the allocated frame entries hold, each with its part of the buffer memory.\<close>

definition FragmentProtoAssembler_Init ::
  "bool \<Rightarrow> bool \<Rightarrow> bool \<Rightarrow> FragmentProtoAssembler_frame list \<Rightarrow> nat \<Rightarrow> nat \<Rightarrow> nat \<Rightarrow> FragmentProtoAssembler option" where
  "FragmentProtoAssembler_Init entries_ok chunks_ok buffer_ok mem output_mtu num_frames num_chunks =
     (if \<not> entries_ok then None else if \<not> chunks_ok then None else if \<not> buffer_ok then None
      else Some \<lparr>fa_output_mtu = output_mtu, fa_num_chunks = num_chunks, fa_time = 0,
        fa_time_tolerance = num_frames, fa_frames = mem, fa_free = [0..<num_frames], fa_used = [],
        fa_tree = (\<lambda>_. None), fa_in = None, fa_in_pos = 0, fa_out = None\<rparr>)"

subsection \<open>The invariant\<close>

text \<open>
  \<open>F\<close> maps identifiers to the frames that were sent under them; it may be partial, and nothing
  is known about chunks of other identifiers.
\<close>

definition covered :: "FragmentProtoAssembler_chunk list \<Rightarrow> nat set" where
  "covered cs = (\<Union>c\<in>set cs. {ck_start c..<ck_start c + ck_len c})"

definition frame_wf :: "nat \<Rightarrow> FragmentProtoAssembler_frame \<Rightarrow> bool" where
  "frame_wf mtu fr \<longleftrightarrow> card (covered (fr_chunks fr)) = fr_sum fr \<and> fr_length fr \<le> int mtu \<and>
     (if fr_length fr \<ge> 0 then covered (fr_chunks fr) \<subseteq> {..<nat (fr_length fr)}
      else covered (fr_chunks fr) \<subseteq> {..<fr_length_so_far fr} \<and> fr_length_so_far fr \<le> mtu)"

definition frame_content :: "(fragmentproto_frameid \<rightharpoonup> bytes) \<Rightarrow> FragmentProtoAssembler_frame \<Rightarrow> bool" where
  "frame_content F fr \<longleftrightarrow> (\<forall>f. F (fr_id fr) = Some f \<longrightarrow>
     (\<forall>p\<in>covered (fr_chunks fr). p < length f \<and> fr_buffer fr ! p = f ! p) \<and>
     (fr_length fr \<ge> 0 \<longrightarrow> fr_length fr = int (length f)))"

definition chunk_of :: "(fragmentproto_frameid \<rightharpoonup> bytes) \<Rightarrow> fragmentproto_frameid \<Rightarrow> nat \<Rightarrow> nat \<Rightarrow> bool \<Rightarrow> bytes \<Rightarrow> bool" where
  "chunk_of F x s l is_last payload \<longleftrightarrow> l \<le> length payload \<and> (\<forall>f. F x = Some f \<longrightarrow>
     s + l \<le> length f \<and> take l payload = mem_read f s l \<and> (is_last \<longleftrightarrow> s + l = length f))"

definition fpa_lists :: "FragmentProtoAssembler \<Rightarrow> bool" where
  "fpa_lists ob \<longleftrightarrow> 0 < length (fa_frames ob) \<and> fa_time_tolerance ob = length (fa_frames ob) \<and>
     fa_time_tolerance ob < unat FPA_MAX_TIME \<and> 0 < fa_num_chunks ob \<and>
     distinct (fa_free ob @ fa_used ob) \<and> set (fa_free ob @ fa_used ob) = {..<length (fa_frames ob)} \<and>
     (\<forall>x i. fa_tree ob x = Some i \<longleftrightarrow> i \<in> set (fa_used ob) \<and> fr_id (fa_frames ob ! i) = x) \<and>
     (\<forall>fr\<in>set (fa_frames ob). length (fr_buffer fr) = fa_output_mtu ob)"

definition frame_inv :: "(fragmentproto_frameid \<rightharpoonup> bytes) \<Rightarrow> FragmentProtoAssembler \<Rightarrow> FragmentProtoAssembler_frame \<Rightarrow> bool" where
  "frame_inv F ob fr \<longleftrightarrow> fr_time fr \<le> fa_time ob \<and> length (fr_chunks fr) < fa_num_chunks ob \<and>
     frame_wf (fa_output_mtu ob) fr \<and> frame_content F fr"

definition fpa_inv :: "(fragmentproto_frameid \<rightharpoonup> bytes) \<Rightarrow> FragmentProtoAssembler \<Rightarrow> bool" where
  "fpa_inv F ob \<longleftrightarrow> fpa_lists ob \<and> (\<forall>i\<in>set (fa_used ob). frame_inv F ob (fa_frames ob ! i))"

lemma finite_covered [simp]: "finite (covered cs)"
  by (simp add: covered_def)

lemma covered_Nil [simp]: "covered [] = {}"
  by (simp add: covered_def)

lemma covered_snoc: "covered (cs @ [\<lparr>ck_start = s, ck_len = l\<rparr>]) = covered cs \<union> {s..<s + l}"
  by (auto simp: covered_def)

lemma covered_disjoint:
  "\<not> list_ex (\<lambda>c. chunks_overlap (ck_start c) (ck_len c) s l) cs \<Longrightarrow> covered cs \<inter> {s..<s + l} = {}"
  by (auto simp: covered_def chunks_overlap_def list_ex_iff)

lemma fpa_lists_used: "fpa_lists ob \<Longrightarrow> i \<in> set (fa_used ob) \<Longrightarrow> i < length (fa_frames ob)"
  unfolding fpa_lists_def by auto

lemma fpa_lists_free_frame:
  assumes "fpa_lists ob" "i \<in> set (fa_used ob)"
  shows "fpa_lists (fpa_free_frame i ob)"
proof -
  have "set (fa_free ob @ i # remove1 i (fa_used ob)) = set (fa_free ob @ fa_used ob)"
    using assms by (auto simp: fpa_lists_def set_remove1_eq)
  moreover have "fr_id (fa_frames ob ! i) = fr_id (fa_frames ob ! j) \<Longrightarrow> j \<in> set (fa_used ob) \<Longrightarrow> j = i" for j
    using assms unfolding fpa_lists_def by (metis option.inject)
  ultimately show ?thesis using assms unfolding fpa_lists_def
    by (auto simp: fpa_free_frame_def set_remove1_eq)
qed

lemma fpa_inv_free_frame:
  assumes "fpa_lists ob" "i \<in> set (fa_used ob)" "\<And>j. j \<in> set (fa_used ob) \<Longrightarrow> j \<noteq> i \<Longrightarrow> frame_inv F ob (fa_frames ob ! j)"
  shows "fpa_inv F (fpa_free_frame i ob)"
proof -
  have "distinct (fa_used ob)" using assms(1) by (simp add: fpa_lists_def)
  then show ?thesis using assms fpa_lists_free_frame [OF assms(1,2)]
    by (auto simp: fpa_inv_def frame_inv_def fpa_free_frame_def set_remove1_eq)
qed

lemma fpa_free_frame_simps [simp]:
  "fa_frames (fpa_free_frame i ob) = fa_frames ob" "fa_time (fpa_free_frame i ob) = fa_time ob"
  "fa_output_mtu (fpa_free_frame i ob) = fa_output_mtu ob" "fa_num_chunks (fpa_free_frame i ob) = fa_num_chunks ob"
  "fa_in (fpa_free_frame i ob) = fa_in ob" "fa_in_pos (fpa_free_frame i ob) = fa_in_pos ob" "fa_out (fpa_free_frame i ob) = fa_out ob"
  "fa_time_tolerance (fpa_free_frame i ob) = fa_time_tolerance ob" "fa_used (fpa_free_frame i ob) = remove1 i (fa_used ob)"
  by (simp_all add: fpa_free_frame_def)

lemma fpa_lists_set_frame:
  assumes "fpa_lists ob" "fr_id fr = fr_id (fa_frames ob ! i)" "length (fr_buffer fr) = fa_output_mtu ob"
  shows "fpa_lists (ob\<lparr>fa_frames := (fa_frames ob)[i := fr]\<rparr>)"
proof -
  have "\<forall>u\<in>set ((fa_frames ob)[i := fr]). length (fr_buffer u) = fa_output_mtu ob"
    using assms(1,3) set_update_subset_insert [of "fa_frames ob" i fr] by (auto simp: fpa_lists_def)
  moreover have "fr_id ((fa_frames ob)[i := fr] ! j) = fr_id (fa_frames ob ! j)" for j
    using assms(2) by (cases "j = i") (cases "i < length (fa_frames ob)", simp_all add: list_update_beyond)
  ultimately show ?thesis using assms(1) unfolding fpa_lists_def by simp
qed

text \<open>Starting a frame never fails: a free entry exists or the oldest used entry is freed.\<close>

lemma fpa_allocate_new_frame_spec:
  assumes inv: "fpa_inv F ob" and new: "fa_tree ob frame_id = None"
  shows "\<exists>ob' i. fpa_allocate_new_frame ob frame_id = Some (ob', i) \<and> fpa_inv F ob' \<and> i \<in> set (fa_used ob') \<and>
    fr_id (fa_frames ob' ! i) = frame_id \<and> fa_time ob' = fa_time ob \<and> fa_output_mtu ob' = fa_output_mtu ob \<and>
    fa_num_chunks ob' = fa_num_chunks ob \<and> fa_in ob' = fa_in ob \<and> fa_in_pos ob' = fa_in_pos ob \<and> fa_out ob' = fa_out ob"
proof -
  obtain ob1 where ob1: "(if fa_free ob = [] then fpa_free_oldest_frame ob else Some ob) = Some ob1" "fpa_inv F ob1"
    "fa_free ob1 \<noteq> []" "fa_tree ob1 frame_id = None" "fa_time ob1 = fa_time ob" "fa_output_mtu ob1 = fa_output_mtu ob"
    "fa_num_chunks ob1 = fa_num_chunks ob" "fa_in ob1 = fa_in ob" "fa_in_pos ob1 = fa_in_pos ob" "fa_out ob1 = fa_out ob"
  proof (cases "fa_free ob = []")
    case True
    then obtain i us where u: "fa_used ob = i # us"
      using inv by (cases "fa_used ob") (auto simp: fpa_inv_def fpa_lists_def)
    have "fpa_inv F (fpa_free_frame i ob)" using inv u by (intro fpa_inv_free_frame) (auto simp: fpa_inv_def)
    then show ?thesis using that [of "fpa_free_frame i ob"] True u new
      by (auto simp: fpa_free_oldest_frame_def) (auto simp: fpa_free_frame_def)
  next
    case False
    then show ?thesis using that [of ob] inv new by simp
  qed
  obtain i rest where free: "fa_free ob1 = i # rest" using ob1(3) by (cases "fa_free ob1") auto
  let ?fr = "(fa_frames ob1 ! i)\<lparr>fr_id := frame_id, fr_time := fa_time ob1, fr_chunks := [], fr_sum := 0, fr_length := -1, fr_length_so_far := 0\<rparr>"
  let ?ob = "ob1\<lparr>fa_free := rest, fa_frames := (fa_frames ob1)[i := ?fr], fa_used := fa_used ob1 @ [i], fa_tree := (fa_tree ob1)(frame_id \<mapsto> i)\<rparr>"
  have lists: "fpa_lists ob1" using ob1(2) by (simp add: fpa_inv_def)
  have i: "i < length (fa_frames ob1)" "i \<notin> set (fa_used ob1)" using lists free by (auto simp: fpa_lists_def)
  have buf: "\<forall>u\<in>set ((fa_frames ob1)[i := ?fr]). length (fr_buffer u) = fa_output_mtu ob1"
    using lists i set_update_subset_insert [of "fa_frames ob1" i ?fr] by (auto simp: fpa_lists_def)
  have other: "fr_id (fa_frames ob1 ! j) \<noteq> frame_id" if "j \<in> set (fa_used ob1)" for j
    using lists ob1(4) that unfolding fpa_lists_def by (metis option.distinct(1))
  have tree: "((fa_tree ob1)(frame_id \<mapsto> i)) x = Some j \<longleftrightarrow> j \<in> set (fa_used ob1 @ [i]) \<and> fr_id ((fa_frames ob1)[i := ?fr] ! j) = x" for x j
    using lists i ob1(4) other by (cases "j = i") (auto simp: fpa_lists_def)
  have "fpa_lists ?ob" using lists free buf tree unfolding fpa_lists_def by auto
  moreover have "frame_inv F ?ob (fa_frames ?ob ! j)" if "j \<in> set (fa_used ?ob)" for j
    using that i ob1(2) by (cases "j = i") (auto simp: fpa_inv_def fpa_lists_def frame_inv_def frame_wf_def frame_content_def)
  ultimately have "fpa_inv F ?ob" by (simp add: fpa_inv_def)
  then show ?thesis using new ob1 free i(1)
    by (intro exI [of _ ?ob] exI [of _ i]) (auto simp: fpa_allocate_new_frame_def)
qed

lemma frame_is_timed_out_spec:
  "frame_inv F ob fr \<Longrightarrow> frame_is_timed_out ob fr = Some (fa_time ob - fr_time fr > of_nat (fa_time_tolerance ob))"
  by (simp add: frame_is_timed_out_def frame_inv_def)

lemma fpa_obtain_frame_spec:
  assumes inv: "fpa_inv F ob"
  shows "\<exists>ob' i. fpa_obtain_frame ob frame_id = Some (ob', i) \<and> fpa_inv F ob' \<and> i \<in> set (fa_used ob') \<and>
    fr_id (fa_frames ob' ! i) = frame_id \<and> fa_time ob' = fa_time ob \<and> fa_output_mtu ob' = fa_output_mtu ob \<and>
    fa_num_chunks ob' = fa_num_chunks ob \<and> fa_in ob' = fa_in ob \<and> fa_in_pos ob' = fa_in_pos ob \<and> fa_out ob' = fa_out ob"
proof (cases "fa_tree ob frame_id")
  case None
  then show ?thesis using fpa_allocate_new_frame_spec [OF inv None] by (simp add: fpa_obtain_frame_def)
next
  case (Some i)
  then have i: "i \<in> set (fa_used ob)" "fr_id (fa_frames ob ! i) = frame_id"
    using inv by (auto simp: fpa_inv_def fpa_lists_def)
  have t: "frame_is_timed_out ob (fa_frames ob ! i) = Some (fa_time ob - fr_time (fa_frames ob ! i) > of_nat (fa_time_tolerance ob))"
    using inv i(1) by (intro frame_is_timed_out_spec [of F]) (simp add: fpa_inv_def)
  show ?thesis
  proof (cases "fa_time ob - fr_time (fa_frames ob ! i) > of_nat (fa_time_tolerance ob)")
    case True
    have "fpa_inv F (fpa_free_frame i ob)" using inv i by (intro fpa_inv_free_frame) (auto simp: fpa_inv_def)
    moreover have "fa_tree (fpa_free_frame i ob) frame_id = None" using i(2) by (simp add: fpa_free_frame_def)
    ultimately show ?thesis
      using fpa_allocate_new_frame_spec [of F "fpa_free_frame i ob" frame_id] Some t True by (simp add: fpa_obtain_frame_def)
  next
    case False
    then show ?thesis using Some t inv i by (simp add: fpa_obtain_frame_def)
  qed
qed

text \<open>Adding a chunk to a frame.\<close>

lemma chunk_added_simps [simp]:
  "fr_id (chunk_added ob fr s l is_last payload) = fr_id fr" "fr_time (chunk_added ob fr s l is_last payload) = fa_time ob"
  "fr_chunks (chunk_added ob fr s l is_last payload) = fr_chunks fr @ [\<lparr>ck_start = s, ck_len = l\<rparr>]"
  "fr_sum (chunk_added ob fr s l is_last payload) = fr_sum fr + l"
  "fr_length (chunk_added ob fr s l is_last payload) = (if is_last then int (s + l) else fr_length fr)"
  "fr_length_so_far (chunk_added ob fr s l is_last payload) =
     (if \<not> is_last \<and> fr_length fr < 0 \<and> fr_length_so_far fr < s + l then s + l else fr_length_so_far fr)"
  "fr_buffer (chunk_added ob fr s l is_last payload) = mem_write (fr_buffer fr) s (take l payload)"
  by (simp_all add: chunk_added_def Let_def)

lemma chunk_added_wf:
  assumes wf: "frame_wf mtu fr" and fits: "s + l \<le> mtu" and ok: "\<not> chunk_rejected fr s l is_last"
  shows "frame_wf mtu (chunk_added ob fr s l is_last payload)"
proof -
  let ?cov = "covered (fr_chunks fr)"
  have "?cov \<inter> {s..<s + l} = {}" using ok by (intro covered_disjoint) (simp add: chunk_rejected_def)
  then have card: "card (?cov \<union> {s..<s + l}) = card ?cov + l" by (simp add: card_Un_disjoint)
  have bound: "s + l \<le> m \<and> ?cov \<subseteq> {..<n} \<and> n \<le> m \<Longrightarrow> ?cov \<union> {s..<s + l} \<subseteq> {..<m}" for n m by auto
  show ?thesis
  proof (cases "fr_length fr \<ge> 0")
    case True
    then have "\<not> is_last" "int (s + l) \<le> fr_length fr" using ok by (auto simp: chunk_rejected_def split: if_splits)
    then show ?thesis using True wf card bound [of "nat (fr_length fr)" "nat (fr_length fr)"]
      by (simp add: frame_wf_def covered_snoc)
  next
    case False
    show ?thesis
    proof (cases is_last)
      case True
      then have "fr_length_so_far fr \<le> s + l" using ok False by (auto simp: chunk_rejected_def)
      then show ?thesis using True False wf fits card bound [of "s + l" "fr_length_so_far fr"]
        by (simp add: frame_wf_def covered_snoc nat_int_add)
    next
      case F2: False
      then show ?thesis using False wf fits card bound [of "max (s + l) (fr_length_so_far fr)" "fr_length_so_far fr"]
        by (auto simp: frame_wf_def covered_snoc max_def split: if_splits)
    qed
  qed
qed

lemma frame_wf_covered: "frame_wf mtu fr \<Longrightarrow> covered (fr_chunks fr) \<subseteq> {..<mtu}"
  by (fastforce simp: frame_wf_def split: if_splits)

lemma chunk_added_content:
  assumes wf: "frame_wf mtu fr" and len: "length (fr_buffer fr) = mtu" and fits: "s + l \<le> mtu"
    and ok: "\<not> chunk_rejected fr s l is_last" and chunk: "chunk_of F (fr_id fr) s l is_last payload" and con: "frame_content F fr"
  shows "frame_content F (chunk_added ob fr s l is_last payload)"
proof -
  have disj: "covered (fr_chunks fr) \<inter> {s..<s + l} = {}" using ok by (intro covered_disjoint) (simp add: chunk_rejected_def)
  have l: "length (take l payload) = l" using chunk by (simp add: chunk_of_def)
  have old: "mem_write (fr_buffer fr) s (take l payload) ! p = fr_buffer fr ! p" if "p \<in> covered (fr_chunks fr)" for p
  proof -
    have "p \<notin> {s..<s + l}" "p < mtu" using that disj frame_wf_covered [OF wf] by auto
    then show ?thesis using l len fits by (auto simp: nth_mem_write)
  qed
  have new: "mem_write (fr_buffer fr) s (take l payload) ! p = f ! p" if "p \<in> {s..<s + l}" "F (fr_id fr) = Some f" for p f
  proof -
    have "take l payload ! (p - s) = mem_read f s l ! (p - s)" "s + l \<le> length f" using chunk that(2) by (simp_all add: chunk_of_def)
    moreover have "p - s < l" "s + (p - s) = p" using that(1) by auto
    ultimately show ?thesis using that(1) l len fits by (simp add: nth_mem_write nth_mem_read)
  qed
  show ?thesis unfolding frame_content_def
  proof (intro allI impI)
    fix f assume "F (fr_id (chunk_added ob fr s l is_last payload)) = Some f"
    then have f: "F (fr_id fr) = Some f" by simp
    have "s + l \<le> length f" "is_last \<longleftrightarrow> s + l = length f" using chunk f by (simp_all add: chunk_of_def)
    then show "(\<forall>p\<in>covered (fr_chunks (chunk_added ob fr s l is_last payload)).
        p < length f \<and> fr_buffer (chunk_added ob fr s l is_last payload) ! p = f ! p) \<and>
      (0 \<le> fr_length (chunk_added ob fr s l is_last payload) \<longrightarrow>
        fr_length (chunk_added ob fr s l is_last payload) = int (length f))"
      using con f old new [OF _ f] by (auto simp: frame_content_def covered_snoc)
  qed
qed

text \<open>A frame whose chunks add up to its length is complete, and its buffer holds the frame.\<close>

lemma frame_complete:
  assumes wf: "frame_wf mtu fr" and full: "\<not> (fr_length fr < 0 \<or> int (fr_sum fr) < fr_length fr)"
  shows "int (fr_sum fr) = fr_length fr" "covered (fr_chunks fr) = {..<nat (fr_length fr)}"
proof -
  have sub: "covered (fr_chunks fr) \<subseteq> {..<nat (fr_length fr)}" and sum: "card (covered (fr_chunks fr)) = fr_sum fr"
    using wf full by (auto simp: frame_wf_def)
  have "card (covered (fr_chunks fr)) \<le> card {..<nat (fr_length fr)}" using sub by (intro card_mono) simp_all
  then show eq: "int (fr_sum fr) = fr_length fr" using sum full by (simp add: le_nat_iff)
  show "covered (fr_chunks fr) = {..<nat (fr_length fr)}"
    using sub sum eq by (intro card_subset_eq) simp_all
qed

definition out_ok :: "(fragmentproto_frameid \<rightharpoonup> bytes) \<Rightarrow> FragmentProtoAssembler \<Rightarrow> nat \<Rightarrow> nat \<Rightarrow> bool" where
  "out_ok F ob i n \<longleftrightarrow> n \<le> fa_output_mtu ob \<and> n \<le> length (fr_buffer (fa_frames ob ! i)) \<and>
     (\<forall>f. F (fr_id (fa_frames ob ! i)) = Some f \<longrightarrow> take n (fr_buffer (fa_frames ob ! i)) = f)"

lemma frame_complete_content:
  assumes wf: "frame_wf mtu fr" and full: "\<not> (fr_length fr < 0 \<or> int (fr_sum fr) < fr_length fr)"
    and con: "frame_content F fr" and f: "F (fr_id fr) = Some f" and len: "length (fr_buffer fr) = mtu"
  shows "take (nat (fr_length fr)) (fr_buffer fr) = f"
proof (rule nth_equalityI)
  have n: "fr_length fr = int (length f)" using con f full by (simp add: frame_content_def)
  then show "length (take (nat (fr_length fr)) (fr_buffer fr)) = length f"
    using wf len by (simp add: frame_wf_def)
  fix p assume "p < length (take (nat (fr_length fr)) (fr_buffer fr))"
  then show "take (nat (fr_length fr)) (fr_buffer fr) ! p = f ! p"
    using con f frame_complete(2) [OF wf full] by (simp add: frame_content_def)
qed

lemma process_chunk_spec:
  assumes inv: "fpa_inv F ob" and chunk: "chunk_of F frame_id s l is_last payload"
  shows "\<exists>ob' r. process_chunk ob frame_id s l is_last payload = Some (ob', r) \<and> fpa_inv F ob' \<and>
    fa_in ob' = fa_in ob \<and> fa_in_pos ob' = fa_in_pos ob \<and>
    (if r then \<exists>i n. fa_out ob' = Some (i, n) \<and> out_ok F ob' i n else fa_out ob' = fa_out ob)"
proof (cases "s > fa_output_mtu ob \<or> l > fa_output_mtu ob - s")
  case True
  then show ?thesis using inv by (intro exI [of _ ob] exI [of _ False]) (auto simp: process_chunk_def)
next
  case False
  obtain ob1 i where o: "fpa_obtain_frame ob frame_id = Some (ob1, i)" "fpa_inv F ob1" "i \<in> set (fa_used ob1)"
    "fr_id (fa_frames ob1 ! i) = frame_id" and same: "fa_output_mtu ob1 = fa_output_mtu ob"
    "fa_num_chunks ob1 = fa_num_chunks ob" "fa_in ob1 = fa_in ob" "fa_in_pos ob1 = fa_in_pos ob" "fa_out ob1 = fa_out ob"
    using fpa_obtain_frame_spec [OF inv, of frame_id] by auto
  let ?fr = "fa_frames ob1 ! i"
  let ?new = "chunk_added ob1 ?fr s l is_last payload"
  let ?ob = "ob1\<lparr>fa_frames := (fa_frames ob1)[i := ?new]\<rparr>"
  have lists: "fpa_lists ob1" and fr: "frame_inv F ob1 ?fr" using o by (auto simp: fpa_inv_def)
  have i: "i < length (fa_frames ob1)" using lists o(3) by (rule fpa_lists_used)
  have len: "length (fr_buffer ?fr) = fa_output_mtu ob1" using lists i by (simp add: fpa_lists_def)
  have fits: "s + l \<le> fa_output_mtu ob1" using False same by auto
  have wf: "frame_wf (fa_output_mtu ob1) ?fr" using fr by (simp add: frame_inv_def)
  have step: "process_chunk ob frame_id s l is_last payload =
      (if chunk_rejected ?fr s l is_last then Some (fpa_free_frame i ob1, False)
       else if fr_length ?new < 0 \<or> int (fr_sum ?new) < fr_length ?new then
         (if length (fr_chunks ?new) = fa_num_chunks ob1 then Some (fpa_free_frame i ?ob, False) else Some (?ob, False))
       else if int (fr_sum ?new) \<noteq> fr_length ?new then None
       else Some ((fpa_free_frame i ?ob)\<lparr>fa_out := Some (i, nat (fr_length ?new))\<rparr>, True))"
    using False o(1) fr by (simp add: process_chunk_def Let_def frame_inv_def)
  show ?thesis
  proof (cases "chunk_rejected ?fr s l is_last")
    case True
    have "fpa_inv F (fpa_free_frame i ob1)" using o(2) by (intro fpa_inv_free_frame o(3) lists) (simp add: fpa_inv_def)
    then show ?thesis using step True same by (intro exI [of _ "fpa_free_frame i ob1"] exI [of _ False]) simp
  next
    case ok: False
    have new: "frame_wf (fa_output_mtu ob1) ?new" "frame_content F ?new"
      using chunk_added_wf [OF wf fits ok] chunk_added_content [OF wf len fits ok] chunk o(4) fr by (simp_all add: frame_inv_def)
    have "length (take l payload) \<le> l" by simp
    then have nlen: "length (fr_buffer ?new) = fa_output_mtu ob1" using len fits by simp
    have lists': "fpa_lists ?ob" using lists nlen by (intro fpa_lists_set_frame) simp_all
    have others: "frame_inv F ?ob (fa_frames ?ob ! j)" if "j \<in> set (fa_used ?ob)" "j \<noteq> i" for j
      using that o(2) by (simp add: fpa_inv_def frame_inv_def)
    have freed: "fpa_inv F (fpa_free_frame i ?ob)" using o(3) others by (intro fpa_inv_free_frame lists') simp_all
    show ?thesis
    proof (cases "fr_length ?new < 0 \<or> int (fr_sum ?new) < fr_length ?new")
      case True
      have keep: "fpa_inv F ?ob" if "length (fr_chunks ?new) \<noteq> fa_num_chunks ob1"
        unfolding fpa_inv_def
      proof (intro conjI ballI)
        fix j assume j: "j \<in> set (fa_used ?ob)"
        have "frame_inv F ?ob ?new" using new fr that by (simp add: frame_inv_def)
        then show "frame_inv F ?ob (fa_frames ?ob ! j)" using others [OF j] i by (cases "j = i") simp_all
      qed (rule lists')
      show ?thesis
      proof (cases "length (fr_chunks ?new) = fa_num_chunks ob1")
        case True
        then show ?thesis using step ok \<open>fr_length ?new < 0 \<or> _\<close> freed same
          by (intro exI [of _ "fpa_free_frame i ?ob"] exI [of _ False]) simp
      next
        case False
        then show ?thesis using step ok True keep same by (intro exI [of _ ?ob] exI [of _ False]) simp
      qed
    next
      case full: False
      let ?done = "(fpa_free_frame i ?ob)\<lparr>fa_out := Some (i, nat (fr_length ?new))\<rparr>"
      have "fpa_inv F ?done" using freed by (simp add: fpa_inv_def fpa_lists_def frame_inv_def)
      moreover have "out_ok F ?done i (nat (fr_length ?new))"
        using frame_complete_content [OF new(1) full new(2) _ nlen] new(1) i nlen by (auto simp: out_ok_def frame_wf_def)
      ultimately show ?thesis using step ok full frame_complete(1) [OF new(1) full] same
        by (intro exI [of _ ?done] exI [of _ True]) simp
    qed
  qed
qed

subsection \<open>Packet time\<close>

abbreviation timed_out :: "FragmentProtoAssembler \<Rightarrow> nat \<Rightarrow> bool" where
  "timed_out ob i \<equiv> fa_time ob - fr_time (fa_frames ob ! i) > of_nat (fa_time_tolerance ob)"

definition is_min_frame :: "FragmentProtoAssembler \<Rightarrow> nat set \<Rightarrow> nat option \<Rightarrow> bool" where
  "is_min_frame ob X m \<longleftrightarrow> (case m of None \<Rightarrow> X = {}
     | Some j \<Rightarrow> j \<in> X \<and> (\<forall>i\<in>X. fr_time (fa_frames ob ! j) \<le> fr_time (fa_frames ob ! i)))"

lemma is_min_frame_insert:
  "is_min_frame ob X m \<Longrightarrow> is_min_frame ob (insert i X) (case m of None \<Rightarrow> Some i
     | Some j \<Rightarrow> if fr_time (fa_frames ob ! i) < fr_time (fa_frames ob ! j) then Some i else m)"
  by (auto simp: is_min_frame_def split: option.splits)

lemma is_min_frame_free [simp]: "is_min_frame (fpa_free_frame i ob) X m \<longleftrightarrow> is_min_frame ob X m"
  by (cases m) (simp_all add: is_min_frame_def)

lemma reduce_scan_spec:
  assumes "fpa_inv F ob" "distinct us" "set us \<subseteq> set (fa_used ob)" "is_min_frame ob (set (fa_used ob) - set us) m"
    "\<forall>i\<in>set (fa_used ob) - set us. \<not> timed_out ob i"
  shows "\<exists>ob' m'. reduce_scan us m ob = Some (ob', m') \<and> fpa_inv F ob' \<and> is_min_frame ob' (set (fa_used ob')) m' \<and>
    (\<forall>i\<in>set (fa_used ob'). \<not> timed_out ob' i) \<and> fa_time ob' = fa_time ob \<and> fa_frames ob' = fa_frames ob \<and>
    fa_used ob' = filter (\<lambda>i. i \<in> set us \<longrightarrow> \<not> timed_out ob i) (fa_used ob) \<and> fa_in ob' = fa_in ob \<and>
    fa_in_pos ob' = fa_in_pos ob \<and> fa_out ob' = fa_out ob \<and> fa_output_mtu ob' = fa_output_mtu ob \<and>
    fa_num_chunks ob' = fa_num_chunks ob"
  using assms
proof (induction us arbitrary: ob m)
  case Nil
  then show ?case by simp
next
  case (Cons i us)
  have i: "i \<in> set (fa_used ob)" "i \<notin> set us" and d: "distinct (fa_used ob)"
    using Cons.prems by (auto simp: fpa_inv_def fpa_lists_def)
  have t: "frame_is_timed_out ob (fa_frames ob ! i) = Some (timed_out ob i)"
    using Cons.prems(1) i by (intro frame_is_timed_out_spec [of F]) (simp add: fpa_inv_def)
  show ?case
  proof (cases "timed_out ob i")
    case True
    let ?ob = "fpa_free_frame i ob"
    have h1: "fpa_inv F ?ob" using Cons.prems(1) i by (intro fpa_inv_free_frame) (auto simp: fpa_inv_def)
    have X: "set (fa_used ?ob) - set us = set (fa_used ob) - set (i # us)" using d by (auto simp: set_remove1_eq)
    have h2: "distinct us" and h3: "set us \<subseteq> set (fa_used ?ob)" using Cons.prems(2,3) i(2) d by (auto simp: set_remove1_eq)
    have h4: "is_min_frame ?ob (set (fa_used ?ob) - set us) m" unfolding X is_min_frame_free by (rule Cons.prems(4))
    have h5: "\<forall>i\<in>set (fa_used ?ob) - set us. \<not> timed_out ?ob i" unfolding X using Cons.prems(5) by simp
    obtain ob' m' where *: "reduce_scan us m ?ob = Some (ob', m')" "fpa_inv F ob'" "is_min_frame ob' (set (fa_used ob')) m'"
      "\<forall>i\<in>set (fa_used ob'). \<not> timed_out ob' i" "fa_time ob' = fa_time ob" "fa_frames ob' = fa_frames ob"
      "fa_used ob' = filter (\<lambda>j. j \<in> set us \<longrightarrow> \<not> timed_out ob j) (remove1 i (fa_used ob))" "fa_in ob' = fa_in ob"
      "fa_in_pos ob' = fa_in_pos ob" "fa_out ob' = fa_out ob" "fa_output_mtu ob' = fa_output_mtu ob" "fa_num_chunks ob' = fa_num_chunks ob"
      using Cons.IH [OF h1 h2 h3 h4 h5] by auto
    have "fa_used ob' = filter (\<lambda>j. j \<in> set (i # us) \<longrightarrow> \<not> timed_out ob j) (fa_used ob)"
      unfolding *(7) using d True by (auto simp: distinct_remove1_removeAll removeAll_filter_not_eq intro!: filter_cong)
    then show ?thesis using t True * by simp
  next
    case False
    let ?m = "case m of None \<Rightarrow> Some i
      | Some j \<Rightarrow> if fr_time (fa_frames ob ! i) < fr_time (fa_frames ob ! j) then Some i else m"
    have X: "set (fa_used ob) - set us = insert i (set (fa_used ob) - set (i # us))" using i by auto
    have "is_min_frame ob (set (fa_used ob) - set us) ?m" unfolding X by (rule is_min_frame_insert) (rule Cons.prems(4))
    moreover have "\<forall>j\<in>set (fa_used ob) - set us. \<not> timed_out ob j" unfolding X using False Cons.prems(5) by blast
    moreover have "filter (\<lambda>j. j \<in> set us \<longrightarrow> \<not> timed_out ob j) (fa_used ob) = filter (\<lambda>j. j \<in> set (i # us) \<longrightarrow> \<not> timed_out ob j) (fa_used ob)"
      using False by (auto intro!: filter_cong)
    ultimately show ?thesis using Cons.IH [of ob ?m] Cons.prems(1-3) t False by simp
  qed
qed

lemma foldl_set_times:
  assumes "distinct us" "set us \<subseteq> {..<length fs}"
  shows "foldl (\<lambda>fs i. fs[i := (fs ! i)\<lparr>fr_time := fr_time (fs ! i) - d\<rparr>]) fs us =
    map (\<lambda>i. if i \<in> set us then (fs ! i)\<lparr>fr_time := fr_time (fs ! i) - d\<rparr> else fs ! i) [0..<length fs]"
  using assms
proof (induction us arbitrary: fs)
  case (Cons u us)
  then show ?case by (auto intro!: nth_equalityI) (auto simp: nth_list_update)
qed (simp add: map_nth)

text \<open>The times of the frames are shifted, and nothing else changes.\<close>

definition shift_times :: "nat set \<Rightarrow> u32 \<Rightarrow> FragmentProtoAssembler_frame list \<Rightarrow> FragmentProtoAssembler_frame list" where
  "shift_times X d fs = map (\<lambda>i. if i \<in> X then (fs ! i)\<lparr>fr_time := fr_time (fs ! i) - d\<rparr> else fs ! i) [0..<length fs]"

lemma shift_times_inv:
  assumes inv: "fpa_inv F ob" and d: "\<forall>i\<in>set (fa_used ob). d \<le> fr_time (fa_frames ob ! i)" "d \<le> fa_time ob"
  shows "fpa_inv F (ob\<lparr>fa_frames := shift_times (set (fa_used ob)) d (fa_frames ob), fa_time := fa_time ob - d\<rparr>)"
proof -
  let ?fs = "shift_times (set (fa_used ob)) d (fa_frames ob)"
  have lists: "fpa_lists ob" using inv by (simp add: fpa_inv_def)
  have nth: "?fs ! i = (if i \<in> set (fa_used ob) then (fa_frames ob ! i)\<lparr>fr_time := fr_time (fa_frames ob ! i) - d\<rparr> else fa_frames ob ! i)"
    if "i < length (fa_frames ob)" for i using that by (simp add: shift_times_def)
  have used: "i < length (fa_frames ob)" if "i \<in> set (fa_used ob)" for i using lists that by (rule fpa_lists_used)
  have "\<forall>fr\<in>set ?fs. length (fr_buffer fr) = fa_output_mtu ob"
    using lists by (auto simp: fpa_lists_def shift_times_def)
  moreover have "(\<forall>x i. fa_tree ob x = Some i \<longleftrightarrow> i \<in> set (fa_used ob) \<and> fr_id (?fs ! i) = x)"
    using lists used nth by (auto simp: fpa_lists_def)
  ultimately have "fpa_lists (ob\<lparr>fa_frames := ?fs, fa_time := fa_time ob - d\<rparr>)"
    using lists by (simp add: fpa_lists_def shift_times_def)
  moreover have "frame_inv F (ob\<lparr>fa_frames := ?fs, fa_time := fa_time ob - d\<rparr>) (?fs ! i)" if "i \<in> set (fa_used ob)" for i
  proof -
    have "frame_inv F ob (fa_frames ob ! i)" using inv that by (simp add: fpa_inv_def)
    moreover have "fr_time (fa_frames ob ! i) - d \<le> fa_time ob - d"
      using calculation d that by (simp add: frame_inv_def word_le_nat_alt unat_sub diff_le_mono)
    ultimately show ?thesis using that used [OF that] nth by (simp add: frame_inv_def frame_wf_def frame_content_def)
  qed
  ultimately show ?thesis by (simp add: fpa_inv_def)
qed

lemma reduce_times_spec:
  assumes inv: "fpa_inv F ob" and max: "fa_time ob = FPA_MAX_TIME"
  shows "\<exists>ob' d. reduce_times ob = Some ob' \<and> fpa_inv F ob' \<and> fa_in ob' = fa_in ob \<and> fa_in_pos ob' = fa_in_pos ob \<and>
    fa_out ob' = fa_out ob \<and> fa_output_mtu ob' = fa_output_mtu ob \<and> fa_num_chunks ob' = fa_num_chunks ob \<and>
    fa_used ob' = filter (\<lambda>i. \<not> timed_out ob i) (fa_used ob) \<and>
    fa_frames ob' = shift_times (set (fa_used ob')) d (fa_frames ob) \<and>
    (if fa_used ob' = [] then fa_time ob' = 0 else fa_time ob' = fa_time ob - d \<and> 0 < d \<and>
      (\<forall>i\<in>set (fa_used ob'). d \<le> fr_time (fa_frames ob ! i)))"
proof -
  have "distinct (fa_used ob)" using inv by (simp add: fpa_inv_def fpa_lists_def)
  moreover have "is_min_frame ob (set (fa_used ob) - set (fa_used ob)) None" by (simp add: is_min_frame_def)
  ultimately obtain ob1 m where scan: "reduce_scan (fa_used ob) None ob = Some (ob1, m)" "fpa_inv F ob1" "is_min_frame ob1 (set (fa_used ob1)) m"
    "\<forall>i\<in>set (fa_used ob1). \<not> timed_out ob1 i" "fa_time ob1 = fa_time ob" "fa_frames ob1 = fa_frames ob"
    "fa_used ob1 = filter (\<lambda>i. i \<in> set (fa_used ob) \<longrightarrow> \<not> timed_out ob i) (fa_used ob)"
    "fa_in ob1 = fa_in ob" "fa_in_pos ob1 = fa_in_pos ob" "fa_out ob1 = fa_out ob"
    "fa_output_mtu ob1 = fa_output_mtu ob" "fa_num_chunks ob1 = fa_num_chunks ob"
    using reduce_scan_spec [OF inv _ subset_refl, of None] by auto
  have used: "fa_used ob1 = filter (\<lambda>i. \<not> timed_out ob i) (fa_used ob)" unfolding scan(7) by (rule filter_cong) simp_all
  show ?thesis
  proof (cases m)
    case None
    then have "fa_used ob1 = []" using scan(3) by (simp add: is_min_frame_def)
    moreover have "shift_times {} d fs = fs" for d fs by (simp add: shift_times_def map_nth)
    ultimately show ?thesis using None scan used by (simp add: reduce_times_def fpa_inv_def fpa_lists_def)
  next
    case (Some j)
    let ?d = "fr_time (fa_frames ob1 ! j)"
    have j: "j \<in> set (fa_used ob1)" "\<forall>i\<in>set (fa_used ob1). ?d \<le> fr_time (fa_frames ob1 ! i)" using scan(3) Some by (simp_all add: is_min_frame_def)
    have le: "?d \<le> fa_time ob1" using scan(2) j(1) by (simp add: fpa_inv_def frame_inv_def)
    have lists: "fpa_lists ob1" using scan(2) by (simp add: fpa_inv_def)
    have "\<not> timed_out ob1 j" using scan(4) j(1) by blast
    moreover have "of_nat (fa_time_tolerance ob1) < FPA_MAX_TIME"
      using lists by (simp add: fpa_lists_def word_less_nat_alt unat_of_nat FPA_MAX_TIME_def unat_max_word)
    ultimately have pos: "0 < ?d" using max scan(5) by (cases "?d = 0") (auto simp: word_neq_0_conv)
    have fold: "foldl (\<lambda>fs i. fs[i := (fs ! i)\<lparr>fr_time := fr_time (fs ! i) - ?d\<rparr>]) (fa_frames ob1) (fa_used ob1) =
        shift_times (set (fa_used ob1)) ?d (fa_frames ob1)"
      unfolding shift_times_def using lists by (intro foldl_set_times) (auto simp: fpa_lists_def)
    let ?ob = "ob1\<lparr>fa_frames := shift_times (set (fa_used ob1)) ?d (fa_frames ob1), fa_time := fa_time ob1 - ?d\<rparr>"
    show ?thesis
    proof (intro exI [of _ ?ob] exI [of _ ?d] conjI)
      show "reduce_times ob = Some ?ob" using scan(1) Some fold by (simp add: reduce_times_def Let_def)
      show "fpa_inv F ?ob" using scan(2) j(2) le by (rule shift_times_inv)
      show "fa_used ?ob = filter (\<lambda>i. \<not> timed_out ob i) (fa_used ob)" using used by simp
      show "if fa_used ?ob = [] then fa_time ?ob = 0 else fa_time ?ob = fa_time ob - ?d \<and> 0 < ?d \<and>
          (\<forall>i\<in>set (fa_used ?ob). ?d \<le> fr_time (fa_frames ob ! i))"
        using j pos scan(5,6) by (cases "fa_used ob1") auto
    qed (use scan(6,8-12) in simp_all)
  qed
qed

lemma unat_time_Suc: "t < FPA_MAX_TIME \<Longrightarrow> unat (t + 1) = unat t + 1"
  by (simp add: FPA_MAX_TIME_def word_less_nat_alt unat_max_word unat_word_ariths)

lemma frame_inv_time_Suc:
  "fa_time ob < FPA_MAX_TIME \<Longrightarrow> frame_inv F ob fr \<Longrightarrow> frame_inv F (ob\<lparr>fa_time := fa_time ob + 1\<rparr>) fr"
  by (simp add: frame_inv_def word_le_nat_alt unat_time_Suc)

lemma fpa_inv_time_Suc: "fa_time ob < FPA_MAX_TIME \<Longrightarrow> fpa_inv F ob \<Longrightarrow> fpa_inv F (ob\<lparr>fa_time := fa_time ob + 1\<rparr>)"
  using frame_inv_time_Suc by (simp add: fpa_inv_def fpa_lists_def)

lemma increment_time_spec:
  assumes inv: "fpa_inv F ob"
  shows "\<exists>ob'. increment_time ob = Some ob' \<and> fpa_inv F ob' \<and> fa_in ob' = fa_in ob \<and> fa_in_pos ob' = fa_in_pos ob \<and> fa_out ob' = fa_out ob"
proof (cases "fa_time ob = FPA_MAX_TIME")
  case True
  obtain ob1 d where r: "reduce_times ob = Some ob1" "fpa_inv F ob1" "fa_in ob1 = fa_in ob" "fa_in_pos ob1 = fa_in_pos ob"
    "fa_out ob1 = fa_out ob" "if fa_used ob1 = [] then fa_time ob1 = 0 else fa_time ob1 = fa_time ob - d \<and> 0 < d \<and>
      (\<forall>i\<in>set (fa_used ob1). d \<le> fr_time (fa_frames ob ! i))"
    using reduce_times_spec [OF inv True] by blast
  show ?thesis
  proof (cases "fa_used ob1 = []")
    case True
    then show ?thesis using r \<open>fa_time ob = FPA_MAX_TIME\<close> by (simp add: increment_time_def)
  next
    case False
    then have "fa_time ob1 < FPA_MAX_TIME" using r(6) True
      by (auto simp: FPA_MAX_TIME_def word_less_nat_alt unat_sub unat_max_word unat_gt_0)
    then show ?thesis using r False True fpa_inv_time_Suc [of ob1 F] by (simp add: increment_time_def)
  qed
next
  case False
  then have "fa_time ob < FPA_MAX_TIME" by (simp add: FPA_MAX_TIME_def word_order.not_eq_extremum)
  then show ?thesis using False fpa_inv_time_Suc [OF _ inv] by (simp add: increment_time_def)
qed

subsection \<open>Packets as lists of chunks\<close>

datatype wire_chunk = Chunk (wc_id: fragmentproto_frameid) (wc_start: nat) (wc_payload: bytes) (wc_last: bool)

text \<open>The chunks a packet is read as: reading stops at the first malformed one.\<close>

function parse_chunks :: "host \<Rightarrow> bytes \<Rightarrow> wire_chunk list" where
  "parse_chunks h bs =
     (if length bs < fragmentproto_header_size then []
      else let chunk_len = unat (ltoh16 h (host_load h (mem_read bs 4 2) :: u16)) in
        if 1 < unat (bs ! 6) \<or> length bs < fragmentproto_header_size + chunk_len then []
        else Chunk (ltoh16 h (host_load h (mem_read bs 0 2))) (unat (ltoh16 h (host_load h (mem_read bs 2 2) :: u16)))
            (take chunk_len (drop fragmentproto_header_size bs)) (unat (bs ! 6) = 1) #
          parse_chunks h (drop (fragmentproto_header_size + chunk_len) bs))"
  by auto
termination by (relation "measure (\<lambda>(h, bs). length bs)") (auto simp: fragmentproto_header_size_def)

declare parse_chunks.simps [simp del]

text \<open>Processing chunks until a frame is complete; the second component is what is left to do.\<close>

fun process_chunks :: "wire_chunk list \<Rightarrow> FragmentProtoAssembler \<Rightarrow> (FragmentProtoAssembler \<times> wire_chunk list \<times> bool) option" where
  "process_chunks [] ob = Some (ob, [], False)"
| "process_chunks (c # cs) ob =
     (case process_chunk ob (wc_id c) (wc_start c) (length (wc_payload c)) (wc_last c) (wc_payload c) of None \<Rightarrow> None
      | Some (ob, True) \<Rightarrow> Some (ob, cs, True)
      | Some (ob, False) \<Rightarrow> process_chunks cs ob)"

lemma process_chunk_take: "process_chunk ob x s l is_last (take l payload) = process_chunk ob x s l is_last payload"
proof -
  have "chunk_added ob fr s l is_last (take l payload) = chunk_added ob fr s l is_last payload" for ob fr
    by (simp add: chunk_added_def)
  then show ?thesis by (simp only: process_chunk_def)
qed

lemma mem_read_drop: "mem_read (drop p m) q n = mem_read m (p + q) n"
  by (simp add: mem_read_def add.commute)

lemma process_loop_chunks:
  "(case process_chunks (parse_chunks h (drop pos data)) ob of None \<Rightarrow> process_loop h data ob pos = None
    | Some (ob', rest, sent) \<Rightarrow> \<exists>pos'. process_loop h data ob pos = Some (ob', pos', sent) \<and>
        (sent \<longrightarrow> parse_chunks h (drop pos' data) = rest))"
proof (induction h data ob pos rule: process_loop.induct)
  case (1 h data ob pos)
  let ?bs = "drop pos data"
  let ?len = "unat (ltoh16 h (host_load h (mem_read data (pos + 4) 2) :: u16))"
  let ?pos = "pos + fragmentproto_header_size + ?len"
  show ?case
  proof (cases "length data - pos < fragmentproto_header_size \<or> 1 < unat (data ! (pos + 6)) \<or> length data - (pos + fragmentproto_header_size) < ?len")
    case True
    then have "parse_chunks h ?bs = []"
      by (subst parse_chunks.simps) (auto simp: mem_read_drop Let_def fragmentproto_header_size_def)
    moreover have "\<exists>pos'. process_loop h data ob pos = Some (ob, pos', False)"
      using True by (subst process_loop.simps) (auto simp: Let_def ltoh8_def htol8_def fragmentproto_header_size_def)
    ultimately show ?thesis by simp
  next
    case False
    then have lt: "pos < length data" "pos + 6 < length data" and hs: "\<not> length data - pos < fragmentproto_header_size"
      by (auto simp: fragmentproto_header_size_def)
    let ?x = "ltoh16 h (host_load h (mem_read data pos 2) :: u16)" and ?s = "unat (ltoh16 h (host_load h (mem_read data (pos + 2) 2) :: u16))"
      and ?l = "unat (data ! (pos + 6)) = 1" and ?pay = "drop (pos + fragmentproto_header_size) data"
    have last: "unat (ltoh8 (data ! (pos + 6))) = 0 \<or> unat (ltoh8 (data ! (pos + 6))) = 1"
      using False by (auto simp: ltoh8_def htol8_def)
    have parse: "parse_chunks h ?bs = Chunk ?x ?s (take ?len ?pay) ?l # parse_chunks h (drop ?pos data)"
      using False lt by (subst parse_chunks.simps)
        (auto simp: mem_read_drop Let_def fragmentproto_header_size_def ac_simps)
    have loop: "process_loop h data ob pos = (case process_chunk ob ?x ?s ?len ?l ?pay of None \<Rightarrow> None
        | Some (ob, res) \<Rightarrow> if res then Some (ob, ?pos, True) else process_loop h data ob ?pos)"
      using False lt last by (subst process_loop.simps) (auto simp: Let_def ltoh8_def htol8_def split: option.splits)
    have len: "?len \<le> length ?pay" using False by simp
    have "length (take ?len ?pay) = ?len" using len by simp
    then have chunks: "process_chunks (parse_chunks h ?bs) ob = (case process_chunk ob ?x ?s ?len ?l ?pay of None \<Rightarrow> None
        | Some (ob, True) \<Rightarrow> Some (ob, parse_chunks h (drop ?pos data), True)
        | Some (ob, False) \<Rightarrow> process_chunks (parse_chunks h (drop ?pos data)) ob)"
      unfolding parse process_chunks.simps wire_chunk.sel by (simp only: process_chunk_take)
    show ?thesis
    proof (cases "process_chunk ob ?x ?s ?len ?l ?pay")
      case None
      then show ?thesis using chunks loop by simp
    next
      case (Some r)
      obtain ob' res where r: "r = (ob', res)" by (cases r)
      show ?thesis
      proof (cases res)
        case True
        then show ?thesis using chunks loop Some r by simp
      next
        case F: False
        have IH: "case process_chunks (parse_chunks h (drop ?pos data)) ob' of None \<Rightarrow> process_loop h data ob' ?pos = None
            | Some (ob'', rest, sent) \<Rightarrow> \<exists>pos'. process_loop h data ob' ?pos = Some (ob'', pos', sent) \<and>
                (sent \<longrightarrow> parse_chunks h (drop pos' data) = rest)"
          using False last Some r F by (intro 1 [OF lt(1) hs refl refl refl refl]) (auto simp: ltoh8_def htol8_def)
        moreover have "process_chunks (parse_chunks h ?bs) ob = process_chunks (parse_chunks h (drop ?pos data)) ob'"
          "process_loop h data ob pos = process_loop h data ob' ?pos" using chunks loop Some r F by simp_all
        ultimately show ?thesis by (simp only:)
      qed
    qed
  qed
qed

subsection \<open>Runs of the assembler\<close>

datatype fpa_event = FIn bytes | FOut fragmentproto_frameid bytes

inductive fpa_step :: "host \<Rightarrow> FragmentProtoAssembler \<Rightarrow> fpa_event \<Rightarrow> FragmentProtoAssembler \<Rightarrow> bool" for h where
  fpa_in: "fa_in ob = None \<Longrightarrow> fpa_input_handler_send h ob data = Some ob' \<Longrightarrow> fpa_step h ob (FIn data) ob'"
| fpa_out: "fa_out ob = Some (i, n) \<Longrightarrow> fpa_output_handler_done h ob = Some ob' \<Longrightarrow>
    fpa_step h ob (FOut (fr_id (fa_frames ob ! i)) (take n (fr_buffer (fa_frames ob ! i)))) ob'"

inductive fpa_run :: "host \<Rightarrow> FragmentProtoAssembler \<Rightarrow> fpa_event list \<Rightarrow> FragmentProtoAssembler \<Rightarrow> bool" for h where
  fpa_refl: "fpa_run h ob [] ob"
| fpa_trans: "fpa_run h ob es ob' \<Longrightarrow> fpa_step h ob' e ob'' \<Longrightarrow> fpa_run h ob (es @ [e]) ob''"

definition wire_ok :: "(fragmentproto_frameid \<rightharpoonup> bytes) \<Rightarrow> wire_chunk \<Rightarrow> bool" where
  "wire_ok F c \<longleftrightarrow> chunk_of F (wc_id c) (wc_start c) (length (wc_payload c)) (wc_last c) (wc_payload c)"

definition packet_ok :: "(fragmentproto_frameid \<rightharpoonup> bytes) \<Rightarrow> host \<Rightarrow> bytes \<Rightarrow> bool" where
  "packet_ok F h data \<longleftrightarrow> list_all (wire_ok F) (parse_chunks h data)"

definition fpa_good :: "(fragmentproto_frameid \<rightharpoonup> bytes) \<Rightarrow> host \<Rightarrow> FragmentProtoAssembler \<Rightarrow> bool" where
  "fpa_good F h ob \<longleftrightarrow> fpa_inv F ob \<and> (case fa_out ob of None \<Rightarrow> fa_in ob = None
     | Some (i, n) \<Rightarrow> out_ok F ob i n \<and> (case fa_in ob of None \<Rightarrow> False | Some data \<Rightarrow> packet_ok F h (drop (fa_in_pos ob) data)))"

lemma process_chunks_spec:
  assumes "fpa_inv F ob" "list_all (wire_ok F) cs"
  shows "\<exists>ob' rest sent. process_chunks cs ob = Some (ob', rest, sent) \<and> fpa_inv F ob' \<and> fa_in ob' = fa_in ob \<and>
    list_all (wire_ok F) rest \<and> (if sent then \<exists>i n. fa_out ob' = Some (i, n) \<and> out_ok F ob' i n else fa_out ob' = fa_out ob)"
  using assms
proof (induction cs arbitrary: ob)
  case (Cons c cs)
  obtain ob' r where p: "process_chunk ob (wc_id c) (wc_start c) (length (wc_payload c)) (wc_last c) (wc_payload c) = Some (ob', r)"
    "fpa_inv F ob'" "fa_in ob' = fa_in ob" "if r then \<exists>i n. fa_out ob' = Some (i, n) \<and> out_ok F ob' i n else fa_out ob' = fa_out ob"
    using process_chunk_spec [OF Cons.prems(1), of "wc_id c" "wc_start c" "length (wc_payload c)" "wc_last c" "wc_payload c"]
      Cons.prems(2) by (auto simp: wire_ok_def)
  show ?case
  proof (cases r)
    case True
    then show ?thesis using p Cons.prems(2) by (intro exI [of _ ob'] exI [of _ cs] exI [of _ True]) simp
  next
    case False
    then have "process_chunks (c # cs) ob = process_chunks cs ob'" "fa_out ob' = fa_out ob" using p by simp_all
    moreover have "list_all (wire_ok F) cs" using Cons.prems(2) by simp
    ultimately show ?thesis using Cons.IH [OF p(2)] p(3) by (simp only:)
  qed
qed auto

lemma process_input_spec:
  assumes inv: "fpa_inv F ob" and data: "fa_in ob = Some data" "packet_ok F h (drop (fa_in_pos ob) data)" and idle: "fa_out ob = None"
  shows "\<exists>ob'. process_input h ob = Some ob' \<and> fpa_good F h ob'"
proof -
  obtain ob1 rest sent where c: "process_chunks (parse_chunks h (drop (fa_in_pos ob) data)) ob = Some (ob1, rest, sent)"
    "fpa_inv F ob1" "fa_in ob1 = Some data" "list_all (wire_ok F) rest"
    "if sent then \<exists>i n. fa_out ob1 = Some (i, n) \<and> out_ok F ob1 i n else fa_out ob1 = None"
    using process_chunks_spec [OF inv] data idle by (metis packet_ok_def)
  obtain pos where loop: "process_loop h data ob (fa_in_pos ob) = Some (ob1, pos, sent)" "sent \<longrightarrow> parse_chunks h (drop pos data) = rest"
    using process_loop_chunks [where h = h and pos = "fa_in_pos ob" and data = data and ob = ob] c(1) by auto
  let ?ob = "ob1\<lparr>fa_in_pos := pos\<rparr>"
  have inv': "fpa_inv F ?ob" using c(2) by (simp add: fpa_inv_def fpa_lists_def frame_inv_def)
  show ?thesis
  proof (cases sent)
    case True
    then obtain i n where "fa_out ob1 = Some (i, n)" "out_ok F ob1 i n" using c(5) by auto
    then have "fpa_good F h ?ob" using inv' loop(2) True c(3,4) by (simp add: fpa_good_def out_ok_def packet_ok_def)
    then show ?thesis using True loop(1) data(1) by (simp add: process_input_def)
  next
    case False
    obtain ob2 where i: "increment_time ?ob = Some ob2" "fpa_inv F ob2" "fa_out ob2 = None"
      using increment_time_spec [OF inv'] c(5) False by auto
    have "fpa_inv F (ob2\<lparr>fa_in := None\<rparr>)" using i(2) by (simp add: fpa_inv_def fpa_lists_def frame_inv_def)
    then show ?thesis using False loop(1) data(1) i by (simp add: process_input_def fpa_good_def)
  qed
qed

lemma fpa_input_spec:
  assumes "fpa_good F h ob" "fa_in ob = None" "packet_ok F h data"
  shows "\<exists>ob'. fpa_input_handler_send h ob data = Some ob' \<and> fpa_good F h ob'"
proof -
  have out: "fa_out ob = None" using assms by (auto simp: fpa_good_def split: option.splits)
  have "fpa_inv F (ob\<lparr>fa_in := Some data, fa_in_pos := 0\<rparr>)"
    using assms(1) by (simp add: fpa_good_def fpa_inv_def fpa_lists_def frame_inv_def)
  then show ?thesis
    using process_input_spec [of F "ob\<lparr>fa_in := Some data, fa_in_pos := 0\<rparr>" data h] assms(2,3) out
    by (simp add: fpa_input_handler_send_def)
qed

lemma fpa_output_spec:
  assumes "fpa_good F h ob" "fa_out ob = Some (i, n)"
  shows "\<exists>ob'. fpa_output_handler_done h ob = Some ob' \<and> fpa_good F h ob'" "out_ok F ob i n"
proof -
  have inv: "fpa_inv F (ob\<lparr>fa_out := None\<rparr>)"
    using assms(1) by (simp add: fpa_good_def fpa_inv_def fpa_lists_def frame_inv_def)
  obtain data where "fa_in ob = Some data" "packet_ok F h (drop (fa_in_pos ob) data)"
    using assms by (auto simp: fpa_good_def split: option.splits)
  then show "\<exists>ob'. fpa_output_handler_done h ob = Some ob' \<and> fpa_good F h ob'"
    using process_input_spec [OF inv] by (simp add: fpa_output_handler_done_def)
  show "out_ok F ob i n" using assms by (simp add: fpa_good_def)
qed

lemma fpa_good_Init:
  assumes "FragmentProtoAssembler_Init e c b mem output_mtu num_frames num_chunks = Some ob" "length mem = num_frames"
    "\<forall>fr\<in>set mem. length (fr_buffer fr) = output_mtu" "0 < num_frames" "num_frames < unat FPA_MAX_TIME" "0 < num_chunks"
  shows "fpa_good F h ob"
  using assms by (auto simp: FragmentProtoAssembler_Init_def fpa_good_def fpa_inv_def fpa_lists_def split: if_splits)

lemma fpa_good_run:
  assumes "fpa_run h ob es ob'" "fpa_good F h ob" "\<And>data. FIn data \<in> set es \<Longrightarrow> packet_ok F h data"
  shows "fpa_good F h ob' \<and> (\<forall>x f f'. FOut x f \<in> set es \<longrightarrow> F x = Some f' \<longrightarrow> f = f')"
  using assms
proof (induction rule: fpa_run.induct)
  case (fpa_trans ob es ob' e ob'')
  then have good: "fpa_good F h ob'" and outs: "\<forall>x f f'. FOut x f \<in> set es \<longrightarrow> F x = Some f' \<longrightarrow> f = f'" by auto
  from fpa_trans(2) show ?case
  proof cases
    case (fpa_in data)
    then show ?thesis using fpa_input_spec [OF good fpa_in(2), of data] fpa_trans.prems(2) outs by auto
  next
    case (fpa_out i n)
    then show ?thesis using fpa_output_spec [OF good fpa_out(2)] outs by (auto simp: out_ok_def)
  qed
qed simp

definition fpa_test_mem :: "nat \<Rightarrow> nat \<Rightarrow> FragmentProtoAssembler_frame list" where
  "fpa_test_mem num_frames output_mtu = replicate num_frames \<lparr>fr_chunks = [], fr_buffer = replicate output_mtu 0, fr_id = 0,
     fr_time = 0, fr_sum = 0, fr_length = -1, fr_length_so_far = 0\<rparr>"

definition fpa_test :: FragmentProtoAssembler where
  "fpa_test = the (FragmentProtoAssembler_Init True True True (fpa_test_mem 2 4) 4 2 3)"

lemma fpa_test_init: "FragmentProtoAssembler_Init True True True (fpa_test_mem 2 4) 4 2 3 = Some fpa_test"
  by (simp add: fpa_test_def FragmentProtoAssembler_Init_def)

lemma fpa_test_mem_ok:
  "length (fpa_test_mem 2 4) = 2" "\<forall>fr\<in>set (fpa_test_mem 2 4). length (fr_buffer fr) = 4" "2 < unat FPA_MAX_TIME"
  by (simp_all add: fpa_test_mem_def FPA_MAX_TIME_def unat_max_word)

text \<open>
  C12: the assembler is safe against any input. Whatever packets arrive, well formed or not, in
  every state of a run none of the assertions of the code fails while the next packet is handled or
  the next frame is handed over, and the output is given at most as many bytes as its MTU, all of
  them inside the frame's buffer.
\<close>

theorem fragmentproto_assembler_safe:
  assumes "FragmentProtoAssembler_Init e c b mem output_mtu num_frames num_chunks = Some ob0" "length mem = num_frames"
    and "\<forall>fr\<in>set mem. length (fr_buffer fr) = output_mtu" "0 < num_frames" "num_frames < unat FPA_MAX_TIME" "0 < num_chunks"
    and "fpa_run h ob0 es ob"
  shows "(fa_in ob = None \<longrightarrow> fpa_input_handler_send h ob data \<noteq> None) \<and>
    (\<forall>i n. fa_out ob = Some (i, n) \<longrightarrow> fpa_output_handler_done h ob \<noteq> None \<and> n \<le> fa_output_mtu ob \<and>
       n \<le> length (fr_buffer (fa_frames ob ! i)))"
proof -
  have ok: "packet_ok (\<lambda>_. None) h data" for data
    by (simp add: packet_ok_def wire_ok_def chunk_of_def list_all_iff)
  have "fpa_good (\<lambda>_. None) h ob"
    using fpa_good_run [OF assms(7) fpa_good_Init [OF assms(1-6)]] ok by blast
  then show ?thesis
    using fpa_input_spec [of "\<lambda>_. None" h ob data] fpa_output_spec [of "\<lambda>_. None" h ob] ok by (auto simp: out_ok_def)
qed

theorem fragmentproto_assembler_safe_witness:
  "fpa_input_handler_send BADVPN_BIG_ENDIAN fpa_test [1, 2, 3, 4, 255, 255, 1] \<noteq> None"
  using fragmentproto_assembler_safe [OF fpa_test_init fpa_test_mem_ok(1,2) _ fpa_test_mem_ok(3) _ fpa_refl,
      of BADVPN_BIG_ENDIAN "[1, 2, 3, 4, 255, 255, 1]"]
  by (simp add: fpa_test_def FragmentProtoAssembler_Init_def)

text \<open>Two packets with the two halves of a frame arrive in the wrong order.\<close>

definition fpa_test_packet1 :: bytes where "fpa_test_packet1 = [5, 0, 0, 0, 2, 0, 0, 10, 20]"
definition fpa_test_packet2 :: bytes where "fpa_test_packet2 = [5, 0, 2, 0, 2, 0, 1, 30, 40]"

definition fpa_test1 :: FragmentProtoAssembler where
  "fpa_test1 = the (fpa_input_handler_send BADVPN_LITTLE_ENDIAN fpa_test fpa_test_packet2)"
definition fpa_test2 :: FragmentProtoAssembler where
  "fpa_test2 = the (fpa_input_handler_send BADVPN_LITTLE_ENDIAN fpa_test1 fpa_test_packet1)"
definition fpa_test3 :: FragmentProtoAssembler where
  "fpa_test3 = the (fpa_output_handler_done BADVPN_LITTLE_ENDIAN fpa_test2)"

lemma fpa_test_eval:
  "fa_in fpa_test = None" "fa_in fpa_test1 = None" "fa_out fpa_test2 = Some (0, 4)"
  "fr_id (fa_frames fpa_test2 ! 0) = 5" "take 4 (fr_buffer (fa_frames fpa_test2 ! 0)) = [10, 20, 30, 40]"
  by code_simp+

lemma fpa_test_defined:
  "\<not> Option.is_none (fpa_input_handler_send BADVPN_LITTLE_ENDIAN fpa_test fpa_test_packet2)"
  "\<not> Option.is_none (fpa_input_handler_send BADVPN_LITTLE_ENDIAN fpa_test1 fpa_test_packet1)"
  "\<not> Option.is_none (fpa_output_handler_done BADVPN_LITTLE_ENDIAN fpa_test2)"
  by code_simp+

lemma fpa_test_parse:
  "parse_chunks BADVPN_LITTLE_ENDIAN fpa_test_packet1 = [Chunk 5 0 [10, 20] False]"
  "parse_chunks BADVPN_LITTLE_ENDIAN fpa_test_packet2 = [Chunk 5 2 [30, 40] True]"
  by code_simp+

lemma fpa_test_run:
  "fpa_run BADVPN_LITTLE_ENDIAN fpa_test [FIn fpa_test_packet2, FIn fpa_test_packet1, FOut 5 [10, 20, 30, 40]] fpa_test3"
proof -
  have some: "\<not> Option.is_none x \<Longrightarrow> x = Some (the x)" for x :: "FragmentProtoAssembler option" by (cases x) simp_all
  have "fpa_run BADVPN_LITTLE_ENDIAN fpa_test ([] @ [FIn fpa_test_packet2]) fpa_test1" unfolding fpa_test1_def
    by (intro fpa_trans [OF fpa_refl] fpa_step.fpa_in some) (rule fpa_test_eval fpa_test_defined)+
  then have "fpa_run BADVPN_LITTLE_ENDIAN fpa_test (([] @ [FIn fpa_test_packet2]) @ [FIn fpa_test_packet1]) fpa_test2" unfolding fpa_test2_def
    by (rule fpa_trans) (intro fpa_step.fpa_in some; rule fpa_test_eval fpa_test_defined)
  moreover have "fpa_step BADVPN_LITTLE_ENDIAN fpa_test2 (FOut 5 [10, 20, 30, 40]) fpa_test3"
    using fpa_step.fpa_out [OF fpa_test_eval(3) some [OF fpa_test_defined(3)]] fpa_test_eval(4,5) by (simp add: fpa_test3_def)
  ultimately show ?thesis using fpa_trans by fastforce
qed

text \<open>
  C7: frames are never corrupted. Suppose that under the identifier \<open>x\<close> only pieces of the frame
  \<open>F x\<close> are received, in packets that may be lost, duplicated, reordered or mixed with other
  packets in any way. Then every frame that the assembler delivers under \<open>x\<close> is \<open>F x\<close>.
\<close>

theorem fragmentproto_no_corruption:
  assumes "FragmentProtoAssembler_Init e c b mem output_mtu num_frames num_chunks = Some ob0" "length mem = num_frames"
    and "\<forall>fr\<in>set mem. length (fr_buffer fr) = output_mtu" "0 < num_frames" "num_frames < unat FPA_MAX_TIME" "0 < num_chunks"
    and "fpa_run h ob0 es ob" and "\<And>data. FIn data \<in> set es \<Longrightarrow> packet_ok F h data"
  shows "FOut x f \<in> set es \<Longrightarrow> x \<in> dom F \<Longrightarrow> F x = Some f"
  using fpa_good_run [OF assms(7) fpa_good_Init [OF assms(1-6)] assms(8)] by (auto simp: dom_def)

theorem fragmentproto_no_corruption_witness:
  "\<exists>es ob. fpa_run BADVPN_LITTLE_ENDIAN fpa_test es ob \<and> FOut 5 [10, 20, 30, 40] \<in> set es \<and>
     [5 \<mapsto> [10, 20, 30, 40]] (5 :: u16) = Some [10 :: u8, 20, 30, 40]"
proof (intro exI conjI)
  let ?es = "[FIn fpa_test_packet2, FIn fpa_test_packet1, FOut 5 [10, 20, 30, 40]]"
  show "fpa_run BADVPN_LITTLE_ENDIAN fpa_test ?es fpa_test3" by (rule fpa_test_run)
  show mem: "FOut 5 [10, 20, 30, 40] \<in> set ?es" by simp
  show "[5 \<mapsto> [10, 20, 30, 40]] (5 :: u16) = Some [10 :: u8, 20, 30, 40]"
  proof (rule fragmentproto_no_corruption [OF fpa_test_init fpa_test_mem_ok(1,2) _ fpa_test_mem_ok(3) _ fpa_test_run _ mem,
        where F = "[5 \<mapsto> [10, 20, 30, 40]]"])
    show "packet_ok [5 \<mapsto> [10, 20, 30, 40]] BADVPN_LITTLE_ENDIAN data" if "FIn data \<in> set ?es" for data
      using that by (auto simp: packet_ok_def fpa_test_parse wire_ok_def chunk_of_def mem_read_def)
  qed simp_all
qed

end
