(* ===== verification/FragDisassemble.thy ===== *)
theory FragDisassemble
  imports FragAssemble
begin

text \<open>
  Fragmentation, sending side: \<open>src/client/FragmentProtoDisassembler.c\<close>, and its composition with
  the assembler. The packet memory that the output provided is \<open>fd_out\<close>; a handler returns the new
  state, whether it finished the input frame, and the packet it finished, if any. A failed
  assertion is \<open>None\<close>.
\<close>

record FragmentProtoDisassembler =
  fd_output_mtu :: nat
  fd_chunk_mtu :: int
  fd_latency :: int
  fd_in :: "bytes option"
  fd_in_used :: nat
  fd_out :: "bytes option"
  fd_out_used :: nat
  fd_frame_id :: fragmentproto_frameid
  fd_timer :: bool

definition fd_in_avail :: "bytes \<Rightarrow> FragmentProtoDisassembler \<Rightarrow> int" where
  "fd_in_avail data ob = int (length data) - int (fd_in_used ob)"

definition fd_out_avail :: "FragmentProtoDisassembler \<Rightarrow> int" where
  "fd_out_avail ob = (int (fd_output_mtu ob) - int (fd_out_used ob)) - int fragmentproto_header_size"

definition fd_chunk_len :: "bytes \<Rightarrow> FragmentProtoDisassembler \<Rightarrow> int" where
  "fd_chunk_len data ob =
     (let chunk_len = bmin_int (fd_in_avail data ob) (fd_out_avail ob)
      in if fd_chunk_mtu ob > 0 then bmin_int chunk_len (fd_chunk_mtu ob) else chunk_len)"

definition fd_header :: "host \<Rightarrow> bytes \<Rightarrow> FragmentProtoDisassembler \<Rightarrow> int \<Rightarrow> bytes" where
  "fd_header h data ob chunk_len =
     host_store h 2 (htol16 h (fd_frame_id ob)) @ host_store h 2 (htol16 h (of_nat (fd_in_used ob) :: u16)) @
     host_store h 2 (htol16 h (of_int chunk_len :: u16)) @ [if chunk_len = fd_in_avail data ob then 1 else 0]"

text \<open>The \<open>do\<close> loop of \<open>write_chunks\<close>.\<close>

function write_chunks_loop ::
  "host \<Rightarrow> bytes \<Rightarrow> FragmentProtoDisassembler \<Rightarrow> bytes \<Rightarrow> FragmentProtoDisassembler \<times> bytes" where
  "write_chunks_loop h data ob out =
     (let chunk_len = fd_chunk_len data ob;
          out = mem_write out (fd_out_used ob) (fd_header h data ob chunk_len);
          out = mem_write out (fd_out_used ob + fragmentproto_header_size) (mem_read data (fd_in_used ob) (nat chunk_len));
          ob = ob\<lparr>fd_in_used := fd_in_used ob + nat chunk_len,
                  fd_out_used := fd_out_used ob + (fragmentproto_header_size + nat chunk_len)\<rparr>
      in if fd_in_avail data ob > 0 \<and> fd_out_avail ob > 0 then write_chunks_loop h data ob out else (ob, out))"
  by auto
termination
  by (relation "measure (\<lambda>(h, data, ob, out). fd_output_mtu ob - fd_out_used ob)")
    (auto simp: fd_out_avail_def fragmentproto_header_size_def split: if_splits intro!: diff_less_mono2)

declare write_chunks_loop.simps [simp del]

definition write_chunks :: "host \<Rightarrow> FragmentProtoDisassembler \<Rightarrow> (FragmentProtoDisassembler \<times> bool \<times> bytes option) option" where
  "write_chunks h ob =
     (case (fd_in ob, fd_out ob) of
        (Some data, Some out) \<Rightarrow>
          if \<not> fd_out_avail ob > 0 then None
          else case write_chunks_loop h data ob out of (ob, out) \<Rightarrow>
            let in_done = (fd_in_avail data ob = 0);
                ob = (if in_done then ob\<lparr>fd_in := None, fd_frame_id := fd_frame_id ob + 1\<rparr> else ob)
            in if fd_out_avail ob \<le> 0 \<or> fd_latency ob < 0
               then Some (ob\<lparr>fd_out := None, fd_timer := (if fd_latency ob \<ge> 0 then False else fd_timer ob)\<rparr>,
                 in_done, Some (take (fd_out_used ob) out))
               else Some (ob\<lparr>fd_out := Some out, fd_timer := True\<rparr>, in_done, None)
      | _ \<Rightarrow> None)"

definition fpd_input_handler_send ::
  "host \<Rightarrow> FragmentProtoDisassembler \<Rightarrow> bytes \<Rightarrow> (FragmentProtoDisassembler \<times> bool \<times> bytes option) option" where
  "fpd_input_handler_send h ob data =
     (if fd_in ob \<noteq> None then None
      else let ob = ob\<lparr>fd_in := Some data, fd_in_used := 0\<rparr>
        in if fd_out ob = None then Some (ob, False, None) else write_chunks h ob)"

definition fpd_input_handler_requestcancel :: "FragmentProtoDisassembler \<Rightarrow> FragmentProtoDisassembler option" where
  "fpd_input_handler_requestcancel ob =
     (if fd_in ob = None \<or> fd_out ob \<noteq> None then None else Some (ob\<lparr>fd_in := None\<rparr>))"

definition fpd_output_handler_recv ::
  "host \<Rightarrow> FragmentProtoDisassembler \<Rightarrow> bytes \<Rightarrow> (FragmentProtoDisassembler \<times> bool \<times> bytes option) option" where
  "fpd_output_handler_recv h ob mem =
     (if fd_out ob \<noteq> None then None
      else let ob = ob\<lparr>fd_out := Some mem, fd_out_used := 0\<rparr>
        in if fd_in ob = None then Some (ob, False, None) else write_chunks h ob)"

definition fpd_timer_handler :: "FragmentProtoDisassembler \<Rightarrow> (FragmentProtoDisassembler \<times> bytes) option" where
  "fpd_timer_handler ob =
     (case fd_out ob of None \<Rightarrow> None
      | Some out \<Rightarrow>
          if fd_latency ob < 0 \<or> fd_in ob \<noteq> None then None
          else Some (ob\<lparr>fd_out := None, fd_timer := False\<rparr>, take (fd_out_used ob) out))"

definition FragmentProtoDisassembler_Init :: "nat \<Rightarrow> int \<Rightarrow> int \<Rightarrow> FragmentProtoDisassembler" where
  "FragmentProtoDisassembler_Init output_mtu chunk_mtu latency =
     \<lparr>fd_output_mtu = output_mtu, fd_chunk_mtu = chunk_mtu, fd_latency = latency, fd_in = None, fd_in_used = 0,
      fd_out = None, fd_out_used = 0, fd_frame_id = 0, fd_timer = False\<rparr>"

subsection \<open>Chunks on the wire\<close>

definition enc_chunk :: "wire_chunk \<Rightarrow> bytes" where
  "enc_chunk c = badvpn_write_le16 (wc_id c) @ badvpn_write_le16 (of_nat (wc_start c)) @
     badvpn_write_le16 (of_nat (length (wc_payload c))) @ [if wc_last c then 1 else 0] @ wc_payload c"

definition enc_chunks :: "wire_chunk list \<Rightarrow> bytes" where
  "enc_chunks cs = concat (map enc_chunk cs)"

definition small_chunk :: "wire_chunk \<Rightarrow> bool" where
  "small_chunk c \<longleftrightarrow> wc_start c < 65536 \<and> length (wc_payload c) < 65536"

lemma enc_chunks_simps [simp]:
  "enc_chunks [] = []" "enc_chunks (c # cs) = enc_chunk c @ enc_chunks cs" "enc_chunks (cs @ ds) = enc_chunks cs @ enc_chunks ds"
  by (simp_all add: enc_chunks_def)

lemma parse_enc_chunk:
  assumes "small_chunk c"
  shows "parse_chunks h (enc_chunk c @ rest) = c # parse_chunks h rest"
proof -
  obtain x s p l where c: "c = Chunk x s p l" by (cases c)
  let ?x = "badvpn_write_le16 x" and ?s = "badvpn_write_le16 (of_nat s)" and ?n = "badvpn_write_le16 (of_nat (length p))"
  let ?bs = "?x @ ?s @ ?n @ [if l then 1 else 0] @ p @ rest"
  have len: "length ?x = 2" "length ?s = 2" "length ?n = 2" by simp_all
  have rd: "mem_read ?bs 0 2 = ?x" "mem_read ?bs 2 2 = ?s" "mem_read ?bs 4 2 = ?n" "drop 7 ?bs = p @ rest"
    "?bs ! 6 = (if l then 1 else 0)"
    using len by (simp_all add: mem_read_def nth_append)
  have w: "unat (of_nat s :: u16) = s" "unat (of_nat (length p) :: u16) = length p"
    using assms c by (simp_all add: small_chunk_def unat_of_nat)
  have "drop (7 + length p) ?bs = rest" using rd(4) by (simp add: add.commute flip: drop_drop)
  then show ?thesis using rd w c
    by (simp only: enc_chunk_def wire_chunk.sel append_assoc) (subst parse_chunks.simps,
      simp only: rd ltoh16_load len le16.get_put w fragmentproto_header_size_def Let_def, simp)
qed

lemma parse_enc_chunks: "list_all small_chunk cs \<Longrightarrow> parse_chunks h (enc_chunks cs) = cs"
proof (induction cs)
  case Nil
  show ?case by (subst parse_chunks.simps) (simp add: fragmentproto_header_size_def)
next
  case (Cons c cs)
  then show ?case by (simp add: parse_enc_chunk)
qed

subsection \<open>Streams of chunks in order\<close>

text \<open>
  The frames of a stream of chunks that arrive in order: \<open>x\<close> counts the frames, \<open>acc\<close> is what was
  received of the current one and \<open>k\<close> in how many chunks. A stream is in order for a receiver with
  \<open>M\<close> chunk entries per frame and the given MTU.
\<close>

definition chunk_ok :: "nat \<Rightarrow> nat \<Rightarrow> nat \<Rightarrow> bytes \<Rightarrow> nat \<Rightarrow> wire_chunk \<Rightarrow> bool" where
  "chunk_ok mtu M x acc k c \<longleftrightarrow> wc_id c = of_nat x \<and> wc_start c = length acc \<and>
     length acc + length (wc_payload c) \<le> mtu \<and> (if wc_last c then k < M else k + 1 < M)"

fun in_order :: "nat \<Rightarrow> nat \<Rightarrow> nat \<Rightarrow> bytes \<Rightarrow> nat \<Rightarrow> wire_chunk list \<Rightarrow> bool" where
  "in_order mtu M x acc k [] = True"
| "in_order mtu M x acc k (c # cs) = (chunk_ok mtu M x acc k c \<and>
     (if wc_last c then in_order mtu M (x + 1) [] 0 cs else in_order mtu M x (acc @ wc_payload c) (k + 1) cs))"

fun stream_end :: "nat \<Rightarrow> bytes \<Rightarrow> nat \<Rightarrow> wire_chunk list \<Rightarrow> nat \<times> bytes \<times> nat" where
  "stream_end x acc k [] = (x, acc, k)"
| "stream_end x acc k (c # cs) =
     (if wc_last c then stream_end (x + 1) [] 0 cs else stream_end x (acc @ wc_payload c) (k + 1) cs)"

fun frames_in :: "bytes \<Rightarrow> wire_chunk list \<Rightarrow> bytes list" where
  "frames_in acc [] = []"
| "frames_in acc (c # cs) =
     (if wc_last c then (acc @ wc_payload c) # frames_in [] cs else frames_in (acc @ wc_payload c) cs)"

lemma in_order_append:
  "in_order mtu M x acc k (cs @ ds) \<longleftrightarrow> in_order mtu M x acc k cs \<and>
    (case stream_end x acc k cs of (x, acc, k) \<Rightarrow> in_order mtu M x acc k ds)"
  by (induction cs arbitrary: x acc k) auto

lemma stream_end_append:
  "stream_end x acc k (cs @ ds) = (case stream_end x acc k cs of (x, acc, k) \<Rightarrow> stream_end x acc k ds)"
  by (induction cs arbitrary: x acc k) auto

lemma frames_in_append:
  "frames_in acc (cs @ ds) = frames_in acc cs @ (case stream_end x acc k cs of (_, acc, _) \<Rightarrow> frames_in acc ds)"
  by (induction cs arbitrary: x acc k) auto

subsection \<open>The sender produces such a stream\<close>

definition enough_chunks :: "FragmentProtoDisassembler \<Rightarrow> nat \<Rightarrow> nat \<Rightarrow> bool" where
  "enough_chunks ob mtu M \<longleftrightarrow>
     fd_chunk_mtu ob < 0 \<and> fragmentproto_max_chunks_for_frame (fd_output_mtu ob) mtu \<le> M \<or> mtu < M"

definition chunk_count_ok :: "FragmentProtoDisassembler \<Rightarrow> nat \<Rightarrow> nat \<Rightarrow> bool" where
  "chunk_count_ok ob k u \<longleftrightarrow> k \<le> u \<and>
     (fd_chunk_mtu ob < 0 \<longrightarrow> 0 < k \<longrightarrow> 1 + (k - 1) * (fd_output_mtu ob - fragmentproto_header_size) \<le> u)"

lemma chunk_count_less:
  assumes "chunk_count_ok ob k u" "u < mtu" "enough_chunks ob mtu M" "fragmentproto_header_size < fd_output_mtu ob"
  shows "k < M"
proof (cases "mtu < M \<or> k = 0")
  case True
  then show ?thesis using assms by (auto simp: chunk_count_ok_def enough_chunks_def fragmentproto_max_chunks_for_frame_def)
next
  case False
  let ?p = "fd_output_mtu ob - fragmentproto_header_size"
  have "(k - 1) * ?p < mtu" using False assms(1-3) by (auto simp: chunk_count_ok_def enough_chunks_def)
  then have "\<not> bdivide_up mtu ?p \<le> k - 1" using assms(4) by (simp add: bdivide_up_le_iff mult.commute)
  then show ?thesis using False assms(3) by (auto simp: enough_chunks_def fragmentproto_max_chunks_for_frame_def)
qed

text \<open>
  The state of the writer: \<open>A\<close> are the chunks of earlier packets, \<open>cur\<close> those of the current one,
  \<open>n\<close> frames are complete and the frame \<open>data\<close> was written up to \<open>fd_in_used\<close> in \<open>k\<close> chunks.
\<close>

definition wr_inv :: "nat \<Rightarrow> nat \<Rightarrow> bytes \<Rightarrow> wire_chunk list \<Rightarrow> nat \<Rightarrow> nat \<Rightarrow> FragmentProtoDisassembler \<Rightarrow> bytes \<Rightarrow> wire_chunk list \<Rightarrow> bool" where
  "wr_inv mtu M data A n k ob out cur \<longleftrightarrow>
     0 < fd_out_avail ob \<and> length out = fd_output_mtu ob \<and> fd_out_used ob = length (enc_chunks cur) \<and>
     take (fd_out_used ob) out = enc_chunks cur \<and> in_order mtu M 0 [] 0 (A @ cur) \<and>
     stream_end 0 [] 0 (A @ cur) = (n, take (fd_in_used ob) data, k) \<and> fd_in_used ob \<le> length data \<and>
     (fd_in_used ob = length data \<longrightarrow> k = 0 \<and> data = []) \<and> fd_frame_id ob = of_nat n \<and>
     length data \<le> mtu \<and> mtu < 65536 \<and> list_all small_chunk (A @ cur) \<and> chunk_count_ok ob k (fd_in_used ob) \<and>
     enough_chunks ob mtu M \<and> (fd_chunk_mtu ob < 0 \<longrightarrow> 0 < k \<longrightarrow> fd_out_used ob = 0)"

lemma wr_invD:
  assumes "wr_inv mtu M data A n k ob out cur"
  shows "0 < fd_out_avail ob" "length out = fd_output_mtu ob" "fd_out_used ob = length (enc_chunks cur)"
    "take (fd_out_used ob) out = enc_chunks cur" "in_order mtu M 0 [] 0 (A @ cur)"
    "stream_end 0 [] 0 (A @ cur) = (n, take (fd_in_used ob) data, k)" "fd_in_used ob \<le> length data"
    "fd_in_used ob = length data \<Longrightarrow> k = 0 \<and> data = []" "fd_frame_id ob = of_nat n" "length data \<le> mtu" "mtu < 65536"
    "list_all small_chunk (A @ cur)" "chunk_count_ok ob k (fd_in_used ob)" "enough_chunks ob mtu M"
    "fd_chunk_mtu ob < 0 \<Longrightarrow> 0 < k \<Longrightarrow> fd_out_used ob = 0"
  using assms unfolding wr_inv_def by blast+

definition next_chunk :: "bytes \<Rightarrow> FragmentProtoDisassembler \<Rightarrow> wire_chunk" where
  "next_chunk data ob = (let l = nat (fd_chunk_len data ob) in
     Chunk (fd_frame_id ob) (fd_in_used ob) (mem_read data (fd_in_used ob) l) (fd_in_used ob + l = length data))"

lemma chunk_len_bounds:
  assumes "wr_inv mtu M data A n k ob out cur"
  shows "0 \<le> fd_chunk_len data ob" "fd_in_used ob + nat (fd_chunk_len data ob) \<le> length data"
    "fd_out_used ob + fragmentproto_header_size + nat (fd_chunk_len data ob) \<le> fd_output_mtu ob"
    "fd_in_used ob + nat (fd_chunk_len data ob) < length data \<Longrightarrow> 0 < nat (fd_chunk_len data ob)"
  using assms by (auto simp: wr_inv_def fd_chunk_len_def fd_in_avail_def fd_out_avail_def Let_def)

text \<open>One round of the loop writes one chunk.\<close>

definition write_chunk :: "host \<Rightarrow> bytes \<Rightarrow> FragmentProtoDisassembler \<Rightarrow> bytes \<Rightarrow> bytes" where
  "write_chunk h data ob out =
     mem_write (mem_write out (fd_out_used ob) (fd_header h data ob (fd_chunk_len data ob)))
       (fd_out_used ob + fragmentproto_header_size) (mem_read data (fd_in_used ob) (nat (fd_chunk_len data ob)))"

definition advance_chunk :: "bytes \<Rightarrow> FragmentProtoDisassembler \<Rightarrow> FragmentProtoDisassembler" where
  "advance_chunk data ob = ob\<lparr>fd_in_used := fd_in_used ob + nat (fd_chunk_len data ob),
     fd_out_used := fd_out_used ob + (fragmentproto_header_size + nat (fd_chunk_len data ob))\<rparr>"

lemma write_chunks_loop_step:
  "write_chunks_loop h data ob out =
    (if fd_in_avail data (advance_chunk data ob) > 0 \<and> fd_out_avail (advance_chunk data ob) > 0
     then write_chunks_loop h data (advance_chunk data ob) (write_chunk h data ob out)
     else (advance_chunk data ob, write_chunk h data ob out))"
  by (subst write_chunks_loop.simps) (simp add: write_chunk_def advance_chunk_def Let_def)

lemma advance_chunk_simps [simp]:
  "fd_output_mtu (advance_chunk data ob) = fd_output_mtu ob" "fd_chunk_mtu (advance_chunk data ob) = fd_chunk_mtu ob"
  "fd_latency (advance_chunk data ob) = fd_latency ob" "fd_in (advance_chunk data ob) = fd_in ob"
  "fd_out (advance_chunk data ob) = fd_out ob" "fd_frame_id (advance_chunk data ob) = fd_frame_id ob"
  "fd_timer (advance_chunk data ob) = fd_timer ob" "fd_in_used (advance_chunk data ob) = fd_in_used ob + nat (fd_chunk_len data ob)"
  "fd_out_used (advance_chunk data ob) = fd_out_used ob + (fragmentproto_header_size + nat (fd_chunk_len data ob))"
  by (simp_all add: advance_chunk_def)

lemma advance_chunk_ok [simp]:
  "chunk_count_ok (advance_chunk data ob) k u \<longleftrightarrow> chunk_count_ok ob k u" "enough_chunks (advance_chunk data ob) mtu M \<longleftrightarrow> enough_chunks ob mtu M"
  by (simp_all add: chunk_count_ok_def enough_chunks_def)

lemma length_enc_chunk: "length (enc_chunk c) = fragmentproto_header_size + length (wc_payload c)"
  by (simp add: enc_chunk_def fragmentproto_header_size_def)

lemma mem_write_twice:
  assumes "p + length a + length b \<le> length m"
  shows "mem_write (mem_write m p a) (p + length a) b = mem_write m p (a @ b)"
proof -
  have "drop (p + length a + length b) (take p m @ a @ drop (p + length a) m) = drop (p + (length a + length b)) m"
    using assms by (simp add: drop_append ac_simps)
  then show ?thesis using assms by (simp add: mem_write_def ac_simps)
qed

lemma take_mem_write: "p + length b \<le> length m \<Longrightarrow> take (p + length b) (mem_write m p b) = take p m @ b"
  by (simp add: mem_write_def)

lemma write_chunk_enc:
  assumes inv: "wr_inv mtu M data A n k ob out cur"
  shows "length (write_chunk h data ob out) = length out"
    "take (fd_out_used (advance_chunk data ob)) (write_chunk h data ob out) = enc_chunks (cur @ [next_chunk data ob])"
proof -
  let ?l = "nat (fd_chunk_len data ob)"
  let ?hd = "fd_header h data ob (fd_chunk_len data ob)" and ?pay = "mem_read data (fd_in_used ob) ?l"
  note b = chunk_len_bounds [OF inv]
  have len: "length out = fd_output_mtu ob" "take (fd_out_used ob) out = enc_chunks cur" using wr_invD [OF inv] by blast+
  have hl: "length ?hd = fragmentproto_header_size" by (simp add: fd_header_def fragmentproto_header_size_def)
  have pl: "length ?pay = ?l" using b(2) by simp
  have "of_int (fd_chunk_len data ob) = (of_nat ?l :: u16)" using b(1) by simp
  moreover have "fd_chunk_len data ob = fd_in_avail data ob \<longleftrightarrow> fd_in_used ob + ?l = length data"
    using b(1,2) by (auto simp: fd_in_avail_def)
  ultimately have enc: "?hd @ ?pay = enc_chunk (next_chunk data ob)"
    using pl by (simp add: fd_header_def enc_chunk_def next_chunk_def host_store_htol16 Let_def del: length_mem_read)
  have el: "length (enc_chunk (next_chunk data ob)) = fragmentproto_header_size + ?l"
    using pl by (simp add: length_enc_chunk next_chunk_def Let_def del: length_mem_read)
  have w: "write_chunk h data ob out = mem_write out (fd_out_used ob) (?hd @ ?pay)"
    unfolding write_chunk_def hl [symmetric] using b(3) len hl pl by (intro mem_write_twice) simp
  show "length (write_chunk h data ob out) = length out"
    unfolding w using b(3) len hl pl by (intro length_mem_write) simp
  show "take (fd_out_used (advance_chunk data ob)) (write_chunk h data ob out) = enc_chunks (cur @ [next_chunk data ob])"
    unfolding w enc using take_mem_write [of "fd_out_used ob" "enc_chunk (next_chunk data ob)" out] b(3) len el by simp
qed

text \<open>
  What is known after some rounds: either the frame is complete, or the packet is full and the
  frame is continued in the next one.
\<close>

definition wr_done :: "nat \<Rightarrow> nat \<Rightarrow> bytes \<Rightarrow> wire_chunk list \<Rightarrow> nat \<Rightarrow> FragmentProtoDisassembler \<Rightarrow> bytes \<Rightarrow> wire_chunk list \<Rightarrow> bool" where
  "wr_done mtu M data A n ob out cs \<longleftrightarrow>
     length out = fd_output_mtu ob \<and> fd_out_used ob = length (enc_chunks cs) \<and> take (fd_out_used ob) out = enc_chunks cs \<and>
     in_order mtu M 0 [] 0 (A @ cs) \<and> fd_in_used ob \<le> length data \<and> list_all small_chunk (A @ cs) \<and> cs \<noteq> [] \<and>
     (if fd_in_used ob = length data then stream_end 0 [] 0 (A @ cs) = (n + 1, [], 0)
      else fd_out_avail ob \<le> 0 \<and> (\<exists>k. stream_end 0 [] 0 (A @ cs) = (n, take (fd_in_used ob) data, k) \<and>
        chunk_count_ok ob k (fd_in_used ob)))"

lemma next_chunk_ok:
  assumes inv: "wr_inv mtu M data A n k ob out cur" and room: "fragmentproto_header_size < fd_output_mtu ob"
  shows "chunk_ok mtu M n (take (fd_in_used ob) data) k (next_chunk data ob)"
    "fd_in_used (advance_chunk data ob) < length data \<Longrightarrow> chunk_count_ok ob (k + 1) (fd_in_used (advance_chunk data ob))"
    "small_chunk (next_chunk data ob)"
proof -
  let ?l = "nat (fd_chunk_len data ob)"
  note b = chunk_len_bounds [OF inv]
  show cnt: "chunk_count_ok ob (k + 1) (fd_in_used (advance_chunk data ob))" if lt: "fd_in_used (advance_chunk data ob) < length data"
  proof (cases "fd_chunk_mtu ob < 0 \<and> 0 < k")
    case True
    then have "fd_out_used ob = 0" using wr_invD [OF inv] by blast
    moreover have "fd_chunk_len data ob = fd_out_avail ob"
      using True lt b(1) by (auto simp: fd_chunk_len_def fd_in_avail_def min_def split: if_splits)
    ultimately have l: "?l = fd_output_mtu ob - fragmentproto_header_size" using room by (simp add: fd_out_avail_def)
    have "k \<le> fd_in_used ob" "1 + (k - 1) * ?l \<le> fd_in_used ob" "0 < ?l"
      using wr_invD(13) [OF inv] True b(4) lt l by (simp_all add: chunk_count_ok_def)
    moreover have "k * ?l = (k - 1) * ?l + ?l" using True by (cases k) simp_all
    ultimately have "k + 1 \<le> fd_in_used ob + ?l" "1 + k * ?l \<le> fd_in_used ob + ?l" by linarith+
    then show ?thesis using l by (simp add: chunk_count_ok_def)
  next
    case False
    then show ?thesis using inv b(4) lt by (auto simp: wr_inv_def chunk_count_ok_def)
  qed
  have M: "k < M"
  proof (cases "fd_in_used ob < length data")
    case True
    then have "fd_in_used ob < mtu" using inv by (simp add: wr_inv_def)
    then show ?thesis using inv room by (intro chunk_count_less [of ob k "fd_in_used ob" mtu]) (simp_all add: wr_inv_def)
  next
    case False
    then have "k = 0" "enough_chunks ob mtu M" using inv by (auto simp: wr_inv_def)
    then show ?thesis by (auto simp: enough_chunks_def fragmentproto_max_chunks_for_frame_def)
  qed
  have "k + 1 < M" if "fd_in_used ob + ?l < length data"
    using chunk_count_less [OF cnt, of mtu M] that inv room by (simp add: wr_inv_def)
  then show "chunk_ok mtu M n (take (fd_in_used ob) data) k (next_chunk data ob)"
    using M b(2) inv by (auto simp: chunk_ok_def next_chunk_def Let_def wr_inv_def)
  show "small_chunk (next_chunk data ob)"
    using b(2) inv by (auto simp: small_chunk_def next_chunk_def Let_def wr_inv_def)
qed

lemma write_chunks_loop_spec:
  assumes "wr_inv mtu M data A n k ob out cur" "fragmentproto_header_size < fd_output_mtu ob"
  shows "case write_chunks_loop h data ob out of (ob', out') \<Rightarrow> \<exists>new. wr_done mtu M data A n ob' out' (cur @ new) \<and>
    frames_in [] (A @ cur @ new) = frames_in [] (A @ cur) @ (if fd_in_used ob' = length data then [data] else []) \<and>
    ob' = ob\<lparr>fd_in_used := fd_in_used ob', fd_out_used := fd_out_used ob'\<rparr>"
  using assms
proof (induction h data ob out arbitrary: cur k rule: write_chunks_loop.induct)
  case (1 h data ob out)
  let ?ob = "advance_chunk data ob" and ?out = "write_chunk h data ob out" and ?c = "next_chunk data ob"
  note b = chunk_len_bounds [OF 1(2)] and w = write_chunk_enc [OF 1(2), of h] and nc = next_chunk_ok [OF 1(2,3)]
  note d = wr_invD [OF 1(2)]
  have el: "fd_out_used ?ob = length (enc_chunks (cur @ [?c]))"
    using d(3) b(2) by (simp add: length_enc_chunk next_chunk_def Let_def)
  have take: "take (fd_in_used ob) data @ wc_payload ?c = take (fd_in_used ?ob) data"
    by (simp add: next_chunk_def Let_def mem_read_def take_add)
  have last: "wc_last ?c \<longleftrightarrow> fd_in_used ?ob = length data" by (simp add: next_chunk_def Let_def)
  have ord: "in_order mtu M 0 [] 0 (A @ cur @ [?c])" "list_all small_chunk (A @ cur @ [?c])"
    using d(5,6,12) nc(1,3) by (simp_all add: in_order_append [of _ _ _ _ _ "A @ cur" "[?c]", simplified])
  have st: "stream_end 0 [] 0 (A @ cur @ [?c]) = (if fd_in_used ?ob = length data then (n + 1, [], 0) else (n, take (fd_in_used ?ob) data, k + 1))"
    using d(6) last take by (simp add: stream_end_append [of _ _ _ "A @ cur" "[?c]", simplified])
  have fr: "frames_in [] (A @ cur @ [?c]) = frames_in [] (A @ cur) @ (if fd_in_used ?ob = length data then [data] else [])"
    using d(6) last take by (simp add: frames_in_append [of _ "A @ cur" "[?c]" 0 0, simplified])
  show ?case
  proof (cases "fd_in_avail data ?ob > 0 \<and> fd_out_avail ?ob > 0")
    case True
    then have lt: "fd_in_used ?ob < length data" unfolding fd_in_avail_def by linarith
    have "\<not> fd_chunk_mtu ob < 0"
      using True b(1,3) by (auto simp: fd_chunk_len_def fd_in_avail_def fd_out_avail_def min_def split: if_splits)
    then have "wr_inv mtu M data A n (k + 1) ?ob ?out (cur @ [?c])"
      unfolding wr_inv_def using True lt d(2,9-11,14) ord st w nc(2) b(2) el by simp
    then have IH: "case write_chunks_loop h data ?ob ?out of (ob', out') \<Rightarrow> \<exists>new. wr_done mtu M data A n ob' out' ((cur @ [?c]) @ new) \<and>
        frames_in [] (A @ (cur @ [?c]) @ new) = frames_in [] (A @ cur @ [?c]) @ (if fd_in_used ob' = length data then [data] else []) \<and>
        ob' = ?ob\<lparr>fd_in_used := fd_in_used ob', fd_out_used := fd_out_used ob'\<rparr>"
      using True 1(3) by (intro 1(1) [OF refl refl refl refl, folded write_chunk_def advance_chunk_def]) simp_all
    then show ?thesis using fr lt True write_chunks_loop_step [of h data ob out]
      by (auto simp: advance_chunk_def split: prod.splits)
  next
    case False
    have le: "fd_in_used ?ob \<le> length data" using b(2) by simp
    then have full: "fd_out_avail ?ob \<le> 0" "fd_in_used ?ob < length data" if "fd_in_used ?ob \<noteq> length data"
      using False that unfolding fd_in_avail_def by linarith+
    have "wr_done mtu M data A n ?ob ?out (cur @ [?c])"
      unfolding wr_done_def using full d(2) ord st w nc(2) le el by simp
    then show ?thesis using fr False write_chunks_loop_step [of h data ob out]
      by (auto simp: advance_chunk_def intro!: exI [of _ "[?c]"])
  qed
qed

subsection \<open>Runs of the disassembler\<close>

datatype fpd_event = DIn bytes | DRecv bytes | DTimer | DCancel

inductive fpd_step :: "host \<Rightarrow> FragmentProtoDisassembler \<Rightarrow> fpd_event \<Rightarrow> bytes option \<Rightarrow> FragmentProtoDisassembler \<Rightarrow> bool" for h where
  fpd_send: "fd_in ob = None \<Longrightarrow> fpd_input_handler_send h ob data = Some (ob', d, p) \<Longrightarrow> fpd_step h ob (DIn data) p ob'"
| fpd_recv: "fd_out ob = None \<Longrightarrow> length mem = fd_output_mtu ob \<Longrightarrow> fpd_output_handler_recv h ob mem = Some (ob', d, p) \<Longrightarrow>
    fpd_step h ob (DRecv mem) p ob'"
| fpd_timer: "fd_timer ob \<Longrightarrow> fpd_timer_handler ob = Some (ob', p) \<Longrightarrow> fpd_step h ob DTimer (Some p) ob'"
| fpd_cancel: "fpd_input_handler_requestcancel ob = Some ob' \<Longrightarrow> fpd_step h ob DCancel None ob'"

definition opt_list :: "'a option \<Rightarrow> 'a list" where
  "opt_list x = (case x of None \<Rightarrow> [] | Some y \<Rightarrow> [y])"

inductive fpd_run :: "host \<Rightarrow> FragmentProtoDisassembler \<Rightarrow> fpd_event list \<Rightarrow> bytes list \<Rightarrow> FragmentProtoDisassembler \<Rightarrow> bool" for h where
  fpd_refl: "fpd_run h ob [] [] ob"
| fpd_trans: "fpd_run h ob es ps ob' \<Longrightarrow> fpd_step h ob' e p ob'' \<Longrightarrow> fpd_run h ob (es @ [e]) (ps @ opt_list p) ob''"

definition dins :: "fpd_event list \<Rightarrow> bytes list" where
  "dins es = concat (map (\<lambda>e. case e of DIn f \<Rightarrow> [f] | _ \<Rightarrow> []) es)"

lemma dins_simps [simp]: "dins [] = []" "dins (es @ [e]) = dins es @ (case e of DIn f \<Rightarrow> [f] | _ \<Rightarrow> [])"
  by (simp_all add: dins_def)

definition fpd_stream :: "nat \<Rightarrow> nat \<Rightarrow> bytes list \<Rightarrow> wire_chunk list \<Rightarrow> FragmentProtoDisassembler \<Rightarrow> bool" where
  "fpd_stream mtu M fs cs ob \<longleftrightarrow> in_order mtu M 0 [] 0 cs \<and> list_all small_chunk cs \<and>
     (case stream_end 0 [] 0 cs of (n, acc, k) \<Rightarrow> fd_frame_id ob = of_nat n \<and>
        (case fd_in ob of None \<Rightarrow> acc = [] \<and> k = 0 \<and> fs = frames_in [] cs
         | Some data \<Rightarrow> fs = frames_in [] cs @ [data] \<and> length data \<le> mtu \<and> fd_in_used ob \<le> length data \<and>
             acc = take (fd_in_used ob) data \<and> (fd_in_used ob = length data \<longrightarrow> k = 0 \<and> data = []) \<and>
             chunk_count_ok ob k (fd_in_used ob)))"

definition fpd_buffer :: "wire_chunk list \<Rightarrow> FragmentProtoDisassembler \<Rightarrow> bool" where
  "fpd_buffer cur ob \<longleftrightarrow> (fd_timer ob \<longrightarrow> cur \<noteq> [] \<and> 0 \<le> fd_latency ob) \<and>
     (case fd_out ob of None \<Rightarrow> cur = []
      | Some out \<Rightarrow> fd_in ob = None \<and> length out = fd_output_mtu ob \<and> fd_out_used ob = length (enc_chunks cur) \<and>
          take (fd_out_used ob) out = enc_chunks cur \<and> 0 < fd_out_avail ob)"

definition fpd_inv :: "nat \<Rightarrow> nat \<Rightarrow> bytes list \<Rightarrow> bytes list \<Rightarrow> FragmentProtoDisassembler \<Rightarrow> bool" where
  "fpd_inv mtu M fs ps ob \<longleftrightarrow> fragmentproto_header_size < fd_output_mtu ob \<and> mtu < 65536 \<and> enough_chunks ob mtu M \<and>
     (\<exists>css cur. ps = map enc_chunks css \<and> [] \<notin> set css \<and> fpd_stream mtu M fs (concat css @ cur) ob \<and> fpd_buffer cur ob)"

lemma fpd_stream_out [simp]: "fpd_stream mtu M fs cs (ob\<lparr>fd_out := x, fd_timer := t\<rparr>) \<longleftrightarrow> fpd_stream mtu M fs cs ob"
  by (simp add: fpd_stream_def chunk_count_ok_def split: prod.split option.split)

lemma write_chunks_spec:
  assumes inv: "wr_inv mtu M data (concat css) n k ob out cur" and io: "fd_in ob = Some data" "fd_out ob = Some out"
    and room: "fragmentproto_header_size < fd_output_mtu ob" and css: "[] \<notin> set css" and timer: "fd_timer ob \<longrightarrow> 0 \<le> fd_latency ob"
  shows "\<exists>ob' d p. write_chunks h ob = Some (ob', d, p) \<and>
    fpd_inv mtu M (frames_in [] (concat css @ cur) @ [data]) (map enc_chunks css @ opt_list p) ob'"
proof -
  note d = wr_invD [OF inv]
  obtain ob1 out1 new where loop: "write_chunks_loop h data ob out = (ob1, out1)"
    and don: "wr_done mtu M data (concat css) n ob1 out1 (cur @ new)"
    and fr: "frames_in [] (concat css @ cur @ new) = frames_in [] (concat css @ cur) @ (if fd_in_used ob1 = length data then [data] else [])"
    and ob1: "ob1 = ob\<lparr>fd_in_used := fd_in_used ob1, fd_out_used := fd_out_used ob1\<rparr>"
    using write_chunks_loop_spec [OF inv room, of h] by (auto split: prod.splits)
  have same: "fd_output_mtu ob1 = fd_output_mtu ob" "fd_chunk_mtu ob1 = fd_chunk_mtu ob" "fd_latency ob1 = fd_latency ob"
    "fd_in ob1 = Some data" "fd_frame_id ob1 = of_nat n" "fd_timer ob1 = fd_timer ob"
    using io d(9) by (subst ob1, simp)+
  have dn: "fd_in_avail data ob1 = 0 \<longleftrightarrow> fd_in_used ob1 = length data" by (auto simp: fd_in_avail_def)
  let ?fin = "fd_in_used ob1 = length data"
  let ?ob2 = "if ?fin then ob1\<lparr>fd_in := None, fd_frame_id := fd_frame_id ob1 + 1\<rparr> else ob1"
  have avail: "fd_out_avail ?ob2 = fd_out_avail ob1" by (simp add: fd_out_avail_def)
  have stream: "fpd_stream mtu M (frames_in [] (concat css @ cur) @ [data]) (concat css @ cur @ new) ?ob2"
    using don fr same d(10) by (auto simp: fpd_stream_def wr_done_def chunk_count_ok_def)
  have step: "write_chunks h ob = (if fd_out_avail ob1 \<le> 0 \<or> fd_latency ob < 0
      then Some (?ob2\<lparr>fd_out := None, fd_timer := (if fd_latency ob \<ge> 0 then False else fd_timer ob)\<rparr>, ?fin, Some (take (fd_out_used ob1) out1))
      else Some (?ob2\<lparr>fd_out := Some out1, fd_timer := True\<rparr>, ?fin, None))"
    using io d(1) loop dn same avail by (simp add: write_chunks_def Let_def)
  show ?thesis
  proof (cases "fd_out_avail ob1 \<le> 0 \<or> fd_latency ob < 0")
    case True
    let ?ob3 = "?ob2\<lparr>fd_out := None, fd_timer := (if fd_latency ob \<ge> 0 then False else fd_timer ob)\<rparr>"
    have "fpd_stream mtu M (frames_in [] (concat css @ cur) @ [data]) (concat (css @ [cur @ new]) @ []) ?ob3"
      using stream by simp
    moreover have "fpd_buffer [] ?ob3" using timer by (auto simp: fpd_buffer_def)
    moreover have "take (fd_out_used ob1) out1 = enc_chunks (cur @ new)" "cur @ new \<noteq> []" using don unfolding wr_done_def by blast+
    ultimately have "fpd_inv mtu M (frames_in [] (concat css @ cur) @ [data]) (map enc_chunks css @ [take (fd_out_used ob1) out1]) ?ob3"
      unfolding fpd_inv_def using room d(11,14) same css
      by (intro conjI exI [of _ "css @ [cur @ new]"] exI [of _ "[]"]) (simp_all add: enough_chunks_def)
    then show ?thesis using step True by (simp add: opt_list_def)
  next
    case False
    let ?ob3 = "?ob2\<lparr>fd_out := Some out1, fd_timer := True\<rparr>"
    have fin: "?fin" using don False unfolding wr_done_def by presburger
    have "fpd_stream mtu M (frames_in [] (concat css @ cur) @ [data]) (concat css @ cur @ new) ?ob3"
      using stream by simp
    moreover have "length out1 = fd_output_mtu ob1" "fd_out_used ob1 = length (enc_chunks (cur @ new))"
      "take (fd_out_used ob1) out1 = enc_chunks (cur @ new)" "cur @ new \<noteq> []"
      using don unfolding wr_done_def by blast+
    then have "fpd_buffer (cur @ new) ?ob3" using False fin same by (auto simp: fpd_buffer_def fd_out_avail_def)
    ultimately have "fpd_inv mtu M (frames_in [] (concat css @ cur) @ [data]) (map enc_chunks css) ?ob3"
      unfolding fpd_inv_def using room d(11,14) same css
      by (intro conjI exI [of _ css] exI [of _ "cur @ new"]) (simp_all add: enough_chunks_def)
    then show ?thesis using step False by (simp add: opt_list_def)
  qed
qed

lemma fpd_inv_Init:
  "fragmentproto_header_size < output_mtu \<Longrightarrow> mtu < 65536 \<Longrightarrow> enough_chunks (FragmentProtoDisassembler_Init output_mtu chunk_mtu latency) mtu M \<Longrightarrow>
   fpd_inv mtu M [] [] (FragmentProtoDisassembler_Init output_mtu chunk_mtu latency)"
  unfolding fpd_inv_def
  by (intro conjI exI [of _ "[]"]) (simp_all add: FragmentProtoDisassembler_Init_def fpd_stream_def fpd_buffer_def)

lemma fpd_input_spec:
  assumes inv: "fpd_inv mtu M fs ps ob" and idle: "fd_in ob = None" and len: "length data \<le> mtu"
  shows "\<exists>ob' d p. fpd_input_handler_send h ob data = Some (ob', d, p) \<and> fpd_inv mtu M (fs @ [data]) (ps @ opt_list p) ob'"
proof -
  obtain css cur where c: "ps = map enc_chunks css" "[] \<notin> set css" "fpd_stream mtu M fs (concat css @ cur) ob" "fpd_buffer cur ob"
    and room: "fragmentproto_header_size < fd_output_mtu ob" "mtu < 65536" "enough_chunks ob mtu M"
    using inv unfolding fpd_inv_def by blast
  let ?ob = "ob\<lparr>fd_in := Some data, fd_in_used := 0\<rparr>"
  obtain n where n: "stream_end 0 [] 0 (concat css @ cur) = (n, [], 0)" "fd_frame_id ob = of_nat n" "fs = frames_in [] (concat css @ cur)"
    "in_order mtu M 0 [] 0 (concat css @ cur)" "list_all small_chunk (concat css @ cur)"
    using c(3) idle by (auto simp: fpd_stream_def split: prod.splits)
  show ?thesis
  proof (cases "fd_out ob")
    case None
    have "fpd_stream mtu M (fs @ [data]) (concat css @ cur) ?ob"
      using n len by (simp add: fpd_stream_def chunk_count_ok_def)
    moreover have "fpd_buffer cur ?ob" using c(4) None by (auto simp: fpd_buffer_def)
    ultimately have "fpd_inv mtu M (fs @ [data]) ps ?ob"
      unfolding fpd_inv_def using c(1,2) room by (intro conjI exI [of _ css] exI [of _ cur]) (simp_all add: enough_chunks_def)
    then show ?thesis using idle None
      by (intro exI [of _ ?ob] exI [of _ False] exI [of _ None]) (simp add: fpd_input_handler_send_def opt_list_def)
  next
    case (Some out)
    then have buf: "length out = fd_output_mtu ob" "fd_out_used ob = length (enc_chunks cur)" "take (fd_out_used ob) out = enc_chunks cur" "0 < fd_out_avail ob"
      using c(4) unfolding fpd_buffer_def by (simp_all split: option.splits) metis
    have "wr_inv mtu M data (concat css) n 0 ?ob out cur"
      unfolding wr_inv_def using buf n len room by (simp add: fd_out_avail_def chunk_count_ok_def enough_chunks_def)
    moreover have "fd_timer ?ob \<longrightarrow> 0 \<le> fd_latency ?ob" using c(4) by (simp add: fpd_buffer_def)
    ultimately have "\<exists>ob' d p. write_chunks h ?ob = Some (ob', d, p) \<and> fpd_inv mtu M (fs @ [data]) (ps @ opt_list p) ob'"
      unfolding n(3) c(1) using Some room(1) c(2) by (intro write_chunks_spec) simp_all
    then show ?thesis using idle Some by (simp add: fpd_input_handler_send_def)
  qed
qed

lemma fpd_recv_spec:
  assumes inv: "fpd_inv mtu M fs ps ob" and idle: "fd_out ob = None" and len: "length mem = fd_output_mtu ob"
  shows "\<exists>ob' d p. fpd_output_handler_recv h ob mem = Some (ob', d, p) \<and> fpd_inv mtu M fs (ps @ opt_list p) ob'"
proof -
  obtain css cur where c: "ps = map enc_chunks css" "[] \<notin> set css" "fpd_stream mtu M fs (concat css @ cur) ob" "fpd_buffer cur ob"
    and room: "fragmentproto_header_size < fd_output_mtu ob" "mtu < 65536" "enough_chunks ob mtu M"
    using inv unfolding fpd_inv_def by blast
  have cur: "cur = []" "\<not> fd_timer ob" using c(4) idle by (auto simp: fpd_buffer_def)
  let ?ob = "ob\<lparr>fd_out := Some mem, fd_out_used := 0\<rparr>"
  have avail: "0 < fd_out_avail ?ob" using room(1) by (simp add: fd_out_avail_def)
  have count: "chunk_count_ok ?ob k u \<longleftrightarrow> chunk_count_ok ob k u" "enough_chunks ?ob mtu M" for k u
    using room(3) by (simp_all add: chunk_count_ok_def enough_chunks_def)
  show ?thesis
  proof (cases "fd_in ob")
    case None
    have "fpd_stream mtu M fs (concat css @ []) ?ob" using c(3) None cur by (simp add: fpd_stream_def)
    moreover have "fpd_buffer [] ?ob" using cur None len avail by (simp add: fpd_buffer_def)
    ultimately have "fpd_inv mtu M fs ps ?ob"
      unfolding fpd_inv_def using c(1,2) room count by (intro conjI exI [of _ css] exI [of _ "[]"]) simp_all
    then show ?thesis using idle None
      by (intro exI [of _ ?ob] exI [of _ False] exI [of _ None]) (simp add: fpd_output_handler_recv_def opt_list_def)
  next
    case (Some data)
    obtain n k where n: "stream_end 0 [] 0 (concat css @ []) = (n, take (fd_in_used ob) data, k)" "fd_frame_id ob = of_nat n"
      "fs = frames_in [] (concat css @ []) @ [data]" "length data \<le> mtu" "fd_in_used ob \<le> length data"
      "fd_in_used ob = length data \<longrightarrow> k = 0 \<and> data = []" "chunk_count_ok ob k (fd_in_used ob)"
      "in_order mtu M 0 [] 0 (concat css @ [])" "list_all small_chunk (concat css @ [])"
      using c(3) Some cur by (auto simp: fpd_stream_def split: prod.splits)
    have "wr_inv mtu M data (concat css) n k ?ob mem []"
      unfolding wr_inv_def using n len room avail count by simp
    then have "\<exists>ob' d p. write_chunks h ?ob = Some (ob', d, p) \<and> fpd_inv mtu M fs (ps @ opt_list p) ob'"
      unfolding n(3) c(1) using Some room(1) c(2) cur(2) by (intro write_chunks_spec) simp_all
    then show ?thesis using idle Some by (simp add: fpd_output_handler_recv_def)
  qed
qed

lemma fpd_timer_spec:
  assumes inv: "fpd_inv mtu M fs ps ob" and timer: "fd_timer ob"
  shows "\<exists>ob' p. fpd_timer_handler ob = Some (ob', p) \<and> fpd_inv mtu M fs (ps @ [p]) ob'"
proof -
  obtain css cur where c: "ps = map enc_chunks css" "[] \<notin> set css" "fpd_stream mtu M fs (concat css @ cur) ob" "fpd_buffer cur ob"
    and room: "fragmentproto_header_size < fd_output_mtu ob" "mtu < 65536" "enough_chunks ob mtu M"
    using inv unfolding fpd_inv_def by blast
  have cur: "cur \<noteq> []" "0 \<le> fd_latency ob" using c(4) timer by (simp_all add: fpd_buffer_def)
  then obtain out where out: "fd_out ob = Some out" "fd_in ob = None" "take (fd_out_used ob) out = enc_chunks cur"
    using c(4) unfolding fpd_buffer_def by (auto split: option.splits)
  let ?ob = "ob\<lparr>fd_out := None, fd_timer := False\<rparr>"
  have "fpd_stream mtu M fs (concat (css @ [cur]) @ []) ?ob" "fpd_buffer [] ?ob" using c(3) by (simp_all add: fpd_buffer_def)
  then have "fpd_inv mtu M fs (map enc_chunks (css @ [cur])) ?ob"
    unfolding fpd_inv_def using c(2) cur(1) room
    by (intro conjI exI [of _ "css @ [cur]"] exI [of _ "[]"]) (simp_all add: enough_chunks_def)
  then show ?thesis using out cur c(1) by (simp add: fpd_timer_handler_def)
qed

lemma fpd_inv_run:
  assumes "fpd_run h ob es ps ob'" "fpd_inv mtu M [] [] ob" "DCancel \<notin> set es" "\<And>f. f \<in> set (dins es) \<Longrightarrow> length f \<le> mtu"
  shows "fpd_inv mtu M (dins es) ps ob'"
  using assms
proof (induction rule: fpd_run.induct)
  case (fpd_trans ob es ps ob' e p ob'')
  then have inv: "fpd_inv mtu M (dins es) ps ob'" by auto
  from fpd_trans(2) show ?case
  proof cases
    case (fpd_send data d)
    then show ?thesis using fpd_input_spec [OF inv, of data h] fpd_trans.prems(3) by auto
  next
    case (fpd_recv mem d)
    then show ?thesis using fpd_recv_spec [OF inv, of mem h] by auto
  next
    case (fpd_timer p')
    then show ?thesis using fpd_timer_spec [OF inv] by (auto simp: opt_list_def)
  next
    case fpd_cancel
    then show ?thesis using fpd_trans.prems(2) by simp
  qed
qed simp

subsection \<open>The receiver of a stream in order\<close>

definition partial_frame :: "u32 \<Rightarrow> nat \<Rightarrow> nat \<Rightarrow> bytes \<Rightarrow> nat \<Rightarrow> FragmentProtoAssembler_frame \<Rightarrow> bool" where
  "partial_frame t d x acc k fr \<longleftrightarrow> fr_id fr = of_nat x \<and> list_all (\<lambda>c. ck_start c + ck_len c \<le> length acc) (fr_chunks fr) \<and>
     fr_length fr = -1 \<and> fr_length_so_far fr = length acc \<and> fr_sum fr = length acc \<and> length (fr_chunks fr) = k \<and>
     take (length acc) (fr_buffer fr) = acc \<and> unat t \<le> unat (fr_time fr) + d"

definition fpa_at :: "nat \<Rightarrow> FragmentProtoAssembler \<Rightarrow> nat \<Rightarrow> bytes \<Rightarrow> nat \<Rightarrow> bool" where
  "fpa_at d ob x acc k \<longleftrightarrow> fpa_inv (\<lambda>_. None) ob \<and> (if k = 0 then acc = [] \<and> fa_used ob = []
     else \<exists>i. fa_used ob = [i] \<and> partial_frame (fa_time ob) d x acc k (fa_frames ob ! i))"

definition same_config :: "FragmentProtoAssembler \<Rightarrow> FragmentProtoAssembler \<Rightarrow> bool" where
  "same_config ob ob' \<longleftrightarrow> fa_output_mtu ob' = fa_output_mtu ob \<and> fa_num_chunks ob' = fa_num_chunks ob \<and>
     fa_in ob' = fa_in ob \<and> fa_in_pos ob' = fa_in_pos ob"

lemma no_frame_known: "chunk_of (\<lambda>_. None) x s (length p) l p"
  by (simp add: chunk_of_def)

lemma allocate_in_order:
  assumes at: "fpa_at d ob x acc 0"
  shows "\<exists>ob' i. fpa_obtain_frame ob (of_nat x) = Some (ob', i) \<and> fpa_inv (\<lambda>_. None) ob' \<and> fa_used ob' = [i] \<and>
    partial_frame (fa_time ob') 0 x [] 0 (fa_frames ob' ! i) \<and> same_config ob ob' \<and> fa_out ob' = fa_out ob"
proof -
  have inv: "fpa_inv (\<lambda>_. None) ob" and used: "fa_used ob = []" using at by (simp_all add: fpa_at_def)
  then have lists: "fpa_lists ob" by (simp add: fpa_inv_def)
  have tree: "fa_tree ob y = None" for y
    using lists used by (cases "fa_tree ob y") (auto simp: fpa_lists_def)
  obtain i rest where free: "fa_free ob = i # rest" using lists used by (cases "fa_free ob") (auto simp: fpa_lists_def)
  have i: "i < length (fa_frames ob)" using lists free by (auto simp: fpa_lists_def)
  obtain ob' j where ob': "fpa_obtain_frame ob (of_nat x) = Some (ob', j)" "fpa_inv (\<lambda>_. None) ob'"
    using fpa_obtain_frame_spec [OF inv, of "of_nat x"] by auto
  show ?thesis using ob' tree free used i
    by (auto simp: fpa_obtain_frame_def fpa_allocate_new_frame_def partial_frame_def same_config_def)
qed

lemma obtain_in_order:
  assumes at: "fpa_at d ob x acc k" and d: "d \<le> 1"
  shows "\<exists>ob' i. fpa_obtain_frame ob (of_nat x) = Some (ob', i) \<and> fpa_inv (\<lambda>_. None) ob' \<and> fa_used ob' = [i] \<and>
    partial_frame (fa_time ob') d x acc k (fa_frames ob' ! i) \<and> same_config ob ob' \<and> fa_out ob' = fa_out ob"
proof (cases "k = 0")
  case True
  then have "acc = []" using at by (simp add: fpa_at_def)
  then show ?thesis using allocate_in_order [of d ob x acc] at True by (auto simp: partial_frame_def)
next
  case False
  then obtain i where i: "fpa_inv (\<lambda>_. None) ob" "fa_used ob = [i]" "partial_frame (fa_time ob) d x acc k (fa_frames ob ! i)"
    using at by (auto simp: fpa_at_def)
  then have lists: "fpa_lists ob" and fr: "frame_inv (\<lambda>_. None) ob (fa_frames ob ! i)" by (simp_all add: fpa_inv_def)
  have tree: "fa_tree ob (of_nat x) = Some i" using lists i(2,3) by (simp add: fpa_lists_def partial_frame_def)
  have "unat (fa_time ob - fr_time (fa_frames ob ! i)) \<le> 1"
    using i(3) d fr unfolding partial_frame_def frame_inv_def by (simp add: unat_sub le_diff_conv)
  moreover have "1 \<le> unat (of_nat (fa_time_tolerance ob) :: u32)"
    using lists by (simp add: fpa_lists_def FPA_MAX_TIME_def unat_max_word unat_of_nat Suc_le_eq)
  ultimately have "\<not> timed_out ob i" by (simp add: word_less_nat_alt)
  then show ?thesis using tree i frame_is_timed_out_spec [OF fr]
    by (simp add: fpa_obtain_frame_def same_config_def)
qed

lemma process_chunk_in_order:
  assumes at: "fpa_at d ob x acc k" and d: "d \<le> 1" and ok: "chunk_ok (fa_output_mtu ob) (fa_num_chunks ob) x acc k c"
  defines "r \<equiv> process_chunk ob (wc_id c) (wc_start c) (length (wc_payload c)) (wc_last c) (wc_payload c)"
  shows "\<not> wc_last c \<Longrightarrow> \<exists>ob'. r = Some (ob', False) \<and> fpa_at 0 ob' x (acc @ wc_payload c) (k + 1) \<and> same_config ob ob' \<and> fa_out ob' = fa_out ob"
    "wc_last c \<Longrightarrow> \<exists>ob' i. r = Some (ob', True) \<and> fpa_at 0 ob' (x + 1) [] 0 \<and> same_config ob ob' \<and>
      fa_out ob' = Some (i, length acc + length (wc_payload c)) \<and>
      take (length acc + length (wc_payload c)) (fr_buffer (fa_frames ob' ! i)) = acc @ wc_payload c"
proof -
  let ?p = "wc_payload c" and ?s = "length acc" and ?l = "length (wc_payload c)"
  obtain ob1 i where o: "fpa_obtain_frame ob (of_nat x) = Some (ob1, i)" "fpa_inv (\<lambda>_. None) ob1" "fa_used ob1 = [i]"
    and p: "partial_frame (fa_time ob1) d x acc k (fa_frames ob1 ! i)" and same: "same_config ob ob1" "fa_out ob1 = fa_out ob"
    using obtain_in_order [OF at d] by blast
  let ?fr = "fa_frames ob1 ! i"
  let ?new = "chunk_added ob1 ?fr ?s ?l (wc_last c) ?p"
  let ?ob = "ob1\<lparr>fa_frames := (fa_frames ob1)[i := ?new]\<rparr>"
  have lists: "fpa_lists ob1" using o(2) by (simp add: fpa_inv_def)
  have i: "i < length (fa_frames ob1)" using lists o(3) by (intro fpa_lists_used) simp_all
  have len: "length (fr_buffer ?fr) = fa_output_mtu ob" using lists i same by (simp add: fpa_lists_def same_config_def)
  have c: "wc_id c = of_nat x" "wc_start c = ?s" "?s + ?l \<le> fa_output_mtu ob" "if wc_last c then k < fa_num_chunks ob else k + 1 < fa_num_chunks ob"
    using ok unfolding chunk_ok_def by blast+
  then have fits: "\<not> fa_output_mtu ob < ?s" "\<not> fa_output_mtu ob - ?s < ?l" by linarith+
  have rej: "\<not> chunk_rejected ?fr ?s ?l (wc_last c)"
    using p by (auto simp: chunk_rejected_def partial_frame_def list_ex_iff list_all_iff chunks_overlap_def)
  have kM: "length (fr_chunks ?fr) < fa_num_chunks ob1" using p c(4) same by (simp add: partial_frame_def same_config_def split: if_splits)
  have buf: "take (?s + ?l) (fr_buffer ?new) = acc @ ?p"
    using p len c(3) take_mem_write [of ?s ?p "fr_buffer ?fr"] by (simp add: partial_frame_def)
  have step: "r = (if fr_length ?new < 0 \<or> int (fr_sum ?new) < fr_length ?new then
         (if length (fr_chunks ?new) = fa_num_chunks ob1 then Some (fpa_free_frame i ?ob, False) else Some (?ob, False))
       else if int (fr_sum ?new) \<noteq> fr_length ?new then None
       else Some ((fpa_free_frame i ?ob)\<lparr>fa_out := Some (i, nat (fr_length ?new))\<rparr>, True))"
    unfolding r_def c(1,2) using fits o(1) rej kM by (simp add: process_chunk_def Let_def)
  have inv: "\<And>ob' b. r = Some (ob', b) \<Longrightarrow> fpa_inv (\<lambda>_. None) ob'"
    using process_chunk_spec [OF _ no_frame_known] at unfolding r_def fpa_at_def by (metis option.inject prod.inject)
  show "\<exists>ob'. r = Some (ob', False) \<and> fpa_at 0 ob' x (acc @ ?p) (k + 1) \<and> same_config ob ob' \<and> fa_out ob' = fa_out ob" if "\<not> wc_last c"
  proof -
    have r: "r = Some (?ob, False)" using step that p c(4) same by (simp add: partial_frame_def same_config_def)
    moreover have "partial_frame (fa_time ob1) 0 x (acc @ ?p) (k + 1) ?new"
      using p buf that by (auto simp: partial_frame_def list_all_iff)
    ultimately show ?thesis using inv [OF r] o(3) i same by (auto simp: fpa_at_def same_config_def)
  qed
  show "\<exists>ob' i. r = Some (ob', True) \<and> fpa_at 0 ob' (x + 1) [] 0 \<and> same_config ob ob' \<and>
      fa_out ob' = Some (i, ?s + ?l) \<and> take (?s + ?l) (fr_buffer (fa_frames ob' ! i)) = acc @ ?p" if "wc_last c"
  proof -
    have r: "r = Some ((fpa_free_frame i ?ob)\<lparr>fa_out := Some (i, ?s + ?l)\<rparr>, True)"
      using step that p by (simp add: partial_frame_def nat_int_add)
    then show ?thesis using inv [OF r] o(3) i same buf by (auto simp: fpa_at_def same_config_def)
  qed
qed

lemma process_chunks_in_order:
  assumes "fpa_at d ob x acc k" "d \<le> 1" "in_order (fa_output_mtu ob) (fa_num_chunks ob) x acc k cs"
  shows "\<exists>ob' rest sent. process_chunks cs ob = Some (ob', rest, sent) \<and> same_config ob ob' \<and>
    (if sent then \<exists>done f i. cs = done @ rest \<and> frames_in acc done = [f] \<and> stream_end x acc k done = (x + 1, [], 0) \<and>
       fpa_at 0 ob' (x + 1) [] 0 \<and> fa_out ob' = Some (i, length f) \<and> take (length f) (fr_buffer (fa_frames ob' ! i)) = f
     else rest = [] \<and> frames_in acc cs = [] \<and> fa_out ob' = fa_out ob \<and>
       (case stream_end x acc k cs of (x', acc', k') \<Rightarrow> fpa_at (if cs = [] then d else 0) ob' x' acc' k'))"
  using assms
proof (induction cs arbitrary: ob d acc k)
  case Nil
  then show ?case by (intro exI [of _ ob] exI [of _ "[]"] exI [of _ False]) (simp add: same_config_def)
next
  case (Cons c cs)
  let ?r = "process_chunk ob (wc_id c) (wc_start c) (length (wc_payload c)) (wc_last c) (wc_payload c)"
  have ok: "chunk_ok (fa_output_mtu ob) (fa_num_chunks ob) x acc k c" using Cons.prems(3) by simp
  show ?case
  proof (cases "wc_last c")
    case True
    obtain ob' i where r: "?r = Some (ob', True)" "fpa_at 0 ob' (x + 1) [] 0" "same_config ob ob'"
      "fa_out ob' = Some (i, length acc + length (wc_payload c))"
      "take (length acc + length (wc_payload c)) (fr_buffer (fa_frames ob' ! i)) = acc @ wc_payload c"
      using process_chunk_in_order(2) [OF Cons.prems(1,2) ok True] by blast
    show ?thesis
    proof (intro exI conjI)
      show "process_chunks (c # cs) ob = Some (ob', cs, True)" using r(1) by simp
      show "if True then \<exists>done f i. c # cs = done @ cs \<and> frames_in acc done = [f] \<and> stream_end x acc k done = (x + 1, [], 0) \<and>
         fpa_at 0 ob' (x + 1) [] 0 \<and> fa_out ob' = Some (i, length f) \<and> take (length f) (fr_buffer (fa_frames ob' ! i)) = f
       else cs = [] \<and> frames_in acc (c # cs) = [] \<and> fa_out ob' = fa_out ob \<and>
         (case stream_end x acc k (c # cs) of (x', acc', k') \<Rightarrow> fpa_at (if c # cs = [] then d else 0) ob' x' acc' k')"
        using r True by (simp add: exI [of _ "[c]"])
    qed (rule r(3))
  next
    case False
    obtain ob1 where r: "?r = Some (ob1, False)" "fpa_at 0 ob1 x (acc @ wc_payload c) (k + 1)" "same_config ob ob1" "fa_out ob1 = fa_out ob"
      using process_chunk_in_order(1) [OF Cons.prems(1,2) ok False] by blast
    have cfg: "fa_output_mtu ob1 = fa_output_mtu ob" "fa_num_chunks ob1 = fa_num_chunks ob" using r(3) by (simp_all add: same_config_def)
    have ord: "in_order (fa_output_mtu ob1) (fa_num_chunks ob1) x (acc @ wc_payload c) (k + 1) cs" using Cons.prems(3) False cfg by simp
    have pc: "process_chunks (c # cs) ob = process_chunks cs ob1" using r(1) by simp
    obtain ob' rest sent where IH: "process_chunks cs ob1 = Some (ob', rest, sent)" "same_config ob1 ob'"
      and res: "if sent then \<exists>done f i. cs = done @ rest \<and> frames_in (acc @ wc_payload c) done = [f] \<and>
         stream_end x (acc @ wc_payload c) (k + 1) done = (x + 1, [], 0) \<and>
         fpa_at 0 ob' (x + 1) [] 0 \<and> fa_out ob' = Some (i, length f) \<and> take (length f) (fr_buffer (fa_frames ob' ! i)) = f
       else rest = [] \<and> frames_in (acc @ wc_payload c) cs = [] \<and> fa_out ob' = fa_out ob1 \<and>
         (case stream_end x (acc @ wc_payload c) (k + 1) cs of (x', acc', k') \<Rightarrow> fpa_at (if cs = [] then 0 else 0) ob' x' acc' k')"
      using Cons.IH [OF r(2) _ ord] by blast
    have cfg': "same_config ob ob'" using r(3) IH(2) by (simp add: same_config_def)
    show ?thesis
    proof (cases sent)
      case True
      then obtain don f i where don: "cs = don @ rest" "frames_in (acc @ wc_payload c) don = [f]"
         "stream_end x (acc @ wc_payload c) (k + 1) don = (x + 1, [], 0)" "fpa_at 0 ob' (x + 1) [] 0"
         "fa_out ob' = Some (i, length f)" "take (length f) (fr_buffer (fa_frames ob' ! i)) = f" using res by auto
      then have "\<exists>done f i. c # cs = done @ rest \<and> frames_in acc done = [f] \<and> stream_end x acc k done = (x + 1, [], 0) \<and>
          fpa_at 0 ob' (x + 1) [] 0 \<and> fa_out ob' = Some (i, length f) \<and> take (length f) (fr_buffer (fa_frames ob' ! i)) = f"
        using False by (intro exI [of _ "c # don"] exI [of _ f] exI [of _ i]) simp
      then show ?thesis using pc IH(1) cfg' True by (intro exI [of _ ob'] exI [of _ rest] exI [of _ sent]) (simp only: if_True simp_thms)
    next
      case F: False
      then show ?thesis using pc IH(1) cfg' res False r(4)
        by (intro exI [of _ ob'] exI [of _ rest] exI [of _ sent]) simp
    qed
  qed
qed

lemma increment_time_in_order:
  assumes at: "fpa_at d ob x acc k" and d: "k = 0 \<or> d = 0"
  shows "\<exists>ob'. increment_time ob = Some ob' \<and> fpa_at 1 ob' x acc k \<and> same_config ob ob' \<and> fa_out ob' = fa_out ob"
proof -
  have inv: "fpa_inv (\<lambda>_. None) ob" using at by (simp add: fpa_at_def)
  obtain ob' where inc: "increment_time ob = Some ob'" "fpa_inv (\<lambda>_. None) ob'" using increment_time_spec [OF inv] by blast
  show ?thesis
  proof (cases "fa_time ob = FPA_MAX_TIME")
    case False
    then have "fa_time ob < FPA_MAX_TIME" by (simp add: FPA_MAX_TIME_def word_order.not_eq_extremum)
    then show ?thesis using False inc at d unat_time_Suc [of "fa_time ob"]
      by (auto simp: increment_time_def fpa_at_def same_config_def partial_frame_def)
  next
    case True
    obtain ob1 t where r: "reduce_times ob = Some ob1" "fa_in ob1 = fa_in ob" "fa_in_pos ob1 = fa_in_pos ob" "fa_out ob1 = fa_out ob"
      "fa_output_mtu ob1 = fa_output_mtu ob" "fa_num_chunks ob1 = fa_num_chunks ob" "fa_used ob1 = filter (\<lambda>i. \<not> timed_out ob i) (fa_used ob)"
      "fa_frames ob1 = shift_times (set (fa_used ob1)) t (fa_frames ob)"
      "if fa_used ob1 = [] then fa_time ob1 = 0 else fa_time ob1 = fa_time ob - t \<and> 0 < t \<and> (\<forall>i\<in>set (fa_used ob1). t \<le> fr_time (fa_frames ob ! i))"
      using reduce_times_spec [OF inv True] by blast
    show ?thesis
    proof (cases "k = 0")
      case k: True
      then have "fa_used ob1 = []" using at r(7) by (simp add: fpa_at_def)
      then show ?thesis using True inc r at k by (auto simp: increment_time_def fpa_at_def same_config_def)
    next
      case k: False
      then obtain i where i: "fa_used ob = [i]" "partial_frame (fa_time ob) d x acc k (fa_frames ob ! i)" using at by (auto simp: fpa_at_def)
      have "frame_inv (\<lambda>_. None) ob (fa_frames ob ! i)" using inv i(1) by (simp add: fpa_inv_def)
      then have t: "fr_time (fa_frames ob ! i) = fa_time ob"
        using i(2) d k by (auto simp: partial_frame_def frame_inv_def word_le_nat_alt intro: order.antisym)
      then have used: "fa_used ob1 = [i]" using r(7) i(1) by simp
      moreover have "i < length (fa_frames ob)" using inv i(1) by (intro fpa_lists_used) (simp_all add: fpa_inv_def)
      ultimately have fr: "fa_frames ob1 ! i = (fa_frames ob ! i)\<lparr>fr_time := fa_time ob1\<rparr>" using r(8,9) t by (simp add: shift_times_def)
      have "ob' = ob1\<lparr>fa_time := fa_time ob1 + 1\<rparr>" "fa_time ob1 < FPA_MAX_TIME"
        using inc(1) True r(1) used by (auto simp: increment_time_def split: if_splits)
      then show ?thesis using inc i(2) fr used r k unat_time_Suc [of "fa_time ob1"]
        by (auto simp: fpa_at_def same_config_def partial_frame_def)
    qed
  qed
qed

definition fpa_progress :: "host \<Rightarrow> FragmentProtoAssembler \<Rightarrow> nat \<Rightarrow> bytes \<Rightarrow> nat \<Rightarrow> wire_chunk list \<Rightarrow> bytes list \<Rightarrow> bool" where
  "fpa_progress h ob x acc k cs fs \<longleftrightarrow>
     (case fa_out ob of
        None \<Rightarrow> fa_in ob = None \<and> fs = frames_in acc cs \<and> (case stream_end x acc k cs of (x, acc, k) \<Rightarrow> fpa_at 1 ob x acc k)
      | Some (i, n) \<Rightarrow> \<exists>data pend don x' f. fa_in ob = Some data \<and> parse_chunks h (drop (fa_in_pos ob) data) = pend \<and> cs = don @ pend \<and>
          frames_in acc don = fs @ [f] \<and> n = length f \<and> take n (fr_buffer (fa_frames ob ! i)) = f \<and>
          stream_end x acc k don = (x', [], 0) \<and> fpa_at 0 ob x' [] 0)"

lemma fpa_progressI:
  assumes "fa_out ob = Some (i, length f)" "fa_in ob = Some data" "cs = don @ parse_chunks h (drop (fa_in_pos ob) data)"
    "frames_in acc don = fs @ [f]" "take (length f) (fr_buffer (fa_frames ob ! i)) = f" "stream_end x acc k don = (x', [], 0)" "fpa_at 0 ob x' [] 0"
  shows "fpa_progress h ob x acc k cs fs"
  unfolding fpa_progress_def assms(1) option.case prod.case using assms(2-7) by blast

lemma fpa_at_upd:
  "fpa_at d ob x acc k \<Longrightarrow> fpa_at d (ob\<lparr>fa_in := y\<rparr>) x acc k" "fpa_at d ob x acc k \<Longrightarrow> fpa_at d (ob\<lparr>fa_in_pos := z\<rparr>) x acc k"
  "fpa_at d ob x acc k \<Longrightarrow> fpa_at d (ob\<lparr>fa_out := w\<rparr>) x acc k"
  by (simp_all add: fpa_at_def fpa_inv_def fpa_lists_def frame_inv_def split: if_splits)

lemma process_input_in_order:
  assumes at: "fpa_at d ob x acc k" "d \<le> 1" and data: "fa_in ob = Some data" "parse_chunks h (drop (fa_in_pos ob) data) = cs"
    and ord: "in_order (fa_output_mtu ob) (fa_num_chunks ob) x acc k cs" and idle: "fa_out ob = None" and ne: "cs \<noteq> [] \<or> k = 0"
  shows "\<exists>ob'. process_input h ob = Some ob' \<and> fa_output_mtu ob' = fa_output_mtu ob \<and> fa_num_chunks ob' = fa_num_chunks ob \<and>
    fpa_progress h ob' x acc k cs []"
proof -
  obtain ob1 rest sent where c: "process_chunks cs ob = Some (ob1, rest, sent)" "same_config ob ob1"
    and res: "if sent then \<exists>done f i. cs = done @ rest \<and> frames_in acc done = [f] \<and> stream_end x acc k done = (x + 1, [], 0) \<and>
       fpa_at 0 ob1 (x + 1) [] 0 \<and> fa_out ob1 = Some (i, length f) \<and> take (length f) (fr_buffer (fa_frames ob1 ! i)) = f
     else rest = [] \<and> frames_in acc cs = [] \<and> fa_out ob1 = fa_out ob \<and>
       (case stream_end x acc k cs of (x', acc', k') \<Rightarrow> fpa_at (if cs = [] then d else 0) ob1 x' acc' k')"
    using process_chunks_in_order [OF at ord] by blast
  obtain pos where loop: "process_loop h data ob (fa_in_pos ob) = Some (ob1, pos, sent)" "sent \<longrightarrow> parse_chunks h (drop pos data) = rest"
    using process_loop_chunks [where h = h and pos = "fa_in_pos ob" and data = data and ob = ob] c(1) data(2) by auto
  let ?ob = "ob1\<lparr>fa_in_pos := pos\<rparr>"
  have cfg: "fa_output_mtu ob1 = fa_output_mtu ob" "fa_num_chunks ob1 = fa_num_chunks ob" "fa_in ob1 = Some data"
    using c(2) data(1) by (simp_all add: same_config_def)
  show ?thesis
  proof (cases sent)
    case True
    then obtain don f i where "cs = don @ rest" "frames_in acc don = [f]" "stream_end x acc k don = (x + 1, [], 0)"
       "fpa_at 0 ob1 (x + 1) [] 0" "fa_out ob1 = Some (i, length f)" "take (length f) (fr_buffer (fa_frames ob1 ! i)) = f" using res by auto
    then have "fpa_progress h ?ob x acc k cs []"
      using True loop(2) cfg(3) by (intro fpa_progressI [of ?ob i f data cs don _ _ _ _ _ "x + 1"] fpa_at_upd(2)) simp_all
    then show ?thesis using True loop(1) data(1) cfg by (simp add: process_input_def)
  next
    case False
    obtain x' acc' k' where e: "stream_end x acc k cs = (x', acc', k')" by (metis prod_cases3)
    then have "fpa_at (if cs = [] then d else 0) ?ob x' acc' k'" "cs = [] \<Longrightarrow> k' = 0" using res False ne by (auto intro: fpa_at_upd(2))
    then obtain ob2 where inc: "increment_time ?ob = Some ob2" "fpa_at 1 ob2 x' acc' k'" "same_config ?ob ob2" "fa_out ob2 = fa_out ?ob"
      using increment_time_in_order [of _ ?ob x' acc' k'] by (cases "cs = []") auto
    have "fpa_progress h (ob2\<lparr>fa_in := None\<rparr>) x acc k cs []"
      using inc e res False idle fpa_at_upd(1) by (auto simp: fpa_progress_def)
    then show ?thesis using False loop(1) data(1) cfg inc res idle by (auto simp: process_input_def same_config_def)
  qed
qed

definition fins :: "fpa_event list \<Rightarrow> bytes list" where
  "fins es = concat (map (\<lambda>e. case e of FIn p \<Rightarrow> [p] | FOut x f \<Rightarrow> []) es)"

definition fouts :: "fpa_event list \<Rightarrow> bytes list" where
  "fouts es = concat (map (\<lambda>e. case e of FIn p \<Rightarrow> [] | FOut x f \<Rightarrow> [f]) es)"

lemma fins_simps [simp]: "fins [] = []" "fins (es @ [FIn p]) = fins es @ [p]" "fins (es @ [FOut x f]) = fins es"
  "fouts [] = []" "fouts (es @ [FIn p]) = fouts es" "fouts (es @ [FOut x f]) = fouts es @ [f]"
  by (simp_all add: fins_def fouts_def)

lemma fpa_progress_append:
  assumes "stream_end 0 [] 0 cs = (x, acc, k)" "fpa_progress h ob x acc k ds fs"
  shows "fpa_progress h ob 0 [] 0 (cs @ ds) (frames_in [] cs @ fs)"
proof (cases "fa_out ob")
  case None
  then show ?thesis using assms by (simp add: fpa_progress_def frames_in_append [of _ _ _ 0 0] stream_end_append)
next
  case (Some w)
  obtain i n where w: "w = (i, n)" by (cases w)
  then obtain data don x' f where "fa_in ob = Some data" "ds = don @ parse_chunks h (drop (fa_in_pos ob) data)" "frames_in acc don = fs @ [f]"
    "n = length f" "take n (fr_buffer (fa_frames ob ! i)) = f" "stream_end x acc k don = (x', [], 0)" "fpa_at 0 ob x' [] 0"
    using assms(2) Some by (auto simp: fpa_progress_def)
  then show ?thesis using assms(1) Some w
    by (intro fpa_progressI [of ob i f data _ "cs @ don"]) (simp_all add: frames_in_append [of _ _ _ 0 0] stream_end_append)
qed

lemma fpa_input_in_order:
  assumes prog: "fpa_progress h ob 0 [] 0 cs fs" and idle: "fa_in ob = None" and ds: "ds \<noteq> []" "list_all small_chunk ds"
    and ord: "in_order (fa_output_mtu ob) (fa_num_chunks ob) 0 [] 0 (cs @ ds)"
  shows "\<exists>ob'. fpa_input_handler_send h ob (enc_chunks ds) = Some ob' \<and> fa_output_mtu ob' = fa_output_mtu ob \<and>
    fa_num_chunks ob' = fa_num_chunks ob \<and> fpa_progress h ob' 0 [] 0 (cs @ ds) fs"
proof -
  have out: "fa_out ob = None" using prog idle by (auto simp: fpa_progress_def split: option.splits)
  obtain x acc k where e: "stream_end 0 [] 0 cs = (x, acc, k)" by (metis prod_cases3)
  have at: "fpa_at 1 ob x acc k" "fs = frames_in [] cs" using prog out e by (simp_all add: fpa_progress_def)
  let ?ob = "ob\<lparr>fa_in := Some (enc_chunks ds), fa_in_pos := 0\<rparr>"
  have "fpa_at 1 ?ob x acc k" by (intro fpa_at_upd at)
  moreover have "in_order (fa_output_mtu ?ob) (fa_num_chunks ?ob) x acc k ds" using ord e by (simp add: in_order_append)
  ultimately obtain ob' where "process_input h ?ob = Some ob'" "fa_output_mtu ob' = fa_output_mtu ob" "fa_num_chunks ob' = fa_num_chunks ob"
    "fpa_progress h ob' x acc k ds []"
    using process_input_in_order [of 1 ?ob x acc k "enc_chunks ds" h ds] out ds by (auto simp: parse_enc_chunks)
  then show ?thesis using idle at(2) fpa_progress_append [OF e, of h ob' ds "[]"] by (simp add: fpa_input_handler_send_def)
qed

lemma fpa_output_in_order:
  assumes prog: "fpa_progress h ob 0 [] 0 cs fs" and out: "fa_out ob = Some (i, n)"
    and ord: "in_order (fa_output_mtu ob) (fa_num_chunks ob) 0 [] 0 cs"
  shows "\<exists>ob'. fpa_output_handler_done h ob = Some ob' \<and> fa_output_mtu ob' = fa_output_mtu ob \<and>
    fa_num_chunks ob' = fa_num_chunks ob \<and> fpa_progress h ob' 0 [] 0 cs (fs @ [take n (fr_buffer (fa_frames ob ! i))])"
proof -
  obtain data pend don x f where d: "fa_in ob = Some data" "parse_chunks h (drop (fa_in_pos ob) data) = pend" "cs = don @ pend"
    "frames_in [] don = fs @ [f]" "n = length f" "take n (fr_buffer (fa_frames ob ! i)) = f" "stream_end 0 [] 0 don = (x, [], 0)" "fpa_at 0 ob x [] 0"
    using prog out by (auto simp: fpa_progress_def)
  let ?ob = "ob\<lparr>fa_out := None\<rparr>"
  have "in_order (fa_output_mtu ?ob) (fa_num_chunks ?ob) x [] 0 pend" using ord d(3,7) by (simp add: in_order_append)
  then obtain ob' where "process_input h ?ob = Some ob'" "fa_output_mtu ob' = fa_output_mtu ob" "fa_num_chunks ob' = fa_num_chunks ob"
    "fpa_progress h ob' x [] 0 pend []"
    using process_input_in_order [of 0 ?ob x "[]" 0 data h pend] d(1,2,8) fpa_at_upd(3) by auto
  then show ?thesis using fpa_progress_append [OF d(7), of h ob' pend "[]"] d(3,4,6) by (simp add: fpa_output_handler_done_def)
qed

lemma in_order_prefix: "in_order mtu M x acc k (cs @ ds) \<Longrightarrow> in_order mtu M x acc k cs"
  by (simp add: in_order_append)

lemma fpa_run_in_order:
  assumes "fpa_run h ob es ob'" "fpa_progress h ob 0 [] 0 [] []" "fins es = map enc_chunks css" "[] \<notin> set css"
    "list_all small_chunk (concat css)" "in_order (fa_output_mtu ob) (fa_num_chunks ob) 0 [] 0 (concat css)"
  shows "fpa_progress h ob' 0 [] 0 (concat css) (fouts es) \<and> fa_output_mtu ob' = fa_output_mtu ob \<and> fa_num_chunks ob' = fa_num_chunks ob"
  using assms
proof (induction arbitrary: css rule: fpa_run.induct)
  case (fpa_refl ob)
  then show ?case by simp
next
  case (fpa_trans ob es ob' e ob'')
  from fpa_trans(2) show ?case
  proof cases
    case (fpa_in data)
    then obtain css' cs where css: "css = css' @ [cs]" "data = enc_chunks cs" "fins es = map enc_chunks css'"
      using fpa_trans.prems(2) by (cases css rule: rev_cases) auto
    have IH: "fpa_progress h ob' 0 [] 0 (concat css') (fouts es)" "fa_output_mtu ob' = fa_output_mtu ob" "fa_num_chunks ob' = fa_num_chunks ob"
      using fpa_trans.IH [OF fpa_trans.prems(1) css(3)] fpa_trans.prems(3-5) css(1) in_order_prefix by auto
    then show ?thesis using fpa_input_in_order [OF IH(1) fpa_in(2), of cs] fpa_trans.prems(3-5) css fpa_in by auto
  next
    case (fpa_out i n)
    then have "fins es = map enc_chunks css" using fpa_trans.prems(2) by simp
    then have IH: "fpa_progress h ob' 0 [] 0 (concat css) (fouts es)" "fa_output_mtu ob' = fa_output_mtu ob" "fa_num_chunks ob' = fa_num_chunks ob"
      using fpa_trans.IH [of css] fpa_trans.prems by auto
    then show ?thesis using fpa_output_in_order [OF IH(1) fpa_out(2)] fpa_trans.prems(5) fpa_out by auto
  qed
qed

subsection \<open>Properties\<close>

lemma in_order_mono: "mtu \<le> mtu' \<Longrightarrow> in_order mtu M x acc k cs \<Longrightarrow> in_order mtu' M x acc k cs"
  by (induction cs arbitrary: x acc k) (auto simp: chunk_ok_def)

fun chunk_counts :: "nat \<Rightarrow> wire_chunk list \<Rightarrow> nat list" where
  "chunk_counts k [] = []"
| "chunk_counts k (c # cs) = (if wc_last c then (k + 1) # chunk_counts 0 cs else chunk_counts (k + 1) cs)"

lemma in_order_chunk_counts: "in_order mtu M x acc k cs \<Longrightarrow> list_all (\<lambda>n. n \<le> M) (chunk_counts k cs)"
  by (induction cs arbitrary: x acc k) (auto simp: chunk_ok_def)

definition flushed :: "FragmentProtoDisassembler \<Rightarrow> bool" where
  "flushed d \<longleftrightarrow> fd_in d = None \<and> (fd_out d = None \<or> fd_out_used d = 0)"

lemma fpd_inv_flushed:
  assumes "fpd_inv mtu M fs ps d"
  obtains css cur where "ps = map enc_chunks css" "[] \<notin> set css" "fpd_stream mtu M fs (concat css @ cur) d" "flushed d \<longrightarrow> cur = []"
proof -
  obtain css cur where c: "ps = map enc_chunks css" "[] \<notin> set css" "fpd_stream mtu M fs (concat css @ cur) d" "fpd_buffer cur d"
    using assms unfolding fpd_inv_def by blast
  have "cur = []" if "flushed d"
    using that c(4) length_enc_chunk unfolding flushed_def fpd_buffer_def
    by (cases cur) (auto simp: fragmentproto_header_size_def split: option.splits)
  then show thesis using that c by blast
qed

lemma fpd_stream_frames:
  assumes "fpd_stream mtu M fs (cs @ cur) d"
  shows "\<exists>rest. fs = frames_in [] cs @ rest \<and> (cur = [] \<and> fd_in d = None \<longrightarrow> rest = [])"
proof -
  obtain zs where "frames_in [] (cs @ cur) = frames_in [] cs @ zs" "cur = [] \<longrightarrow> zs = []"
    by (simp add: frames_in_append [of _ _ _ 0 0] split: prod.splits)
  then show ?thesis using assms by (auto simp: fpd_stream_def split: prod.splits option.splits)
qed

lemma fpa_progress_frames:
  assumes "fpa_progress h ob 0 [] 0 cs fs"
  shows "\<exists>rest. frames_in [] cs = fs @ rest \<and> (fa_out ob = None \<longrightarrow> rest = [])"
proof (cases "fa_out ob")
  case None
  then show ?thesis using assms by (simp add: fpa_progress_def)
next
  case (Some w)
  then obtain don pend f where "cs = don @ pend" "frames_in [] don = fs @ [f]"
    using assms by (cases w) (auto simp: fpa_progress_def)
  then show ?thesis using Some by (auto simp: frames_in_append [of _ _ _ 0 0])
qed

text \<open>A sender with nine-byte packets, so two bytes of a frame in each.\<close>

definition fpd_test :: FragmentProtoDisassembler where
  "fpd_test = FragmentProtoDisassembler_Init 9 (-1) (-1)"

definition fpd_exec :: "host \<Rightarrow> fpd_event \<Rightarrow> FragmentProtoDisassembler \<Rightarrow> (FragmentProtoDisassembler \<times> bytes option) option" where
  "fpd_exec h e ob = (case e of
     DIn f \<Rightarrow> map_option (\<lambda>(ob, d, p). (ob, p)) (fpd_input_handler_send h ob f)
   | DRecv mem \<Rightarrow> if length mem = fd_output_mtu ob then map_option (\<lambda>(ob, d, p). (ob, p)) (fpd_output_handler_recv h ob mem) else None
   | DTimer \<Rightarrow> if fd_timer ob then map_option (\<lambda>(ob, p). (ob, Some p)) (fpd_timer_handler ob) else None
   | DCancel \<Rightarrow> map_option (\<lambda>ob. (ob, None)) (fpd_input_handler_requestcancel ob))"

lemma fpd_exec_step: "fpd_exec h e ob = Some (ob', p) \<Longrightarrow> fpd_step h ob e p ob'"
  by (cases e) (auto simp: fpd_exec_def fpd_input_handler_send_def fpd_output_handler_recv_def
      intro: fpd_step.intros split: if_splits)

fun fpd_execs :: "host \<Rightarrow> fpd_event list \<Rightarrow> FragmentProtoDisassembler \<Rightarrow> (FragmentProtoDisassembler \<times> bytes list) option" where
  "fpd_execs h [] ob = Some (ob, [])"
| "fpd_execs h (e # es) ob = (case fpd_exec h e ob of None \<Rightarrow> None
     | Some (ob, p) \<Rightarrow> map_option (\<lambda>(ob, ps). (ob, opt_list p @ ps)) (fpd_execs h es ob))"

lemma fpd_execs_run:
  "fpd_run h ob0 es0 ps0 ob \<Longrightarrow> fpd_execs h es ob = Some (ob', ps) \<Longrightarrow> fpd_run h ob0 (es0 @ es) (ps0 @ ps) ob'"
proof (induction es arbitrary: ob es0 ps0 ps)
  case (Cons e es)
  then obtain ob1 p ps1 where e: "fpd_exec h e ob = Some (ob1, p)" "fpd_execs h es ob1 = Some (ob', ps1)" "ps = opt_list p @ ps1"
    by (auto split: option.splits)
  have "fpd_run h ob0 ((es0 @ [e]) @ es) ((ps0 @ opt_list p) @ ps1) ob'"
    by (rule Cons.IH [OF fpd_trans [OF Cons.prems(1) fpd_exec_step [OF e(1)]] e(2)])
  then show ?case using e(3) by simp
qed simp

definition fpa_exec :: "host \<Rightarrow> bytes \<Rightarrow> FragmentProtoAssembler \<Rightarrow> (FragmentProtoAssembler \<times> fpa_event list) option" where
  "fpa_exec h p ob = (case fa_in ob of Some _ \<Rightarrow> None
     | None \<Rightarrow> (case fpa_input_handler_send h ob p of None \<Rightarrow> None
         | Some ob1 \<Rightarrow> (case fa_out ob1 of None \<Rightarrow> Some (ob1, [FIn p])
             | Some (i, n) \<Rightarrow> map_option (\<lambda>ob2. (ob2, [FIn p, FOut (fr_id (fa_frames ob1 ! i)) (take n (fr_buffer (fa_frames ob1 ! i)))]))
                 (fpa_output_handler_done h ob1))))"

fun fpa_execs :: "host \<Rightarrow> bytes list \<Rightarrow> FragmentProtoAssembler \<Rightarrow> (FragmentProtoAssembler \<times> fpa_event list) option" where
  "fpa_execs h [] ob = Some (ob, [])"
| "fpa_execs h (p # ps) ob = (case fpa_exec h p ob of None \<Rightarrow> None
     | Some (ob, es) \<Rightarrow> map_option (\<lambda>(ob, es'). (ob, es @ es')) (fpa_execs h ps ob))"

lemma fpa_exec_run:
  assumes "fpa_run h ob0 es0 ob" "fpa_exec h p ob = Some (ob', es)"
  shows "fpa_run h ob0 (es0 @ es) ob'"
proof -
  obtain ob1 where ob1: "fa_in ob = None" "fpa_input_handler_send h ob p = Some ob1"
    using assms(2) by (auto simp: fpa_exec_def split: option.splits)
  have run: "fpa_run h ob0 (es0 @ [FIn p]) ob1" using assms(1) fpa_in [OF ob1] by (rule fpa_trans)
  show ?thesis
  proof (cases "fa_out ob1")
    case None
    then show ?thesis using run ob1 assms(2) by (simp add: fpa_exec_def)
  next
    case (Some w)
    obtain i n where w: "w = (i, n)" by (cases w)
    then have "fpa_output_handler_done h ob1 = Some ob'" "es = [FIn p, FOut (fr_id (fa_frames ob1 ! i)) (take n (fr_buffer (fa_frames ob1 ! i)))]"
      using Some ob1 assms(2) by (auto simp: fpa_exec_def)
    then show ?thesis using fpa_trans [OF run fpa_out [OF Some [unfolded w]]] by simp
  qed
qed

lemma fpa_execs_run:
  "fpa_run h ob0 es0 ob \<Longrightarrow> fpa_execs h ps ob = Some (ob', es) \<Longrightarrow> fpa_run h ob0 (es0 @ es) ob'"
proof (induction ps arbitrary: ob es0 es)
  case (Cons p ps)
  then obtain ob1 es1 es2 where e: "fpa_exec h p ob = Some (ob1, es1)" "fpa_execs h ps ob1 = Some (ob', es2)" "es = es1 @ es2"
    by (auto split: option.splits)
  have "fpa_run h ob0 ((es0 @ es1) @ es2) ob'" by (rule Cons.IH [OF fpa_exec_run [OF Cons.prems(1) e(1)] e(2)])
  then show ?case using e(3) by simp
qed simp

lemma fpd_execs_result:
  assumes "map_option (\<lambda>(d, ps). (flushed d, ps)) (fpd_execs h des ob) = Some (fl, ps)"
  shows "\<exists>d. fpd_run h ob des ps d \<and> flushed d = fl"
proof -
  obtain d where "fpd_execs h des ob = Some (d, ps)" "flushed d = fl" using assms by auto
  then show ?thesis using fpd_execs_run [OF fpd_refl] by (intro exI [of _ d]) auto
qed

lemma fpa_execs_result:
  assumes "map_option (\<lambda>(a, es). (fa_out a, es)) (fpa_execs h ps ob) = Some (w, es)"
  shows "\<exists>a. fpa_run h ob es a \<and> fa_out a = w"
proof -
  obtain a where "fpa_execs h ps ob = Some (a, es)" "fa_out a = w" using assms by auto
  then show ?thesis using fpa_execs_run [OF fpa_refl] by (intro exI [of _ a]) auto
qed

definition fpd_test_packets :: "bytes list" where
  "fpd_test_packets = [[0, 0, 0, 0, 2, 0, 0, 1, 2], [0, 0, 2, 0, 2, 0, 1, 3, 4]]"

definition fpd_test_events :: "fpd_event list" where
  "fpd_test_events = [DIn [1, 2, 3, 4], DRecv (replicate 9 0), DRecv (replicate 9 0)]"

lemma fpd_test_result:
  "map_option (\<lambda>(d, ps). (flushed d, ps)) (fpd_execs BADVPN_BIG_ENDIAN fpd_test_events fpd_test) = Some (True, fpd_test_packets)"
  by code_simp

lemma fpa_test_result:
  "map_option (\<lambda>(a, es). (fa_out a, es)) (fpa_execs BADVPN_LITTLE_ENDIAN fpd_test_packets fpa_test) =
    Some (None, [FIn [0, 0, 0, 0, 2, 0, 0, 1, 2], FIn [0, 0, 2, 0, 2, 0, 1, 3, 4], FOut 0 [1, 2, 3, 4]])"
  by code_simp

text \<open>
  C1: fragmentation is lossless over a carrier that is. Send frames through a disassembler, with
  any interleaving of frames, packet requests and timeouts, on a host of either byte order, and
  feed the packets to an assembler on a host of either byte order. Then the frames that come out
  are those that went in, in order and unchanged; once the sender's buffer is flushed and the
  receiver is done, all of them have come out. Packets are of \<open>carrier_mtu\<close> bytes and the
  receiver has as many chunk entries per frame as the program provides for
  (\<open>fragmentproto_max_chunks_for_frame\<close>), or more than a frame has bytes when chunks are limited.
\<close>

theorem fragmentproto_roundtrip:
  assumes "fragmentproto_header_size < carrier_mtu" "mtu < 65536"
    and "enough_chunks (FragmentProtoDisassembler_Init carrier_mtu chunk_mtu latency) mtu num_chunks"
    and "fpd_run h (FragmentProtoDisassembler_Init carrier_mtu chunk_mtu latency) des ps d" "DCancel \<notin> set des"
    and "\<And>f. f \<in> set (dins des) \<Longrightarrow> length f \<le> mtu"
    and "FragmentProtoAssembler_Init e c b mem output_mtu num_frames num_chunks = Some a0" "length mem = num_frames"
    and "\<forall>fr\<in>set mem. length (fr_buffer fr) = output_mtu" "0 < num_frames" "num_frames < unat FPA_MAX_TIME" "mtu \<le> output_mtu"
    and "fpa_run h' a0 aes a" "fins aes = ps"
  shows "\<exists>rest. dins des = fouts aes @ rest \<and> (flushed d \<and> fa_out a = None \<longrightarrow> rest = [])"
proof -
  have "fpd_inv mtu num_chunks (dins des) ps d" using fpd_inv_run [OF assms(4) fpd_inv_Init [OF assms(1-3)] assms(5,6)] .
  then obtain css cur where css: "ps = map enc_chunks css" "[] \<notin> set css" "fpd_stream mtu num_chunks (dins des) (concat css @ cur) d"
    "flushed d \<longrightarrow> cur = []" by (rule fpd_inv_flushed)
  have a0: "fa_output_mtu a0 = output_mtu" "fa_num_chunks a0 = num_chunks" "fa_in a0 = None" "fa_out a0 = None" "fa_used a0 = []"
    using assms(7) by (auto simp: FragmentProtoAssembler_Init_def split: if_splits)
  have "0 < num_chunks" using assms(3) by (auto simp: enough_chunks_def fragmentproto_max_chunks_for_frame_def)
  then have "fpa_inv (\<lambda>_. None) a0" using fpa_good_Init [OF assms(7-11), of "\<lambda>_. None" h] by (simp add: fpa_good_def)
  then have "fpa_progress h' a0 0 [] 0 [] []" using a0 by (simp add: fpa_progress_def fpa_at_def)
  moreover have "in_order output_mtu num_chunks 0 [] 0 (concat css)" "list_all small_chunk (concat css)"
    using css(3) in_order_mono [OF assms(12)] in_order_prefix by (auto simp: fpd_stream_def)
  ultimately have "fpa_progress h' a 0 [] 0 (concat css) (fouts aes)"
    using fpa_run_in_order [OF assms(13)] assms(14) css(1,2) a0 by simp
  then obtain r1 where r1: "frames_in [] (concat css) = fouts aes @ r1" "fa_out a = None \<longrightarrow> r1 = []" using fpa_progress_frames by blast
  obtain r2 where r2: "dins des = frames_in [] (concat css) @ r2" "cur = [] \<and> fd_in d = None \<longrightarrow> r2 = []"
    using fpd_stream_frames [OF css(3)] by blast
  show ?thesis using r1 r2 css(4) by (intro exI [of _ "r1 @ r2"]) (auto simp: flushed_def)
qed

theorem fragmentproto_roundtrip_witness:
  "\<exists>d a. fpd_run BADVPN_BIG_ENDIAN fpd_test fpd_test_events fpd_test_packets d \<and>
     fpa_run BADVPN_LITTLE_ENDIAN fpa_test [FIn [0, 0, 0, 0, 2, 0, 0, 1, 2], FIn [0, 0, 2, 0, 2, 0, 1, 3, 4], FOut 0 [1, 2, 3, 4]] a \<and>
     dins fpd_test_events = [[1, 2, 3, 4]]"
proof -
  let ?es = "[FIn [0, 0, 0, 0, 2, 0, 0, 1, 2], FIn [0, 0, 2, 0, 2, 0, 1, 3, 4], FOut 0 [1, 2, 3, 4]]"
  obtain d where d: "fpd_run BADVPN_BIG_ENDIAN fpd_test fpd_test_events fpd_test_packets d" "flushed d"
    using fpd_execs_result [OF fpd_test_result] by auto
  obtain a where a: "fpa_run BADVPN_LITTLE_ENDIAN fpa_test ?es a" "fa_out a = None"
    using fpa_execs_result [OF fpa_test_result] by auto
  have "enough_chunks (FragmentProtoDisassembler_Init 9 (-1) (-1)) 4 3"
    by (simp add: enough_chunks_def FragmentProtoDisassembler_Init_def fragmentproto_max_chunks_for_frame_def bdivide_up_def fragmentproto_header_size_def)
  moreover have "length f \<le> 4" if "f \<in> set (dins fpd_test_events)" for f using that by (auto simp: dins_def fpd_test_events_def)
  moreover have "DCancel \<notin> set fpd_test_events" "fins ?es = fpd_test_packets" by (simp_all add: fpd_test_events_def fins_def fpd_test_packets_def)
  ultimately have "\<exists>rest. dins fpd_test_events = fouts ?es @ rest \<and> (flushed d \<and> fa_out a = None \<longrightarrow> rest = [])"
    using d(1) a(1) by (intro fragmentproto_roundtrip [where mtu = 4, OF _ _ _ d(1) [unfolded fpd_test_def] _ _ fpa_test_init fpa_test_mem_ok(1,2) _
      fpa_test_mem_ok(3) _ a(1)]) (simp_all add: fragmentproto_header_size_def)
  then have "dins fpd_test_events = [[1, 2, 3, 4]]" using d(2) a(2) by (simp add: fouts_def)
  then show ?thesis using d(1) a(1) by blast
qed

text \<open>
  C26: with no explicit limit on the size of chunks, no frame of at most \<open>mtu\<close> bytes is cut into
  more chunks than \<open>fragmentproto_max_chunks_for_frame\<close> announces, wherever in a packet the frame
  begins.
\<close>

theorem fragmentproto_chunk_bound:
  assumes "fragmentproto_header_size < carrier_mtu" "mtu < 65536" "chunk_mtu < 0"
    and "fpd_run h (FragmentProtoDisassembler_Init carrier_mtu chunk_mtu latency) des ps d" "DCancel \<notin> set des"
    and "\<And>f. f \<in> set (dins des) \<Longrightarrow> length f \<le> mtu"
  shows "list_all (\<lambda>n. n \<le> fragmentproto_max_chunks_for_frame carrier_mtu mtu) (chunk_counts 0 (concat (map (parse_chunks h) ps)))"
proof -
  let ?M = "fragmentproto_max_chunks_for_frame carrier_mtu mtu"
  have "enough_chunks (FragmentProtoDisassembler_Init carrier_mtu chunk_mtu latency) mtu ?M"
    using assms(3) by (simp add: enough_chunks_def FragmentProtoDisassembler_Init_def)
  then have "fpd_inv mtu ?M (dins des) ps d" using fpd_inv_run [OF assms(4) fpd_inv_Init [OF assms(1,2)] assms(5,6)] by blast
  then obtain css cur where css: "ps = map enc_chunks css" "fpd_stream mtu ?M (dins des) (concat css @ cur) d" by (rule fpd_inv_flushed)
  have ord: "in_order mtu ?M 0 [] 0 (concat css)" and small: "list_all small_chunk (concat css)"
    using css(2) in_order_prefix by (auto simp: fpd_stream_def)
  have "parse_chunks h (enc_chunks cs) = cs" if "cs \<in> set css" for cs using small that by (intro parse_enc_chunks) (auto simp: list_all_iff)
  then have "concat (map (parse_chunks h) ps) = concat css" unfolding css(1) by (simp add: map_idI comp_def)
  then show ?thesis using in_order_chunk_counts [OF ord] by simp
qed

theorem fragmentproto_chunk_bound_witness:
  "list_all (\<lambda>n. n \<le> 3) (chunk_counts 0 (concat (map (parse_chunks BADVPN_BIG_ENDIAN) fpd_test_packets)))"
proof -
  obtain d where d: "fpd_run BADVPN_BIG_ENDIAN fpd_test fpd_test_events fpd_test_packets d"
    using fpd_execs_result [OF fpd_test_result] by auto
  have "length f \<le> 4" if "f \<in> set (dins fpd_test_events)" for f using that by (auto simp: dins_def fpd_test_events_def)
  then show ?thesis
    using fragmentproto_chunk_bound [of 9 4 "-1", OF _ _ _ d [unfolded fpd_test_def]]
    by (simp add: fragmentproto_header_size_def fpd_test_events_def fragmentproto_max_chunks_for_frame_def bdivide_up_def)
qed


end
