(* ===== verification/OrderedTree.thy ===== *)
theory OrderedTree
  imports BSort
begin

text \<open>
  What the clients of the AVL trees (\<open>src/structure/SAvl_impl.h\<close>, \<open>CAvl_impl.h\<close>, \<open>BAVL.h\<close>) see of
  them: the sequence of entries from the first to the last. An entry is inserted in front of the
  first entry that compares greater and is refused when one compares equal.
\<close>

fun tree_insert :: "('a \<Rightarrow> 'a \<Rightarrow> int) \<Rightarrow> 'a \<Rightarrow> 'a list \<Rightarrow> 'a list option" where
  "tree_insert cmp x [] = Some [x]"
| "tree_insert cmp x (y # ys) =
     (if cmp x y = 0 then None else if cmp x y < 0 then Some (x # y # ys) else map_option ((#) y) (tree_insert cmp x ys))"

definition tree_first :: "'a list \<Rightarrow> 'a option" where
  "tree_first xs = (case xs of [] \<Rightarrow> None | x # _ \<Rightarrow> Some x)"

definition tree_remove :: "'a \<Rightarrow> 'a list \<Rightarrow> 'a list" where
  "tree_remove x xs = remove1 x xs"

definition tree_sorted :: "('a \<Rightarrow> 'a \<Rightarrow> int) \<Rightarrow> 'a list \<Rightarrow> bool" where
  "tree_sorted cmp xs \<longleftrightarrow> sorted_wrt (\<lambda>x y. cmp x y < 0) xs"

lemma tree_insert_set: "tree_insert cmp x xs = Some ys \<Longrightarrow> set ys = insert x (set xs)"
  by (induction xs arbitrary: ys) (auto split: if_splits)

lemma tree_insert_mset_length: "tree_insert cmp x xs = Some ys \<Longrightarrow> length ys = Suc (length xs)"
  by (induction xs arbitrary: ys) (auto split: if_splits)

lemma tree_insert_Some: "\<forall>y\<in>set xs. cmp x y \<noteq> 0 \<Longrightarrow> \<exists>ys. tree_insert cmp x xs = Some ys"
  by (induction xs) auto

text \<open>What the trees ask of the comparison of their entries.\<close>

locale tree_order = comparator cmp for cmp :: "'a \<Rightarrow> 'a \<Rightarrow> int" +
  assumes cmp_sym: "0 < cmp x y \<longleftrightarrow> cmp y x < 0"
begin

lemma cmp_less_trans: "cmp x y < 0 \<Longrightarrow> cmp y z < 0 \<Longrightarrow> cmp x z < 0"
  using cmp_trans [of x y z] cmp_trans [of y z x] cmp_sym [of y x] cmp_sym [of z x] cmp_sym [of z y] by fastforce

lemma cmp_self: "cmp x x = 0"
  using cmp_sym [of x x] by linarith

lemma tree_insert_sorted:
  "tree_sorted cmp xs \<Longrightarrow> tree_insert cmp x xs = Some ys \<Longrightarrow> tree_sorted cmp ys"
proof (induction xs arbitrary: ys)
  case (Cons y xs)
  show ?case
  proof (cases "cmp x y < 0")
    case True
    then show ?thesis using Cons.prems cmp_less_trans by (auto simp: tree_sorted_def)
  next
    case False
    then obtain zs where zs: "tree_insert cmp x xs = Some zs" "ys = y # zs" "cmp y x < 0"
      using Cons.prems(2) cmp_sym [of x y] by (auto split: if_splits)
    then show ?thesis using Cons.IH [OF _ zs(1)] Cons.prems(1) tree_insert_set [OF zs(1)] by (auto simp: tree_sorted_def)
  qed
qed (auto simp: tree_sorted_def)

lemma tree_sorted_distinct: "tree_sorted cmp xs \<Longrightarrow> distinct xs"
  unfolding tree_sorted_def by (induction xs) (auto simp: cmp_self)

end

lemma tree_remove_sorted: "tree_sorted cmp xs \<Longrightarrow> tree_sorted cmp (tree_remove x xs)"
  unfolding tree_sorted_def tree_remove_def
  by (induction xs) (auto dest: set_remove1_subset [THEN subsetD])

lemma tree_first_least: "tree_sorted cmp xs \<Longrightarrow> tree_first xs = Some x \<Longrightarrow> y \<in> set xs \<Longrightarrow> y = x \<or> cmp x y < 0"
  by (cases xs) (auto simp: tree_first_def tree_sorted_def)

lemma tree_sorted_cong:
  "(\<And>x y. x \<in> set xs \<Longrightarrow> y \<in> set xs \<Longrightarrow> cmp x y < 0 \<longleftrightarrow> cmp' x y < 0) \<Longrightarrow> tree_sorted cmp xs = tree_sorted cmp' xs"
  unfolding tree_sorted_def by (induction xs) auto

end
