(* ===== verification/FairQueue.thy ===== *)
theory FairQueue
  imports OrderedTree
begin

text \<open>
  The fair queue of \<open>src/flow/PacketPassFairQueue.c\<close>: packets of several flows share one output. Every
  flow has a 64-bit virtual time, which grows by the size of what it sent; the queued flow with the
  least time is served next. When a time would overflow, all times are moved down.
\<close>

text \<open>
  A flow is named by its address. \<open>fl_handler_busy\<close> says that a handler is set; \<open>fl_data\<close> is the queued
  packet.
\<close>

record PacketPassFairQueueFlow =
  fl_time :: u64
  fl_handler_busy :: bool
  fl_is_queued :: bool
  fl_data :: bytes

record PacketPassFairQueue =
  fq_mtu :: nat
  fq_use_cancel :: bool
  fq_packet_weight :: nat
  fq_sending_flow :: "nat option"
  fq_sending_len :: nat
  fq_previous_flow :: "nat option"
  fq_queued_tree :: "nat list"
  fq_flows_list :: "nat list"
  fq_freeing :: bool
  fq_schedule_job :: bool
  fq_flow :: "nat \<Rightarrow> PacketPassFairQueueFlow"

definition FAIRQUEUE_MAX_TIME :: u64 where "FAIRQUEUE_MAX_TIME = - 1"

definition compare_flows :: "(nat \<Rightarrow> PacketPassFairQueueFlow) \<Rightarrow> nat \<Rightarrow> nat \<Rightarrow> int" where
  "compare_flows fl f1 f2 = (let cmp = B_COMPARE (fl_time (fl f1)) (fl_time (fl f2)) in if cmp \<noteq> 0 then cmp else B_COMPARE f1 f2)"

definition get_current_time :: "PacketPassFairQueue \<Rightarrow> u64" where
  "get_current_time m =
     (case fq_sending_flow m of Some s \<Rightarrow> fl_time (fq_flow m s)
      | None \<Rightarrow>
          let have_time = map_option (\<lambda>f. fl_time (fq_flow m f)) (tree_first (fq_queued_tree m));
              have_time = (case fq_previous_flow m of None \<Rightarrow> have_time
                 | Some p \<Rightarrow> (case have_time of None \<Rightarrow> Some (fl_time (fq_flow m p))
                     | Some time \<Rightarrow> if fl_time (fq_flow m p) < time then Some (fl_time (fq_flow m p)) else have_time))
          in case have_time of None \<Rightarrow> 0 | Some time \<Rightarrow> time)"

text \<open>The loop over all flows; \<open>flow\<close> is the flow that just finished. \<open>None\<close> is a failed assertion.\<close>

fun subtract_times ::
  "u64 \<Rightarrow> nat \<Rightarrow> nat list \<Rightarrow> (nat \<Rightarrow> PacketPassFairQueueFlow) \<Rightarrow> (nat \<Rightarrow> PacketPassFairQueueFlow) option" where
  "subtract_times subtract flow [] fl = Some fl"
| "subtract_times subtract flow (someflow # rest) fl =
     (if subtract > fl_time (fl someflow) \<and> someflow \<noteq> flow then
        if fl_is_queued (fl someflow) then None
        else subtract_times subtract flow rest (fl(someflow := (fl someflow)\<lparr>fl_time := 0\<rparr>))
      else subtract_times subtract flow rest (fl(someflow := (fl someflow)\<lparr>fl_time := fl_time (fl someflow) - subtract\<rparr>)))"

definition increment_sent_flow :: "PacketPassFairQueue \<Rightarrow> nat \<Rightarrow> u64 \<Rightarrow> PacketPassFairQueue option" where
  "increment_sent_flow m flow amount =
     (if \<not> amount \<le> FAIRQUEUE_MAX_TIME \<or> fl_is_queued (fq_flow m flow) \<or> fq_sending_flow m \<noteq> None then None
      else case (if amount > FAIRQUEUE_MAX_TIME - fl_time (fq_flow m flow) then
                   let subtract = (case tree_first (fq_queued_tree m) of None \<Rightarrow> fl_time (fq_flow m flow)
                        | Some first_flow \<Rightarrow> fl_time (fq_flow m first_flow))
                   in subtract_times subtract flow (fq_flows_list m) (fq_flow m)
                 else Some (fq_flow m)) of None \<Rightarrow> None
      | Some fl \<Rightarrow> Some (m\<lparr>fq_flow := fl(flow := (fl flow)\<lparr>fl_time := fl_time (fl flow) + amount\<rparr>)\<rparr>))"

text \<open>The functions that send return the packet that goes to the output.\<close>

definition fq_schedule :: "PacketPassFairQueue \<Rightarrow> (PacketPassFairQueue \<times> bytes) option" where
  "fq_schedule m =
     (if fq_sending_flow m \<noteq> None \<or> fq_previous_flow m \<noteq> None \<or> fq_freeing m then None
      else case tree_first (fq_queued_tree m) of None \<Rightarrow> None
      | Some qflow \<Rightarrow>
          if \<not> fl_is_queued (fq_flow m qflow) then None
          else let data = fl_data (fq_flow m qflow);
                   m = m\<lparr>fq_queued_tree := tree_remove qflow (fq_queued_tree m),
                         fq_flow := (fq_flow m)(qflow := (fq_flow m qflow)\<lparr>fl_is_queued := False\<rparr>)\<rparr>
            in Some (m\<lparr>fq_sending_flow := Some qflow, fq_sending_len := length data\<rparr>, data))"

definition fq_schedule_job_handler :: "PacketPassFairQueue \<Rightarrow> (PacketPassFairQueue \<times> bytes option) option" where
  "fq_schedule_job_handler m =
     (if fq_sending_flow m \<noteq> None \<or> fq_freeing m then None
      else let m = m\<lparr>fq_schedule_job := False, fq_previous_flow := None\<rparr>
        in if fq_queued_tree m \<noteq> [] then map_option (apsnd Some) (fq_schedule m) else Some (m, None))"

definition fq_input_handler_send :: "PacketPassFairQueue \<Rightarrow> nat \<Rightarrow> bytes \<Rightarrow> (PacketPassFairQueue \<times> bytes option) option" where
  "fq_input_handler_send m flow data =
     (if fq_sending_flow m = Some flow \<or> fl_is_queued (fq_flow m flow) \<or> fq_freeing m then None
      else let m = (if fq_previous_flow m = Some flow then m\<lparr>fq_previous_flow := None\<rparr>
                    else m\<lparr>fq_flow := (fq_flow m)(flow := (fq_flow m flow)\<lparr>fl_time :=
                           max (fl_time (fq_flow m flow)) (get_current_time m)\<rparr>)\<rparr>);
               m = m\<lparr>fq_flow := (fq_flow m)(flow := (fq_flow m flow)\<lparr>fl_data := data\<rparr>)\<rparr>
        in case tree_insert (compare_flows (fq_flow m)) flow (fq_queued_tree m) of None \<Rightarrow> None
           | Some tree \<Rightarrow>
               let m = m\<lparr>fq_queued_tree := tree, fq_flow := (fq_flow m)(flow := (fq_flow m flow)\<lparr>fl_is_queued := True\<rparr>)\<rparr>
               in if fq_sending_flow m = None \<and> \<not> fq_schedule_job m then map_option (apsnd Some) (fq_schedule m)
                  else Some (m, None))"

text \<open>The result also says whether the busy handler of the flow is called.\<close>

definition fq_output_handler_done :: "PacketPassFairQueue \<Rightarrow> (PacketPassFairQueue \<times> bool) option" where
  "fq_output_handler_done m =
     (case fq_sending_flow m of None \<Rightarrow> None
      | Some flow \<Rightarrow>
          if fq_previous_flow m \<noteq> None \<or> fq_schedule_job m \<or> fq_freeing m \<or> fl_is_queued (fq_flow m flow) then None
          else case increment_sent_flow (m\<lparr>fq_sending_flow := None, fq_previous_flow := Some flow\<rparr>) flow
                      (of_nat (fq_packet_weight m) + of_nat (fq_sending_len m)) of None \<Rightarrow> None
          | Some m \<Rightarrow>
              let m = m\<lparr>fq_schedule_job := True\<rparr> in
              Some (m\<lparr>fq_flow := (fq_flow m)(flow := (fq_flow m flow)\<lparr>fl_handler_busy := False\<rparr>)\<rparr>,
                    fl_handler_busy (fq_flow m flow)))"

text \<open>\<open>fl0\<close> is the memory of the flows.\<close>

definition PacketPassFairQueue_Init :: "nat \<Rightarrow> bool \<Rightarrow> nat \<Rightarrow> (nat \<Rightarrow> PacketPassFairQueueFlow) \<Rightarrow> PacketPassFairQueue option" where
  "PacketPassFairQueue_Init mtu use_cancel packet_weight fl0 =
     (if \<not> (int mtu \<le> uint FAIRQUEUE_MAX_TIME \<and> int packet_weight \<le> uint FAIRQUEUE_MAX_TIME - int mtu) then None
      else Some \<lparr>fq_mtu = mtu, fq_use_cancel = use_cancel, fq_packet_weight = packet_weight, fq_sending_flow = None,
        fq_sending_len = 0, fq_previous_flow = None, fq_queued_tree = [], fq_flows_list = [], fq_freeing = False,
        fq_schedule_job = False, fq_flow = fl0\<rparr>)"

definition PacketPassFairQueue_PrepareFree :: "PacketPassFairQueue \<Rightarrow> PacketPassFairQueue" where
  "PacketPassFairQueue_PrepareFree m = m\<lparr>fq_freeing := True\<rparr>"

definition PacketPassFairQueueFlow_Init :: "PacketPassFairQueue \<Rightarrow> nat \<Rightarrow> PacketPassFairQueue option" where
  "PacketPassFairQueueFlow_Init m flow =
     (if fq_freeing m then None
      else Some (m\<lparr>fq_flow := (fq_flow m)(flow := (fq_flow m flow)\<lparr>fl_handler_busy := False, fl_time := 0, fl_is_queued := False\<rparr>),
             fq_flows_list := fq_flows_list m @ [flow]\<rparr>))"

definition PacketPassFairQueueFlow_Free :: "PacketPassFairQueue \<Rightarrow> nat \<Rightarrow> PacketPassFairQueue option" where
  "PacketPassFairQueueFlow_Free m flow =
     (if \<not> (fq_freeing m \<or> fq_sending_flow m \<noteq> Some flow) then None
      else let m = (if fq_sending_flow m = Some flow then m\<lparr>fq_sending_flow := None\<rparr> else m);
               m = (if fq_previous_flow m = Some flow then m\<lparr>fq_previous_flow := None\<rparr> else m);
               m = (if fl_is_queued (fq_flow m flow) then m\<lparr>fq_queued_tree := tree_remove flow (fq_queued_tree m)\<rparr> else m)
        in Some (m\<lparr>fq_flows_list := remove1 flow (fq_flows_list m)\<rparr>))"

definition PacketPassFairQueueFlow_IsBusy :: "PacketPassFairQueue \<Rightarrow> nat \<Rightarrow> bool option" where
  "PacketPassFairQueueFlow_IsBusy m flow = (if fq_freeing m then None else Some (fq_sending_flow m = Some flow))"

text \<open>A cancel request has no effect on the queue: it is passed on to the output.\<close>

definition PacketPassFairQueueFlow_RequestCancel :: "PacketPassFairQueue \<Rightarrow> nat \<Rightarrow> unit option" where
  "PacketPassFairQueueFlow_RequestCancel m flow =
     (if fq_sending_flow m \<noteq> Some flow \<or> \<not> fq_use_cancel m \<or> fq_freeing m \<or> fq_schedule_job m then None else Some ())"

definition PacketPassFairQueueFlow_SetBusyHandler :: "PacketPassFairQueue \<Rightarrow> nat \<Rightarrow> bool \<Rightarrow> PacketPassFairQueue option" where
  "PacketPassFairQueueFlow_SetBusyHandler m flow handler =
     (if fq_sending_flow m \<noteq> Some flow \<or> fq_freeing m then None
      else Some (m\<lparr>fq_flow := (fq_flow m)(flow := (fq_flow m flow)\<lparr>fl_handler_busy := handler\<rparr>)\<rparr>))"

subsection \<open>Runs\<close>

text \<open>What may happen: the contract of the flows' users and of the output.\<close>

datatype fq_event =
    Send nat bytes | OutputDone | ScheduleJob
  | FlowInit nat | FlowFree nat | SetBusy nat bool | PrepareFree

fun fq_enabled :: "PacketPassFairQueue \<Rightarrow> fq_event \<Rightarrow> bool" where
  "fq_enabled m (Send f data) \<longleftrightarrow> f \<in> set (fq_flows_list m) \<and> \<not> fl_is_queued (fq_flow m f) \<and> fq_sending_flow m \<noteq> Some f \<and>
     length data \<le> fq_mtu m \<and> \<not> fq_freeing m"
| "fq_enabled m OutputDone \<longleftrightarrow> fq_sending_flow m \<noteq> None \<and> \<not> fq_freeing m"
| "fq_enabled m ScheduleJob \<longleftrightarrow> fq_schedule_job m \<and> \<not> fq_freeing m"
| "fq_enabled m (FlowInit f) \<longleftrightarrow> f \<notin> set (fq_flows_list m) \<and> \<not> fq_freeing m"
| "fq_enabled m (FlowFree f) \<longleftrightarrow> f \<in> set (fq_flows_list m) \<and> (fq_freeing m \<or> fq_sending_flow m \<noteq> Some f)"
| "fq_enabled m (SetBusy f b) \<longleftrightarrow> fq_sending_flow m = Some f \<and> \<not> fq_freeing m"
| "fq_enabled m PrepareFree \<longleftrightarrow> True"

fun fq_handle :: "PacketPassFairQueue \<Rightarrow> fq_event \<Rightarrow> PacketPassFairQueue option" where
  "fq_handle m (Send f data) = map_option fst (fq_input_handler_send m f data)"
| "fq_handle m OutputDone = map_option fst (fq_output_handler_done m)"
| "fq_handle m ScheduleJob = map_option fst (fq_schedule_job_handler m)"
| "fq_handle m (FlowInit f) = PacketPassFairQueueFlow_Init m f"
| "fq_handle m (FlowFree f) = PacketPassFairQueueFlow_Free m f"
| "fq_handle m (SetBusy f b) = PacketPassFairQueueFlow_SetBusyHandler m f b"
| "fq_handle m PrepareFree = Some (PacketPassFairQueue_PrepareFree m)"

inductive fq_reachable :: "PacketPassFairQueue \<Rightarrow> bool" where
  fq_init: "PacketPassFairQueue_Init mtu use_cancel packet_weight fl0 = Some m \<Longrightarrow> 0 < packet_weight \<Longrightarrow> fq_reachable m"
| fq_next: "fq_reachable m \<Longrightarrow> fq_enabled m ev \<Longrightarrow> fq_handle m ev = Some m' \<Longrightarrow> fq_reachable m'"

subsection \<open>Invariant\<close>

lemma compare_flows_neg: "compare_flows fl f g < 0 \<longleftrightarrow> fl_time (fl f) < fl_time (fl g) \<or> fl_time (fl f) = fl_time (fl g) \<and> f < g"
  by (auto simp: compare_flows_def B_COMPARE_def Let_def)

lemma compare_flows_pos: "compare_flows fl f g > 0 \<longleftrightarrow> compare_flows fl g f < 0"
  by (auto simp: compare_flows_def B_COMPARE_def Let_def)

lemma compare_flows_zero: "compare_flows fl f g = 0 \<longleftrightarrow> f = g"
  by (auto simp: compare_flows_def B_COMPARE_def Let_def)

interpretation flows: tree_order "compare_flows fl" for fl
proof
  fix x y z
  show "compare_flows fl x y \<le> 0 \<or> compare_flows fl y x \<le> 0" using compare_flows_pos [of fl x y] by linarith
  show "0 < compare_flows fl x y \<longleftrightarrow> compare_flows fl y x < 0" by (rule compare_flows_pos)
  assume "compare_flows fl x y \<le> 0" "compare_flows fl y z \<le> 0"
  then show "compare_flows fl x z \<le> 0"
    unfolding not_less [symmetric] compare_flows_pos compare_flows_neg by fastforce
qed

text \<open>The virtual time of a flow as a number.\<close>

definition vt :: "PacketPassFairQueue \<Rightarrow> nat \<Rightarrow> int" where
  "vt m f = uint (fl_time (fq_flow m f))"

lemma vt_bounds: "0 \<le> vt m f" "vt m f \<le> 2 ^ 64 - 1"
  using uint_lt2p [of "fl_time (fq_flow m f)"] by (simp_all add: vt_def)

lemma vt_le_iff: "fl_time (fq_flow m f) \<le> fl_time (fq_flow m g) \<longleftrightarrow> vt m f \<le> vt m g"
  by (simp add: vt_def word_le_def)

definition queued_set :: "PacketPassFairQueue \<Rightarrow> nat set" where
  "queued_set m = {f \<in> set (fq_flows_list m). fl_is_queued (fq_flow m f)}"

definition fq_flows_ok :: "PacketPassFairQueue \<Rightarrow> bool" where
  "fq_flows_ok m \<longleftrightarrow> distinct (fq_flows_list m) \<and> set (fq_queued_tree m) = queued_set m \<and>
     tree_sorted (compare_flows (fq_flow m)) (fq_queued_tree m) \<and> (\<forall>f\<in>queued_set m. length (fl_data (fq_flow m f)) \<le> fq_mtu m) \<and>
     0 < fq_packet_weight m \<and> fq_packet_weight m + fq_mtu m < 2 ^ 64"

definition fq_sending_ok :: "PacketPassFairQueue \<Rightarrow> bool" where
  "fq_sending_ok m \<longleftrightarrow> (\<forall>s. fq_sending_flow m = Some s \<longrightarrow> s \<in> set (fq_flows_list m) \<and> \<not> fl_is_queued (fq_flow m s) \<and>
     fq_previous_flow m = None \<and> \<not> fq_schedule_job m \<and> fq_sending_len m \<le> fq_mtu m \<and> (\<forall>g\<in>queued_set m. vt m s \<le> vt m g))"

definition fq_waiting_ok :: "PacketPassFairQueue \<Rightarrow> bool" where
  "fq_waiting_ok m \<longleftrightarrow>
     (\<forall>p. fq_previous_flow m = Some p \<longrightarrow> p \<in> set (fq_flows_list m) \<and> \<not> fl_is_queued (fq_flow m p) \<and> fq_schedule_job m) \<and>
     (fq_queued_tree m \<noteq> [] \<and> \<not> fq_freeing m \<longrightarrow> fq_sending_flow m \<noteq> None \<or> fq_schedule_job m)"

definition fq_inv :: "PacketPassFairQueue \<Rightarrow> bool" where
  "fq_inv m \<longleftrightarrow> fq_flows_ok m \<and> fq_sending_ok m \<and> fq_waiting_ok m"

lemma tree_first_queued: "fq_flows_ok m \<Longrightarrow> tree_first (fq_queued_tree m) = Some f \<Longrightarrow> f \<in> queued_set m"
  unfolding fq_flows_ok_def tree_first_def by (cases "fq_queued_tree m") auto

lemma tree_first_min:
  assumes "fq_flows_ok m" "tree_first (fq_queued_tree m) = Some f" "g \<in> queued_set m" shows "vt m f \<le> vt m g"
proof -
  have "g = f \<or> compare_flows (fq_flow m) f g < 0"
    using assms tree_first_least [of "compare_flows (fq_flow m)" "fq_queued_tree m" f g] by (auto simp: fq_flows_ok_def)
  then show ?thesis by (auto simp: compare_flows_neg vt_def word_less_def)
qed

lemma tree_first_None: "tree_first xs = None \<longleftrightarrow> xs = []"
  by (simp add: tree_first_def split: list.split)

subsection \<open>Moving the times down\<close>

definition moved_down :: "u64 \<Rightarrow> nat \<Rightarrow> nat \<Rightarrow> PacketPassFairQueueFlow \<Rightarrow> PacketPassFairQueueFlow" where
  "moved_down subtract f g x = x\<lparr>fl_time := (if subtract > fl_time x \<and> g \<noteq> f then 0 else fl_time x - subtract)\<rparr>"

lemma subtract_times_spec:
  "distinct fs \<Longrightarrow> \<forall>g\<in>set fs. subtract > fl_time (fl g) \<and> g \<noteq> f \<longrightarrow> \<not> fl_is_queued (fl g) \<Longrightarrow>
   subtract_times subtract f fs fl = Some (\<lambda>g. if g \<in> set fs then moved_down subtract f g (fl g) else fl g)"
proof (induction fs arbitrary: fl)
  case (Cons x fs)
  let ?fl = "fl(x := moved_down subtract f x (fl x))"
  have x: "x \<notin> set fs" and d: "distinct fs" using Cons.prems(1) by simp_all
  have step: "subtract_times subtract f (x # fs) fl = subtract_times subtract f fs ?fl"
    using Cons.prems(2) by (simp add: moved_down_def)
  have "\<forall>g\<in>set fs. subtract > fl_time (?fl g) \<and> g \<noteq> f \<longrightarrow> \<not> fl_is_queued (?fl g)" using Cons.prems(2) x by auto
  then have "subtract_times subtract f fs ?fl = Some (\<lambda>g. if g \<in> set fs then moved_down subtract f g (?fl g) else ?fl g)"
    by (rule Cons.IH [OF d])
  also have "(\<lambda>g. if g \<in> set fs then moved_down subtract f g (?fl g) else ?fl g) =
      (\<lambda>g. if g \<in> set (x # fs) then moved_down subtract f g (fl g) else fl g)"
    using x by (intro ext) simp
  finally show ?case unfolding step .
qed simp

lemma uint_MAX_TIME: "uint FAIRQUEUE_MAX_TIME = 2 ^ 64 - 1"
  by (simp add: FAIRQUEUE_MAX_TIME_def unsigned_minus_1_eq_mask mask_eq_exp_minus_1)

lemma le_MAX_TIME: "t \<le> FAIRQUEUE_MAX_TIME"
  by (simp add: FAIRQUEUE_MAX_TIME_def)

lemma uint_sub_small: "(s :: u64) \<le> t \<Longrightarrow> uint (t - s) = uint t - uint s"
  by (simp add: uint_minus_simple_alt)

text \<open>Going below zero and back: the time that just grew is right again after adding.\<close>

lemma wrap_around:
  fixes t s a :: u64
  assumes "uint s \<le> uint t + uint a" "uint t + uint a - uint s < 2 ^ 64"
  shows "uint (t - s + a) = uint t + uint a - uint s"
proof -
  have "t - s + a = word_of_int (uint t - uint s + uint a)" by simp
  then have "uint (t - s + a) = (uint t - uint s + uint a) mod 2 ^ 64" by (simp only: uint_word_of_int) simp
  also have "\<dots> = uint t - uint s + uint a" using assms by (intro mod_pos_pos_trivial) simp_all
  finally show ?thesis by simp
qed

text \<open>
  After a packet of \<open>f\<close> was sent, every time is the old one moved down by a common amount \<open>sub\<close>, plus
  the size of the packet for \<open>f\<close>; only flows that wait for nothing may stay above.
\<close>

definition times_moved :: "PacketPassFairQueue \<Rightarrow> nat \<Rightarrow> int \<Rightarrow> int \<Rightarrow> PacketPassFairQueue \<Rightarrow> bool" where
  "times_moved m f amount sub m' \<longleftrightarrow> 0 \<le> sub \<and> vt m' f = vt m f + amount - sub \<and>
     (\<forall>g\<in>queued_set m. vt m' g = vt m g - sub) \<and> (\<forall>g\<in>set (fq_flows_list m). g \<noteq> f \<longrightarrow> vt m g - sub \<le> vt m' g)"

lemma increment_spec:
  assumes ok: "fq_flows_ok m" and f: "f \<in> set (fq_flows_list m)" "\<not> fl_is_queued (fq_flow m f)" and idle: "fq_sending_flow m = None"
    and min: "\<forall>g\<in>queued_set m. vt m f \<le> vt m g"
  shows "\<exists>fl sub. increment_sent_flow m f amount = Some (m\<lparr>fq_flow := fl\<rparr>) \<and> times_moved m f (uint amount) sub (m\<lparr>fq_flow := fl\<rparr>) \<and>
    (\<forall>g. fl g = (fq_flow m g)\<lparr>fl_time := fl_time (fl g)\<rparr>)"
proof (cases "amount > FAIRQUEUE_MAX_TIME - fl_time (fq_flow m f)")
  case False
  let ?fl = "(fq_flow m)(f := (fq_flow m f)\<lparr>fl_time := fl_time (fq_flow m f) + amount\<rparr>)"
  have "uint amount \<le> 2 ^ 64 - 1 - uint (fl_time (fq_flow m f))" 
    using False by (simp add: word_less_def uint_sub_small [OF le_MAX_TIME] uint_MAX_TIME)
  then have "uint (fl_time (fq_flow m f) + amount) = vt m f + uint amount" using wrap_around [of 0 "fl_time (fq_flow m f)" amount] by (simp add: vt_def)
  moreover have "f \<notin> queued_set m" using f(2) by (simp add: queued_set_def)
  ultimately have "times_moved m f (uint amount) 0 (m\<lparr>fq_flow := ?fl\<rparr>)" by (auto simp: times_moved_def vt_def)
  moreover have "increment_sent_flow m f amount = Some (m\<lparr>fq_flow := ?fl\<rparr>)"
    using False f(2) idle by (simp add: increment_sent_flow_def FAIRQUEUE_MAX_TIME_def)
  ultimately show ?thesis by (intro exI [of _ ?fl] exI [of _ 0]) simp
next
  case True
  define subtract where "subtract = (case tree_first (fq_queued_tree m) of None \<Rightarrow> fl_time (fq_flow m f) | Some g \<Rightarrow> fl_time (fq_flow m g))"
  define fl1 where "fl1 = (\<lambda>g. if g \<in> set (fq_flows_list m) then moved_down subtract f g (fq_flow m g) else fq_flow m g)"
  let ?fl = "fl1(f := (fl1 f)\<lparr>fl_time := fl_time (fl1 f) + amount\<rparr>)"
  have q: "subtract \<le> fl_time (fq_flow m g)" if "g \<in> queued_set m" for g
    using that ok tree_first_min [OF ok _ that] by (auto simp: subtract_def vt_le_iff tree_first_None fq_flows_ok_def split: option.split)
  have f_le: "vt m f \<le> uint subtract" using min tree_first_queued [OF ok] by (auto simp: subtract_def vt_def split: option.split)
  have "subtract_times subtract f (fq_flows_list m) (fq_flow m) = Some fl1"
    unfolding fl1_def using ok q by (intro subtract_times_spec) (auto simp: fq_flows_ok_def queued_set_def not_less [symmetric])
  then have inc: "increment_sent_flow m f amount = Some (m\<lparr>fq_flow := ?fl\<rparr>)"
    using True f(2) idle by (simp add: increment_sent_flow_def le_MAX_TIME subtract_def)
  have big: "2 ^ 64 - 1 < vt m f + uint amount"
    using True by (simp add: word_less_def uint_sub_small [OF le_MAX_TIME] uint_MAX_TIME vt_def)
  have "uint (fl_time (?fl f)) = vt m f + uint amount - uint subtract"
    using f(1) big f_le uint_lt2p [of subtract] uint_lt2p [of amount] unfolding fl1_def
    by (simp add: moved_down_def vt_def wrap_around)
  moreover have "vt (m\<lparr>fq_flow := ?fl\<rparr>) g = vt m g - uint subtract" if "g \<in> queued_set m" for g
    using q [OF that] that f(2) by (auto simp: vt_def fl1_def moved_down_def queued_set_def uint_sub_small)
  moreover have "vt m g - uint subtract \<le> vt (m\<lparr>fq_flow := ?fl\<rparr>) g" if "g \<in> set (fq_flows_list m)" "g \<noteq> f" for g
    using that by (auto simp: vt_def fl1_def moved_down_def uint_sub_small word_less_def word_le_def not_less)
  ultimately have "times_moved m f (uint amount) (uint subtract) (m\<lparr>fq_flow := ?fl\<rparr>)" by (simp add: times_moved_def vt_def)
  moreover have "\<forall>g. ?fl g = (fq_flow m g)\<lparr>fl_time := fl_time (?fl g)\<rparr>" by (simp add: fl1_def moved_down_def)
  ultimately show ?thesis using inc by (intro exI [of _ ?fl] exI [of _ "uint subtract"] conjI)
qed

subsection \<open>The invariant is kept\<close>

lemma tree_sorted_times:
  "(\<And>f. f \<in> set xs \<Longrightarrow> fl_time (fl f) = fl_time (fl' f)) \<Longrightarrow> tree_sorted (compare_flows fl) xs = tree_sorted (compare_flows fl') xs"
  by (rule tree_sorted_cong) (simp add: compare_flows_def)

lemma schedule_spec:
  assumes ok: "fq_flows_ok m" and idle: "fq_sending_flow m = None" "fq_previous_flow m = None" "\<not> fq_schedule_job m" "\<not> fq_freeing m"
    and ne: "fq_queued_tree m \<noteq> []"
  shows "\<exists>m' q. fq_schedule m = Some (m', fl_data (fq_flow m q)) \<and> fq_inv m' \<and> q \<in> queued_set m \<and> fq_sending_flow m' = Some q \<and>
    fq_flows_list m' = fq_flows_list m \<and> vt m' = vt m \<and> queued_set m' = queued_set m - {q} \<and> fq_previous_flow m' = None \<and>
    fq_packet_weight m' = fq_packet_weight m \<and> fq_mtu m' = fq_mtu m"
proof -
  obtain q where q: "tree_first (fq_queued_tree m) = Some q" using ne by (cases "fq_queued_tree m") (auto simp: tree_first_def)
  have qq: "q \<in> queued_set m" by (rule tree_first_queued [OF ok q])
  let ?fl = "(fq_flow m)(q := (fq_flow m q)\<lparr>fl_is_queued := False\<rparr>)"
  let ?m = "m\<lparr>fq_queued_tree := tree_remove q (fq_queued_tree m), fq_flow := ?fl, fq_sending_flow := Some q,
      fq_sending_len := length (fl_data (fq_flow m q))\<rparr>"
  have vt: "vt ?m = vt m" by (simp add: vt_def fun_eq_iff)
  have qs: "queued_set ?m = queued_set m - {q}" by (auto simp: queued_set_def)
  have d: "distinct (fq_queued_tree m)" using ok flows.tree_sorted_distinct by (auto simp: fq_flows_ok_def)
  have "tree_sorted (compare_flows (fq_flow m)) (tree_remove q (fq_queued_tree m))" using ok by (intro tree_remove_sorted) (simp add: fq_flows_ok_def)
  then have "tree_sorted (compare_flows ?fl) (tree_remove q (fq_queued_tree m))" by (subst tree_sorted_times [of _ _ "fq_flow m"]) auto
  then have "fq_flows_ok ?m" using ok d qs by (auto simp: fq_flows_ok_def tree_remove_def)
  moreover have "fq_sending_ok ?m"
    using ok idle qq tree_first_min [OF ok q] by (auto simp: fq_sending_ok_def qs vt queued_set_def fq_flows_ok_def)
  moreover have "fq_waiting_ok ?m" using idle by (simp add: fq_waiting_ok_def)
  ultimately have "fq_inv ?m" by (simp add: fq_inv_def)
  moreover have "fq_schedule m = Some (?m, fl_data (fq_flow m q))"
    using idle q qq by (simp add: fq_schedule_def queued_set_def Let_def)
  ultimately show ?thesis using qq vt qs idle by (intro exI [of _ ?m] exI [of _ q]) simp
qed

text \<open>The queue with the flow queued, before anything is scheduled.\<close>

definition enqueued :: "PacketPassFairQueue \<Rightarrow> nat \<Rightarrow> bytes \<Rightarrow> nat list \<Rightarrow> PacketPassFairQueue" where
  "enqueued m f data tree =
     m\<lparr>fq_previous_flow := (if fq_previous_flow m = Some f then None else fq_previous_flow m), fq_queued_tree := tree,
       fq_flow := (fq_flow m)(f := (fq_flow m f)\<lparr>fl_time := (if fq_previous_flow m = Some f then fl_time (fq_flow m f)
         else max (fl_time (fq_flow m f)) (get_current_time m)), fl_data := data, fl_is_queued := True\<rparr>)\<rparr>"

lemma enqueue_eq:
  assumes ok: "fq_flows_ok m" and en: "fq_enabled m (Send f data)"
  shows "\<exists>tree. fq_input_handler_send m f data =
      (if fq_sending_flow m = None \<and> \<not> fq_schedule_job m then map_option (apsnd Some) (fq_schedule (enqueued m f data tree))
       else Some (enqueued m f data tree, None)) \<and> fq_flows_ok (enqueued m f data tree) \<and> f \<in> set tree"
proof -
  let ?fl = "(fq_flow m)(f := (fq_flow m f)\<lparr>fl_time := (if fq_previous_flow m = Some f then fl_time (fq_flow m f)
      else max (fl_time (fq_flow m f)) (get_current_time m)), fl_data := data\<rparr>)"
  have f: "f \<in> set (fq_flows_list m)" "\<not> fl_is_queued (fq_flow m f)" "length data \<le> fq_mtu m" using en by simp_all
  then have nq: "f \<notin> set (fq_queued_tree m)" using ok by (simp add: fq_flows_ok_def queued_set_def)
  then obtain tree where t: "tree_insert (compare_flows ?fl) f (fq_queued_tree m) = Some tree"
    using tree_insert_Some [of "fq_queued_tree m" "compare_flows ?fl" f] by (auto simp: compare_flows_zero)
  let ?m = "enqueued m f data tree"
  have "tree_sorted (compare_flows ?fl) (fq_queued_tree m)"
    using ok nq by (subst tree_sorted_times [of _ _ "fq_flow m"]) (auto simp: fq_flows_ok_def)
  then have "tree_sorted (compare_flows ?fl) tree" using t by (rule flows.tree_insert_sorted)
  then have "tree_sorted (compare_flows (fq_flow ?m)) tree" by (subst tree_sorted_times [of _ _ ?fl]) (auto simp: enqueued_def)
  moreover have "queued_set ?m = insert f (queued_set m)" using f(1) by (auto simp: queued_set_def enqueued_def)
  ultimately have "fq_flows_ok ?m"
    using ok f(3) tree_insert_set [OF t] by (auto simp: fq_flows_ok_def enqueued_def queued_set_def)
  moreover have "fq_input_handler_send m f data =
      (if fq_sending_flow m = None \<and> \<not> fq_schedule_job m then map_option (apsnd Some) (fq_schedule ?m) else Some (?m, None))"
    using en t by (cases "fq_previous_flow m = Some f") (simp_all add: fq_input_handler_send_def enqueued_def Let_def)
  ultimately show ?thesis using tree_insert_set [OF t] by blast
qed

text \<open>What a step does to the times, and that it keeps the invariant.\<close>

definition fq_step :: "PacketPassFairQueue \<Rightarrow> fq_event \<Rightarrow> PacketPassFairQueue \<Rightarrow> bool" where
  "fq_step m ev m' \<longleftrightarrow> fq_inv m' \<and> fq_packet_weight m' = fq_packet_weight m \<and> fq_mtu m' = fq_mtu m \<and>
     (case ev of
        Send f data \<Rightarrow> fq_flows_list m' = fq_flows_list m \<and> (\<forall>g. g \<noteq> f \<longrightarrow> vt m' g = vt m g) \<and> vt m f \<le> vt m' f \<and>
          (fq_previous_flow m = Some f \<longrightarrow> vt m' f = vt m f)
      | OutputDone \<Rightarrow> fq_flows_list m' = fq_flows_list m \<and>
          (\<exists>s sub. fq_sending_flow m = Some s \<and> times_moved m s (int (fq_packet_weight m + fq_sending_len m)) sub m')
      | FlowInit f \<Rightarrow> fq_flows_list m' = fq_flows_list m @ [f] \<and> (\<forall>g. g \<noteq> f \<longrightarrow> vt m' g = vt m g)
      | FlowFree f \<Rightarrow> fq_flows_list m' = remove1 f (fq_flows_list m) \<and> vt m' = vt m
      | _ \<Rightarrow> fq_flows_list m' = fq_flows_list m \<and> vt m' = vt m)"

lemma send_step:
  assumes inv: "fq_inv m" and en: "fq_enabled m (Send f data)"
  shows "\<exists>m'. fq_handle m (Send f data) = Some m' \<and> fq_step m (Send f data) m'"
proof -
  have parts: "fq_flows_ok m" "fq_sending_ok m" "fq_waiting_ok m" using inv by (simp_all add: fq_inv_def)
  obtain tree where eq: "fq_input_handler_send m f data =
      (if fq_sending_flow m = None \<and> \<not> fq_schedule_job m then map_option (apsnd Some) (fq_schedule (enqueued m f data tree))
       else Some (enqueued m f data tree, None))" and ok: "fq_flows_ok (enqueued m f data tree)" and ft: "f \<in> set tree"
    using enqueue_eq [OF parts(1) en] by blast
  let ?m = "enqueued m f data tree"
  have vt: "g \<noteq> f \<Longrightarrow> vt ?m g = vt m g" "vt m f \<le> vt ?m f" "fq_previous_flow m = Some f \<Longrightarrow> vt ?m f = vt m f" for g
    by (auto simp: vt_def enqueued_def max_def word_le_def)
  have same: "fq_flows_list ?m = fq_flows_list m" "fq_packet_weight ?m = fq_packet_weight m" "fq_mtu ?m = fq_mtu m" by (simp_all add: enqueued_def)
  show ?thesis
  proof (cases "fq_sending_flow m = None \<and> \<not> fq_schedule_job m")
    case True
    then have "fq_previous_flow m = None" using parts(3) by (auto simp: fq_waiting_ok_def)
    then have idle: "fq_sending_flow ?m = None" "fq_previous_flow ?m = None" "\<not> fq_schedule_job ?m" "\<not> fq_freeing ?m" "fq_queued_tree ?m \<noteq> []"
      using True en ft by (auto simp: enqueued_def)
    obtain m' q where m': "fq_schedule ?m = Some (m', fl_data (fq_flow ?m q))" "fq_inv m'" "fq_flows_list m' = fq_flows_list ?m"
      "vt m' = vt ?m" "fq_packet_weight m' = fq_packet_weight ?m" "fq_mtu m' = fq_mtu ?m"
      using schedule_spec [OF ok idle] by blast
    then show ?thesis using eq True vt same by (simp add: fq_step_def)
  next
    case False
    have raised: "vt m s \<le> vt ?m f" if "fq_sending_flow m = Some s" for s
    proof -
      have "fq_previous_flow m = None" using parts(2) that by (simp add: fq_sending_ok_def)
      then have "fl_time (fq_flow ?m f) = max (fl_time (fq_flow m f)) (fl_time (fq_flow m s))" using that by (simp add: enqueued_def get_current_time_def)
      then show ?thesis by (simp add: vt_def max_def word_le_def)
    qed
    have qs: "queued_set ?m = insert f (queued_set m)" using en by (auto simp: queued_set_def enqueued_def)
    have min: "\<forall>g\<in>queued_set ?m. vt ?m s \<le> vt ?m g" if "fq_sending_flow m = Some s" for s
    proof
      fix g assume "g \<in> queued_set ?m"
      moreover have "s \<noteq> f" "\<forall>g\<in>queued_set m. vt m s \<le> vt m g" using en parts(2) that by (auto simp: fq_sending_ok_def)
      ultimately show "vt ?m s \<le> vt ?m g" using raised [OF that] vt(1) by (cases "g = f") (auto simp: qs)
    qed
    have "fq_sending_flow ?m = fq_sending_flow m" "fl_is_queued (fq_flow ?m s) \<longleftrightarrow> s = f \<or> fl_is_queued (fq_flow m s)"
      "fq_schedule_job ?m = fq_schedule_job m" "fq_sending_len ?m = fq_sending_len m" "fq_previous_flow m = None \<longrightarrow> fq_previous_flow ?m = None" for s
      by (simp_all add: enqueued_def)
    then have "fq_sending_ok ?m" using parts(2) min en same unfolding fq_sending_ok_def by auto
    moreover have "fq_waiting_ok ?m" using parts(3) False by (auto simp: fq_waiting_ok_def enqueued_def)
    ultimately show ?thesis using eq False ok vt same by (simp add: fq_step_def fq_inv_def)
  qed
qed

lemma done_step:
  assumes inv: "fq_inv m" and en: "fq_enabled m OutputDone"
  shows "\<exists>m'. fq_handle m OutputDone = Some m' \<and> fq_step m OutputDone m'"
proof -
  obtain f where f: "fq_sending_flow m = Some f" using en by auto
  have parts: "fq_flows_ok m" "f \<in> set (fq_flows_list m)" "\<not> fl_is_queued (fq_flow m f)" "fq_previous_flow m = None" "\<not> fq_schedule_job m"
    "fq_sending_len m \<le> fq_mtu m" "\<forall>g\<in>queued_set m. vt m f \<le> vt m g" using inv f by (simp_all add: fq_inv_def fq_sending_ok_def)
  let ?m0 = "m\<lparr>fq_sending_flow := None, fq_previous_flow := Some f\<rparr>"
  let ?a = "of_nat (fq_packet_weight m) + of_nat (fq_sending_len m) :: u64"
  have same0: "queued_set ?m0 = queued_set m" "vt ?m0 = vt m" by (simp_all add: queued_set_def vt_def fun_eq_iff)
  have ok0: "fq_flows_ok ?m0" using parts(1) by (simp add: fq_flows_ok_def same0)
  obtain fl sub where fl: "increment_sent_flow ?m0 f ?a = Some (?m0\<lparr>fq_flow := fl\<rparr>)" "times_moved ?m0 f (uint ?a) sub (?m0\<lparr>fq_flow := fl\<rparr>)"
    and keep: "\<forall>g. fl g = (fq_flow m g)\<lparr>fl_time := fl_time (fl g)\<rparr>"
    using increment_spec [OF ok0, of f ?a] parts(2,3,7) same0 by auto
  have "unat ?a = fq_packet_weight m + fq_sending_len m"
    using parts(1,6) by (subst of_nat_add [symmetric], subst unat_of_nat) (simp add: fq_flows_ok_def)
  then have a: "uint ?a = int (fq_packet_weight m + fq_sending_len m)" by (simp only: uint_nat)
  let ?m = "m\<lparr>fq_sending_flow := None, fq_previous_flow := Some f, fq_schedule_job := True, fq_flow := fl(f := (fl f)\<lparr>fl_handler_busy := False\<rparr>)\<rparr>"
  have h: "fq_handle m OutputDone = Some ?m" using f parts en fl(1) by (simp add: fq_output_handler_done_def Let_def)
  have fields: "fl_is_queued (fl g) = fl_is_queued (fq_flow m g)" "fl_data (fl g) = fl_data (fq_flow m g)" for g
    by (subst keep [rule_format, of g], simp)+
  have qs: "queued_set ?m = queued_set m" by (auto simp: queued_set_def fields)
  have mv: "times_moved m f (int (fq_packet_weight m + fq_sending_len m)) sub ?m" 
    using fl(2) unfolding times_moved_def same0(1) a by (auto simp: vt_def)
  have "tree_sorted (compare_flows (fq_flow ?m)) (fq_queued_tree m) = tree_sorted (compare_flows (fq_flow m)) (fq_queued_tree m)"
  proof (rule tree_sorted_cong)
    fix g h assume "g \<in> set (fq_queued_tree m)" "h \<in> set (fq_queued_tree m)"
    then have "vt ?m g = vt m g - sub" "vt ?m h = vt m h - sub" using mv parts(1) by (simp_all add: times_moved_def fq_flows_ok_def)
    then show "compare_flows (fq_flow ?m) g h < 0 \<longleftrightarrow> compare_flows (fq_flow m) g h < 0"
      unfolding compare_flows_neg word_less_def word_uint_eq_iff vt_def by simp
  qed
  then have "fq_flows_ok ?m" using parts(1) unfolding fq_flows_ok_def qs by (simp add: fields)
  moreover have "fq_sending_ok ?m" "fq_waiting_ok ?m" using parts(2,3) by (auto simp: fq_sending_ok_def fq_waiting_ok_def fields)
  ultimately show ?thesis using h mv f by (auto simp: fq_step_def fq_inv_def)
qed

lemma job_step:
  assumes inv: "fq_inv m" and en: "fq_enabled m ScheduleJob"
  shows "\<exists>m'. fq_handle m ScheduleJob = Some m' \<and> fq_step m ScheduleJob m'"
proof -
  let ?m = "m\<lparr>fq_schedule_job := False, fq_previous_flow := None\<rparr>"
  have idle: "fq_sending_flow m = None" using inv en by (auto simp: fq_inv_def fq_sending_ok_def)
  have same: "queued_set ?m = queued_set m" "vt ?m = vt m" by (simp_all add: queued_set_def vt_def fun_eq_iff)
  have ok: "fq_flows_ok ?m" using inv by (simp add: fq_inv_def fq_flows_ok_def same)
  show ?thesis
  proof (cases "fq_queued_tree m = []")
    case True
    have "fq_inv ?m" using ok True idle by (simp add: fq_inv_def fq_sending_ok_def fq_waiting_ok_def)
    then show ?thesis using True idle en by (simp add: fq_schedule_job_handler_def fq_step_def same)
  next
    case False
    then obtain m' q where m': "fq_schedule ?m = Some (m', fl_data (fq_flow ?m q))" "fq_inv m'" "fq_flows_list m' = fq_flows_list ?m" "vt m' = vt ?m"
      "fq_packet_weight m' = fq_packet_weight ?m" "fq_mtu m' = fq_mtu ?m"
      using schedule_spec [OF ok, of] idle en by auto
    then show ?thesis using False idle en same by (simp add: fq_schedule_job_handler_def fq_step_def)
  qed
qed

lemma flow_init_step:
  assumes inv: "fq_inv m" and en: "fq_enabled m (FlowInit f)"
  shows "\<exists>m'. fq_handle m (FlowInit f) = Some m' \<and> fq_step m (FlowInit f) m'"
proof -
  let ?fl = "(fq_flow m)(f := (fq_flow m f)\<lparr>fl_handler_busy := False, fl_time := 0, fl_is_queued := False\<rparr>)"
  let ?m = "m\<lparr>fq_flow := ?fl, fq_flows_list := fq_flows_list m @ [f]\<rparr>"
  have qs: "queued_set ?m = queued_set m" using en by (auto simp: queued_set_def)
  have vt: "g \<noteq> f \<Longrightarrow> vt ?m g = vt m g" for g by (simp add: vt_def)
  have nf: "f \<notin> set (fq_flows_list m)" "f \<notin> queued_set m" using en by (auto simp: queued_set_def)
  have "tree_sorted (compare_flows ?fl) (fq_queued_tree m)"
    using inv nf by (subst tree_sorted_times [of _ _ "fq_flow m"]) (auto simp: fq_inv_def fq_flows_ok_def)
  then have "fq_flows_ok ?m" using inv nf unfolding fq_inv_def fq_flows_ok_def qs by auto
  moreover have "g \<in> queued_set m \<Longrightarrow> vt ?m g = vt m g" for g using nf(2) by (intro vt) auto
  then have "fq_sending_ok ?m" using inv nf vt unfolding fq_inv_def fq_sending_ok_def qs by auto
  moreover have "fq_waiting_ok ?m" using inv unfolding fq_inv_def fq_waiting_ok_def by auto
  ultimately show ?thesis using en vt by (simp add: PacketPassFairQueueFlow_Init_def fq_step_def fq_inv_def)
qed

lemma flow_free_step:
  assumes inv: "fq_inv m" and en: "fq_enabled m (FlowFree f)"
  shows "\<exists>m'. fq_handle m (FlowFree f) = Some m' \<and> fq_step m (FlowFree f) m'"
proof -
  let ?m = "m\<lparr>fq_sending_flow := (if fq_sending_flow m = Some f then None else fq_sending_flow m),
      fq_previous_flow := (if fq_previous_flow m = Some f then None else fq_previous_flow m),
      fq_queued_tree := tree_remove f (fq_queued_tree m), fq_flows_list := remove1 f (fq_flows_list m)\<rparr>"
  have parts: "fq_flows_ok m" "fq_sending_ok m" "fq_waiting_ok m" using inv by (simp_all add: fq_inv_def)
  have d: "distinct (fq_flows_list m)" "distinct (fq_queued_tree m)"
    using parts(1) flows.tree_sorted_distinct by (auto simp: fq_flows_ok_def)
  have qs: "queued_set ?m = queued_set m - {f}" using d by (auto simp: queued_set_def)
  have "\<not> fl_is_queued (fq_flow m f) \<Longrightarrow> tree_remove f (fq_queued_tree m) = fq_queued_tree m"
    using parts(1) by (simp add: tree_remove_def remove1_idem fq_flows_ok_def queued_set_def)
  then have h: "fq_handle m (FlowFree f) = Some ?m" using en by (auto simp: PacketPassFairQueueFlow_Free_def Let_def)
  have vt: "vt ?m = vt m" by (simp add: vt_def fun_eq_iff)
  have "tree_sorted (compare_flows (fq_flow m)) (tree_remove f (fq_queued_tree m))" using parts(1) by (intro tree_remove_sorted) (simp add: fq_flows_ok_def)
  then have "fq_flows_ok ?m" using parts(1) d unfolding fq_flows_ok_def qs by (auto simp: tree_remove_def)
  moreover have "fq_sending_ok ?m" using parts(2) d(1) unfolding fq_sending_ok_def qs vt by (auto split: if_splits)
  moreover have "fq_waiting_ok ?m" using parts(3) d en unfolding fq_waiting_ok_def by (auto simp: tree_remove_def split: if_splits)
  ultimately show ?thesis using h vt by (simp add: fq_step_def fq_inv_def)
qed

lemma busy_step:
  assumes inv: "fq_inv m" and en: "fq_enabled m (SetBusy f b)"
  shows "\<exists>m'. fq_handle m (SetBusy f b) = Some m' \<and> fq_step m (SetBusy f b) m'"
proof -
  let ?fl = "(fq_flow m)(f := (fq_flow m f)\<lparr>fl_handler_busy := b\<rparr>)"
  let ?m = "m\<lparr>fq_flow := ?fl\<rparr>"
  have qs: "queued_set ?m = queued_set m" by (auto simp: queued_set_def)
  have vt: "vt ?m = vt m" by (auto simp: vt_def fun_eq_iff)
  have "tree_sorted (compare_flows ?fl) (fq_queued_tree m)"
    using inv by (subst tree_sorted_times [of _ _ "fq_flow m"]) (auto simp: fq_inv_def fq_flows_ok_def)
  then have "fq_inv ?m" using inv unfolding fq_inv_def fq_flows_ok_def fq_sending_ok_def fq_waiting_ok_def qs vt by auto
  then show ?thesis using en vt by (simp add: PacketPassFairQueueFlow_SetBusyHandler_def fq_step_def)
qed

lemma prepare_free_step:
  assumes inv: "fq_inv m" shows "fq_step m PrepareFree (PacketPassFairQueue_PrepareFree m)"
proof -
  let ?m = "m\<lparr>fq_freeing := True\<rparr>"
  have same: "queued_set ?m = queued_set m" "vt ?m = vt m" by (auto simp: queued_set_def vt_def fun_eq_iff)
  have "fq_inv ?m" using inv unfolding fq_inv_def fq_flows_ok_def fq_sending_ok_def fq_waiting_ok_def same by auto
  then show ?thesis by (simp add: PacketPassFairQueue_PrepareFree_def fq_step_def same)
qed

lemma fq_handle_step:
  assumes "fq_inv m" "fq_enabled m ev" shows "\<exists>m'. fq_handle m ev = Some m' \<and> fq_step m ev m'"
proof (cases ev)
  case PrepareFree
  then show ?thesis using prepare_free_step [OF assms(1)] by simp
qed (use assms send_step done_step job_step flow_init_step flow_free_step busy_step in blast)+

lemma fq_reachable_inv: "fq_reachable m \<Longrightarrow> fq_inv m"
proof (induction rule: fq_reachable.induct)
  case (fq_init mtu use_cancel packet_weight fl0 m)
  then show ?case
    by (auto simp: uint_MAX_TIME PacketPassFairQueue_Init_def fq_inv_def fq_flows_ok_def fq_sending_ok_def fq_waiting_ok_def queued_set_def
        tree_sorted_def split: if_splits)
next
  case (fq_next m ev m')
  then show ?case using fq_handle_step [of m ev] by (auto simp: fq_step_def)
qed

subsection \<open>Fairness\<close>

fun fq_run :: "PacketPassFairQueue \<Rightarrow> fq_event list \<Rightarrow> PacketPassFairQueue option" where
  "fq_run m [] = Some m"
| "fq_run m (ev # evs) = (if fq_enabled m ev then case fq_handle m ev of None \<Rightarrow> None | Some m' \<Rightarrow> fq_run m' evs else None)"

text \<open>A condition that holds in every state of a run.\<close>

fun fq_always :: "(PacketPassFairQueue \<Rightarrow> bool) \<Rightarrow> PacketPassFairQueue \<Rightarrow> fq_event list \<Rightarrow> bool" where
  "fq_always P m [] \<longleftrightarrow> P m"
| "fq_always P m (ev # evs) \<longleftrightarrow> P m \<and> (case fq_handle m ev of None \<Rightarrow> False | Some m' \<Rightarrow> fq_always P m' evs)"

text \<open>A flow takes part while it is queued, is being sent, or was just sent and may queue again.\<close>

definition fq_active :: "nat \<Rightarrow> PacketPassFairQueue \<Rightarrow> bool" where
  "fq_active f m \<longleftrightarrow> fq_sending_flow m = Some f \<or> fq_previous_flow m = Some f \<or> f \<in> set (fq_queued_tree m)"

text \<open>The service that a step and a run give to a flow: its packets with their weight.\<close>

definition fq_sent :: "PacketPassFairQueue \<Rightarrow> fq_event \<Rightarrow> nat \<Rightarrow> nat" where
  "fq_sent m ev f = (if ev = OutputDone \<and> fq_sending_flow m = Some f then fq_packet_weight m + fq_sending_len m else 0)"

fun fq_service :: "PacketPassFairQueue \<Rightarrow> fq_event list \<Rightarrow> nat \<Rightarrow> nat" where
  "fq_service m [] f = 0"
| "fq_service m (ev # evs) f = fq_sent m ev f + (case fq_handle m ev of None \<Rightarrow> 0 | Some m' \<Rightarrow> fq_service m' evs f)"

lemma fq_inv_queued: "fq_inv m \<Longrightarrow> set (fq_queued_tree m) = queued_set m"
  by (simp add: fq_inv_def fq_flows_ok_def)

lemma active_flow: "fq_inv m \<Longrightarrow> fq_active f m \<Longrightarrow> f \<in> set (fq_flows_list m)"
  unfolding fq_active_def fq_inv_queued by (auto simp: fq_inv_def fq_sending_ok_def fq_waiting_ok_def queued_set_def)

lemma active_while_sending: "fq_inv m \<Longrightarrow> fq_sending_flow m = Some s \<Longrightarrow> fq_active f m \<Longrightarrow> f = s \<or> f \<in> queued_set m"
  unfolding fq_active_def fq_inv_queued by (auto simp: fq_inv_def fq_sending_ok_def)

lemma send_keeps_active:
  assumes "fq_inv m" "fq_enabled m (Send h data)" "fq_step m (Send h data) m'" "fq_active f m"
  shows "vt m' f = vt m f"
proof (cases "f = h")
  case True
  then have "fq_previous_flow m = Some f" using assms(2,4) fq_inv_queued [OF assms(1)] by (auto simp: fq_active_def queued_set_def)
  then show ?thesis using assms(3) True by (simp add: fq_step_def)
next
  case False
  then show ?thesis using assms(3) by (simp add: fq_step_def)
qed

lemma fair_step:
  assumes inv: "fq_inv m" and en: "fq_enabled m ev" and st: "fq_step m ev m'" and act: "fq_active f m" "fq_active g m" and ne: "f \<noteq> g"
  shows "vt m' f - vt m' g = vt m f - vt m g + int (fq_sent m ev f) - int (fq_sent m ev g)"
    "vt m' f - vt m' g \<le> max (vt m f - vt m g) (int (fq_packet_weight m + fq_mtu m))"
proof -
  have "vt m' f - vt m' g = vt m f - vt m g + int (fq_sent m ev f) - int (fq_sent m ev g) \<and>
      vt m' f - vt m' g \<le> max (vt m f - vt m g) (int (fq_packet_weight m + fq_mtu m))"
  proof (cases "ev = OutputDone")
    case True
    then obtain s sub where s: "fq_sending_flow m = Some s" "times_moved m s (int (fq_packet_weight m + fq_sending_len m)) sub m'"
      using st by (auto simp: fq_step_def)
    have mv: "vt m' s = vt m s + int (fq_packet_weight m + fq_sending_len m) - sub" "\<And>h. h \<in> queued_set m \<Longrightarrow> vt m' h = vt m h - sub"
      using s(2) by (simp_all add: times_moved_def)
    have q: "f = s \<or> f \<in> queued_set m" "g = s \<or> g \<in> queued_set m" using active_while_sending [OF inv s(1)] act by blast+
    have min: "\<And>h. h \<in> queued_set m \<Longrightarrow> vt m s \<le> vt m h" "fq_sending_len m \<le> fq_mtu m" "s \<notin> queued_set m"
      using inv s(1) by (auto simp: fq_inv_def fq_sending_ok_def queued_set_def)
    consider "f = s" "g \<in> queued_set m" | "g = s" "f \<in> queued_set m" | "f \<in> queued_set m" "g \<in> queued_set m" using q ne by blast
    then show ?thesis
    proof cases
      case 1
      then show ?thesis using mv(1) mv(2) [of g] min(1) [of g] min(2) ne True s(1) by (simp add: fq_sent_def)
    next
      case 2
      then show ?thesis using mv(1) mv(2) [of f] ne True s(1) by (simp add: fq_sent_def)
    next
      case 3
      then show ?thesis using mv(2) [of f] mv(2) [of g] min(3) True s(1) by (auto simp: fq_sent_def)
    qed
  next
    case False
    have "vt m' f = vt m f \<and> vt m' g = vt m g"
    proof (cases ev)
      case (Send h data)
      then show ?thesis using send_keeps_active [OF inv] en st act by blast
    next
      case (FlowInit h)
      then have "f \<noteq> h" "g \<noteq> h" using active_flow [OF inv] act en by auto
      then show ?thesis using FlowInit st by (simp add: fq_step_def)
    qed (use st False in \<open>simp_all add: fq_step_def\<close>)
    then show ?thesis using False by (simp add: fq_sent_def)
  qed
  then show "vt m' f - vt m' g = vt m f - vt m g + int (fq_sent m ev f) - int (fq_sent m ev g)"
    "vt m' f - vt m' g \<le> max (vt m f - vt m g) (int (fq_packet_weight m + fq_mtu m))" by blast+
qed

lemma fair_run:
  "fq_inv m \<Longrightarrow> fq_run m evs = Some m' \<Longrightarrow> fq_always (\<lambda>m. fq_active f m \<and> fq_active g m) m evs \<Longrightarrow> f \<noteq> g \<Longrightarrow>
   vt m' f - vt m' g = vt m f - vt m g + int (fq_service m evs f) - int (fq_service m evs g) \<and>
   vt m' f - vt m' g \<le> max (vt m f - vt m g) (int (fq_packet_weight m + fq_mtu m))"
proof (induction evs arbitrary: m)
  case (Cons ev evs)
  have en: "fq_enabled m ev" using Cons.prems(2) by (simp split: if_splits)
  obtain m1 where m1: "fq_handle m ev = Some m1" "fq_step m ev m1" using fq_handle_step [OF Cons.prems(1) en] by blast
  have inv1: "fq_inv m1" and same: "fq_packet_weight m1 = fq_packet_weight m" "fq_mtu m1 = fq_mtu m" using m1(2) by (simp_all add: fq_step_def)
  have act: "fq_active f m" "fq_active g m" using Cons.prems(3) by simp_all
  note st = fair_step [OF Cons.prems(1) en m1(2) act Cons.prems(4)]
  have "fq_run m1 evs = Some m'" "fq_always (\<lambda>m. fq_active f m \<and> fq_active g m) m1 evs" using Cons.prems(2,3) m1(1) en by simp_all
  note ih = Cons.IH [OF inv1 this Cons.prems(4)]
  show ?case using ih st same m1(1) by simp linarith
qed simp

text \<open>
  C5: the queue is fair. Over any run in which two flows always have something to send, the
  service of one exceeds the service of the other by at most one packet of maximal size and
  weight plus the head start that the other had in virtual time; nothing else that other flows do,
  and no overflow of the 64-bit times, makes a difference.
\<close>

theorem fair_queue_fair:
  assumes "fq_reachable m" "fq_run m evs = Some m'" "fq_always (\<lambda>m. fq_active f m \<and> fq_active g m) m evs" "f \<noteq> g"
  shows "int (fq_service m evs f) - int (fq_service m evs g) \<le>
    max 0 (int (fq_packet_weight m + fq_mtu m) + uint (fl_time (fq_flow m g)) - uint (fl_time (fq_flow m f)))"
  using fair_run [OF fq_reachable_inv [OF assms(1)] assms(2-4)] unfolding vt_def by linarith

subsection \<open>No starvation\<close>

text \<open>How much the other flows may still be served before the flow \<open>f\<close>.\<close>

definition fq_ahead :: "PacketPassFairQueue \<Rightarrow> nat \<Rightarrow> nat" where
  "fq_ahead m f = (\<Sum>g\<leftarrow>remove1 f (fq_flows_list m). nat ((vt m f - vt m g) div int (fq_packet_weight m) + 1))"

fun fq_dones :: "fq_event list \<Rightarrow> nat" where
  "fq_dones [] = 0"
| "fq_dones (ev # evs) = (if ev = OutputDone then 1 else 0) + fq_dones evs"

lemma sum_list_strict:
  fixes u v :: "'a \<Rightarrow> nat"
  assumes "\<And>x. x \<in> set xs \<Longrightarrow> u x \<le> v x" "s \<in> set xs" "u s < v s"
  shows "(\<Sum>x\<leftarrow>xs. u x) < (\<Sum>x\<leftarrow>xs. v x)"
  using assms
proof (induction xs)
  case (Cons x xs)
  have le: "(\<Sum>x\<leftarrow>xs. u x) \<le> (\<Sum>x\<leftarrow>xs. v x)" using Cons.prems(1) by (intro sum_list_mono) simp
  show ?case
  proof (cases "s = x")
    case True
    then show ?thesis using le Cons.prems(3) by simp
  next
    case False
    then have "(\<Sum>x\<leftarrow>xs. u x) < (\<Sum>x\<leftarrow>xs. v x)" using Cons by simp
    then show ?thesis using Cons.prems(1) [of x] by simp
  qed
qed simp

lemma sum_list_remove1_le: "(\<Sum>x\<leftarrow>remove1 y xs. u x) \<le> (\<Sum>x\<leftarrow>xs. u x :: nat)"
  by (induction xs) auto

lemma ahead_step:
  assumes inv: "fq_inv m" and en: "fq_enabled m ev" and st: "fq_step m ev m'" and q: "f \<in> queued_set m" "f \<in> queued_set m'"
    and ev: "\<forall>h. ev \<noteq> FlowInit h"
  shows "fq_ahead m' f + (if ev = OutputDone then 1 else 0) \<le> fq_ahead m f"
proof (cases ev)
  case OutputDone
  then obtain s sub where s: "fq_sending_flow m = Some s" "times_moved m s (int (fq_packet_weight m + fq_sending_len m)) sub m'"
    and fl: "fq_flows_list m' = fq_flows_list m" using st by (auto simp: fq_step_def)
  have sok: "s \<in> set (fq_flows_list m)" "s \<notin> queued_set m" "vt m s \<le> vt m f" "0 < fq_packet_weight m" "distinct (fq_flows_list m)"
    using inv s(1) q(1) by (auto simp: fq_inv_def fq_sending_ok_def fq_flows_ok_def queued_set_def)
  have mv: "vt m' f = vt m f - sub" "vt m' s = vt m s + int (fq_packet_weight m + fq_sending_len m) - sub"
    "\<And>g. g \<in> set (fq_flows_list m) \<Longrightarrow> g \<noteq> s \<Longrightarrow> vt m g - sub \<le> vt m' g" using s(2) q(1) by (auto simp: times_moved_def)
  let ?w = "int (fq_packet_weight m)"
  have w: "fq_packet_weight m' = fq_packet_weight m" using st by (simp add: fq_step_def)
  have "fq_ahead m' f < fq_ahead m f"
    unfolding fq_ahead_def fl w
  proof (rule sum_list_strict)
    have "s \<noteq> f" using sok(2) q(1) by blast
    then show "s \<in> set (remove1 f (fq_flows_list m))" using sok(1) by (simp add: in_set_remove1)
    have "vt m' f - vt m' s \<le> vt m f - vt m s + (- 1) * ?w" using mv(1,2) by simp
    then have "(vt m' f - vt m' s) div ?w \<le> (vt m f - vt m s + (- 1) * ?w) div ?w" using sok(4) by (intro zdiv_mono1) simp_all
    also have "\<dots> = - 1 + (vt m f - vt m s) div ?w" using sok(4) by (subst div_mult_self1) simp_all
    finally show "nat ((vt m' f - vt m' s) div ?w + 1) < nat ((vt m f - vt m s) div ?w + 1)"
      using pos_imp_zdiv_nonneg_iff [of ?w "vt m f - vt m s"] sok(3,4) by simp
    fix g assume "g \<in> set (remove1 f (fq_flows_list m))"
    then have "g \<in> set (fq_flows_list m)" by (meson notin_set_remove1)
    then have "vt m' f - vt m' g \<le> vt m f - vt m g" using mv(1,2) mv(3) [of g] by (cases "g = s") simp_all
    then show "nat ((vt m' f - vt m' g) div ?w + 1) \<le> nat ((vt m f - vt m g) div ?w + 1)"
      using sok(4) by (intro nat_mono add_right_mono zdiv_mono1) simp_all
  qed
  then show ?thesis using OutputDone by simp
next
  case (Send h data)
  have "fq_active f m" using q(1) fq_inv_queued [OF inv] by (simp add: fq_active_def)
  then have "vt m' f = vt m f" by (rule send_keeps_active [OF inv en [unfolded Send] st [unfolded Send]])
  moreover have "vt m g \<le> vt m' g" "fq_flows_list m' = fq_flows_list m" for g using st Send by (cases "g = h"; simp add: fq_step_def)+
  moreover have "fq_packet_weight m' = fq_packet_weight m" "0 < fq_packet_weight m"
    using st inv by (simp_all add: fq_step_def fq_inv_def fq_flows_ok_def)
  ultimately show ?thesis using Send by (auto simp: fq_ahead_def intro!: sum_list_mono nat_mono zdiv_mono1)
next
  case (FlowFree h)
  then have "vt m' = vt m" "fq_flows_list m' = remove1 h (fq_flows_list m)" "fq_packet_weight m' = fq_packet_weight m"
    using st by (simp_all add: fq_step_def)
  then show ?thesis using FlowFree sum_list_remove1_le by (simp add: fq_ahead_def remove1_commute [of f h])
qed (use st ev in \<open>auto simp: fq_step_def fq_ahead_def\<close>)

lemma ahead_run:
  "fq_inv m \<Longrightarrow> fq_run m evs = Some m' \<Longrightarrow> fq_always (\<lambda>m. f \<in> set (fq_queued_tree m)) m evs \<Longrightarrow>
   list_all (\<lambda>ev. case ev of FlowInit h \<Rightarrow> False | _ \<Rightarrow> True) evs \<Longrightarrow>
   fq_dones evs + fq_ahead m' f \<le> fq_ahead m f \<and> fq_inv m' \<and> f \<in> set (fq_queued_tree m')"
proof (induction evs arbitrary: m)
  case (Cons ev evs)
  have en: "fq_enabled m ev" using Cons.prems(2) by (simp split: if_splits)
  obtain m1 where m1: "fq_handle m ev = Some m1" "fq_step m ev m1" using fq_handle_step [OF Cons.prems(1) en] by blast
  have inv1: "fq_inv m1" using m1(2) by (simp add: fq_step_def)
  have r: "fq_run m1 evs = Some m'" "fq_always (\<lambda>m. f \<in> set (fq_queued_tree m)) m1 evs" using Cons.prems(2,3) m1(1) en by simp_all
  have "f \<in> set (fq_queued_tree m1)" using r(2) by (cases evs) simp_all
  moreover have "f \<in> set (fq_queued_tree m)" "\<forall>h. ev \<noteq> FlowInit h" using Cons.prems(3,4) by auto
  ultimately have "fq_ahead m1 f + (if ev = OutputDone then 1 else 0) \<le> fq_ahead m f"
    using ahead_step [OF Cons.prems(1) en m1(2)] fq_inv_queued [OF Cons.prems(1)] fq_inv_queued [OF inv1] by simp
  then show ?case using Cons.IH [OF inv1 r] Cons.prems(4) by simp
qed simp


text \<open>A small instance: two flows with packets of one byte.\<close>

definition fq_test_start :: PacketPassFairQueue where
  "fq_test_start = the (PacketPassFairQueue_Init 10 False 1 (\<lambda>_. \<lparr>fl_time = 7, fl_handler_busy = False, fl_is_queued = False, fl_data = []\<rparr>))"

definition fq_test_queue :: PacketPassFairQueue where
  "fq_test_queue = the (fq_run fq_test_start [FlowInit 0, FlowInit 1, Send 0 [5], Send 1 [6]])"

definition fq_test_events :: "fq_event list" where
  "fq_test_events = [OutputDone, Send 0 [7, 7], ScheduleJob, OutputDone, Send 1 [8], ScheduleJob]"

lemma fq_run_reachable: "fq_reachable m \<Longrightarrow> fq_run m evs = Some m' \<Longrightarrow> fq_reachable m'"
  by (induction evs arbitrary: m) (auto split: if_splits option.splits intro: fq_next)

lemma fq_test_start_reachable: "fq_reachable fq_test_start"
proof -
  have "PacketPassFairQueue_Init 10 False 1 (\<lambda>_. \<lparr>fl_time = 7, fl_handler_busy = False, fl_is_queued = False, fl_data = []\<rparr>) \<noteq> None"
    by code_simp
  then show ?thesis by (intro fq_init [of 10 False 1]) (auto simp: fq_test_start_def)
qed

lemma fq_test_queue_reachable: "fq_reachable fq_test_queue"
proof (rule fq_run_reachable [OF fq_test_start_reachable])
  have "fq_run fq_test_start [FlowInit 0, FlowInit 1, Send 0 [5], Send 1 [6]] \<noteq> None" by code_simp
  then show "fq_run fq_test_start [FlowInit 0, FlowInit 1, Send 0 [5], Send 1 [6]] = Some fq_test_queue"
    unfolding fq_test_queue_def by (rule option.collapse [symmetric])
qed

lemma fq_test_events_run: "\<exists>m'. fq_run fq_test_queue fq_test_events = Some m'"
proof -
  have "fq_run fq_test_queue fq_test_events \<noteq> None" by code_simp
  then show ?thesis by (rule not_None_eq [THEN iffD1])
qed

theorem fair_queue_fair_witness:
  "int (fq_service fq_test_queue fq_test_events 0) - int (fq_service fq_test_queue fq_test_events 1) \<le>
    max 0 (int (fq_packet_weight fq_test_queue + fq_mtu fq_test_queue) + uint (fl_time (fq_flow fq_test_queue 1)) -
      uint (fl_time (fq_flow fq_test_queue 0)))"
proof -
  obtain m' where "fq_run fq_test_queue fq_test_events = Some m'" using fq_test_events_run by blast
  moreover have "fq_always (\<lambda>m. fq_active 0 m \<and> fq_active 1 m) fq_test_queue fq_test_events" by code_simp
  ultimately show ?thesis by (rule fair_queue_fair [OF fq_test_queue_reachable]) simp
qed


subsection \<open>Credit from idle times\<close>

text \<open>Two flows that wait for nothing; the first has the time \<open>t\<close>; \<open>k\<close> and \<open>e\<close> are what is left of the last packet.\<close>

definition fq_idle :: "nat \<Rightarrow> nat \<Rightarrow> u64 \<Rightarrow> nat \<Rightarrow> bytes \<Rightarrow> PacketPassFairQueue" where
  "fq_idle mtu w t k e = \<lparr>fq_mtu = mtu, fq_use_cancel = False, fq_packet_weight = w, fq_sending_flow = None, fq_sending_len = k,
     fq_previous_flow = None, fq_queued_tree = [], fq_flows_list = [0, 1], fq_freeing = False, fq_schedule_job = False,
     fq_flow = (\<lambda>f. \<lparr>fl_time = if f = 0 then t else 0, fl_handler_busy = False, fl_is_queued = False, fl_data = if f = 0 then e else []\<rparr>)\<rparr>"

lemma alone_packet:
  assumes "length d \<le> mtu" "unat t + (w + length d) < 2 ^ 64"
  shows "fq_run (fq_idle mtu w t k e) [Send 0 d, OutputDone, ScheduleJob] = Some (fq_idle mtu w (t + of_nat (w + length d)) (length d) d)"
proof -
  have mx: "max t 0 = t" by (simp add: max_def)
  have s: "fq_handle (fq_idle mtu w t k e) (Send 0 d) = Some ((fq_idle mtu w t (length d) d)\<lparr>fq_sending_flow := Some 0\<rparr>)"
    by (simp add: fq_idle_def fq_input_handler_send_def get_current_time_def tree_first_def fq_schedule_def tree_remove_def mx fun_eq_iff)
  have i: "int (unat t + (w + length d)) < int (2 ^ 64)" using assms(2) by (simp only: of_nat_less_iff)
  have "uint (of_nat w + of_nat (length d) :: u64) = int (w + length d)"
    using assms(2) by (subst of_nat_add [symmetric], subst uint_of_nat_small) auto
  then have "\<not> FAIRQUEUE_MAX_TIME - t < of_nat w + of_nat (length d)"
    using i unfolding word_less_def uint_sub_small [OF le_MAX_TIME] uint_MAX_TIME uint_nat [of t] by simp
  then have dn: "fq_handle ((fq_idle mtu w t (length d) d)\<lparr>fq_sending_flow := Some 0\<rparr>) OutputDone =
      Some ((fq_idle mtu w (t + of_nat (w + length d)) (length d) d)\<lparr>fq_previous_flow := Some 0, fq_schedule_job := True\<rparr>)"
    by (simp add: fq_idle_def fq_output_handler_done_def increment_sent_flow_def le_MAX_TIME Let_def fun_eq_iff)
  have jb: "fq_handle ((fq_idle mtu w t' (length d) d)\<lparr>fq_previous_flow := Some 0, fq_schedule_job := True\<rparr>) ScheduleJob = Some (fq_idle mtu w t' (length d) d)" for t'
    by (simp add: fq_idle_def fq_schedule_job_handler_def)
  have en: "fq_enabled (fq_idle mtu w t k e) (Send 0 d)" "fq_enabled ((fq_idle mtu w t (length d) d)\<lparr>fq_sending_flow := Some 0\<rparr>) OutputDone"
    "fq_enabled ((fq_idle mtu w t' (length d) d)\<lparr>fq_previous_flow := Some 0, fq_schedule_job := True\<rparr>) ScheduleJob" for t'
    using assms(1) by (simp_all add: fq_idle_def)
  show ?thesis by (simp only: fq_run.simps s dn jb en if_True option.case)
qed

lemma fq_run_append: "fq_run m (evs @ evs') = Option.bind (fq_run m evs) (\<lambda>m. fq_run m evs')"
  by (induction evs arbitrary: m) (simp_all split: option.split)

lemma alone_packets:
  assumes "length d \<le> mtu" "unat t + n * (w + length d) < 2 ^ 64"
  shows "\<exists>k' e'. fq_run (fq_idle mtu w t k e) (concat (replicate n [Send 0 d, OutputDone, ScheduleJob])) =
    Some (fq_idle mtu w (t + of_nat (n * (w + length d))) k' e')"
  using assms(2)
proof (induction n arbitrary: t k e)
  case (Suc n)
  let ?a = "of_nat (w + length d) :: u64"
  have lt: "unat t + (w + length d) < 2 ^ 64" using Suc.prems by simp
  then have "unat ?a = w + length d" by (subst unat_of_nat) simp
  then have "unat (t + ?a) = unat t + (w + length d)" using lt by (subst unat_plus_if') (simp add: unat_word_ariths)
  then have "unat (t + ?a) + n * (w + length d) < 2 ^ 64" using Suc.prems by simp
  then obtain k' e' where ih: "fq_run (fq_idle mtu w (t + ?a) (length d) d) (concat (replicate n [Send 0 d, OutputDone, ScheduleJob])) =
      Some (fq_idle mtu w (t + ?a + of_nat (n * (w + length d))) k' e')" using Suc.IH by blast
  have "fq_run (fq_idle mtu w t k e) (concat (replicate (Suc n) [Send 0 d, OutputDone, ScheduleJob])) =
      fq_run (fq_idle mtu w (t + ?a) (length d) d) (concat (replicate n [Send 0 d, OutputDone, ScheduleJob]))"
    using alone_packet [OF assms(1) lt] by (simp only: replicate_Suc concat.simps fq_run_append bind.bind_lunit)
  then show ?case unfolding ih by (intro exI [of _ k'] exI [of _ e']) (simp add: algebra_simps)
qed auto

definition fq_fresh :: "nat \<Rightarrow> nat \<Rightarrow> PacketPassFairQueue option" where
  "fq_fresh mtu w = PacketPassFairQueue_Init mtu False w (\<lambda>_. \<lparr>fl_time = 0, fl_handler_busy = False, fl_is_queued = False, fl_data = []\<rparr>)"

lemma fq_fresh_idle: "fq_fresh mtu w = Some m0 \<Longrightarrow> fq_run m0 [FlowInit 0, FlowInit 1] = Some (fq_idle mtu w 0 0 [])"
  by (auto simp: fq_fresh_def PacketPassFairQueue_Init_def PacketPassFairQueueFlow_Init_def fq_idle_def fun_eq_iff split: if_splits)

text \<open>
  C40: the queue forgets the virtual time when it runs idle. A flow that sends \<open>n\<close> packets while
  it is alone is charged for all of them when a second flow starts later: the newcomer begins at
  time 0, not at the time that the queue had reached, and has a head start of everything that the
  first flow ever sent.
\<close>

theorem fair_queue_idle_credit:
  assumes "fq_fresh mtu w = Some m0" "length d \<le> mtu" "n * (w + length d) < 2 ^ 64"
  shows "\<exists>m. fq_run m0 ([FlowInit 0, FlowInit 1] @ concat (replicate n [Send 0 d, OutputDone, ScheduleJob]) @ [Send 1 d, Send 0 d]) = Some m \<and>
    fq_sending_flow m = Some 1 \<and> fq_queued_tree m = [0] \<and>
    uint (fl_time (fq_flow m 0)) - uint (fl_time (fq_flow m 1)) = int (n * (w + length d))"
proof -
  let ?t = "of_nat (n * (w + length d)) :: u64"
  have t: "uint ?t = int (n * (w + length d))" using assms(3) by (subst uint_of_nat_small) auto
  have mx: "max ?t 0 = ?t" by (simp add: max_def)
  obtain k e where run: "fq_run (fq_idle mtu w 0 0 []) (concat (replicate n [Send 0 d, OutputDone, ScheduleJob])) = Some (fq_idle mtu w ?t k e)"
    using alone_packets [OF assms(2), of 0 n w 0 "[]"] assms(3) by auto
  let ?fl = "\<lambda>f :: nat. \<lparr>fl_time = if f = 0 then ?t else 0, fl_handler_busy = False, fl_is_queued = False, fl_data = if f = 0 then e else if f = 1 then d else []\<rparr>"
  let ?m1 = "(fq_idle mtu w ?t k e)\<lparr>fq_sending_flow := Some 1, fq_sending_len := length d, fq_flow := ?fl\<rparr>"
  let ?m2 = "?m1\<lparr>fq_queued_tree := [0], fq_flow := ?fl(0 := (?fl 0)\<lparr>fl_data := d, fl_is_queued := True\<rparr>)\<rparr>"
  have h1: "fq_handle (fq_idle mtu w ?t k e) (Send 1 d) = Some ?m1"
    by (simp add: fq_idle_def fq_input_handler_send_def get_current_time_def tree_first_def fq_schedule_def tree_remove_def fun_eq_iff)
  have h2: "fq_handle ?m1 (Send 0 d) = Some ?m2"
    by (simp add: fq_idle_def fq_input_handler_send_def get_current_time_def mx fun_eq_iff)
  have en: "fq_enabled (fq_idle mtu w ?t k e) (Send 1 d)" "fq_enabled ?m1 (Send 0 d)" using assms(2) by (simp_all add: fq_idle_def)
  have "fq_run (fq_idle mtu w ?t k e) [Send 1 d, Send 0 d] = Some ?m2"
    using en by (simp only: fq_run.simps h1 h2 if_True option.case)
  then have "fq_run m0 ([FlowInit 0, FlowInit 1] @ concat (replicate n [Send 0 d, OutputDone, ScheduleJob]) @ [Send 1 d, Send 0 d]) = Some ?m2"
    by (simp only: fq_run_append fq_fresh_idle [OF assms(1)] run bind.bind_lunit)
  then show ?thesis using t by (intro exI [of _ ?m2]) simp
qed

theorem fair_queue_idle_credit_witness:
  "\<exists>m. fq_run (the (fq_fresh 10 1)) ([FlowInit 0, FlowInit 1] @ concat (replicate 100 [Send 0 [5, 5], OutputDone, ScheduleJob]) @
      [Send 1 [5, 5], Send 0 [5, 5]]) = Some m \<and> fq_sending_flow m = Some 1 \<and> fq_queued_tree m = [0] \<and>
    uint (fl_time (fq_flow m 0)) - uint (fl_time (fq_flow m 1)) = int (100 * (1 + length ([5, 5] :: bytes)))"
proof (rule fair_queue_idle_credit)
  have "fq_fresh 10 1 \<noteq> None" by code_simp
  then show "fq_fresh 10 1 = Some (the (fq_fresh 10 1))" by (rule option.collapse [symmetric])
qed simp_all

end
