(* ===== verification/Bavl.thy ===== *)
theory Bavl
  imports OrderedTree "HOL-Library.Tree"
begin

text \<open>
  The AVL tree of \<open>src/structure/BAVL.h\<close> (built without node counts): nodes in memory with links to
  their children and to their parent. A node is named by its address; \<open>av_heap\<close> is the memory.
  The tree is shown to hold an ordered sequence of nodes, to stay balanced, and to be linked
  properly after every operation. \<open>None\<close> is a failed assertion, a null pointer that is followed, or a
  loop that does not end.
\<close>

record BAVLNode =
  bn_parent :: "nat option"
  bn_link :: "bool \<Rightarrow> nat option"
  bn_balance :: int

record BAVL =
  av_root :: "nat option"
  av_heap :: "nat \<Rightarrow> BAVLNode"

text \<open>Reading and writing the fields of a node; \<open>False\<close> is the left side.\<close>

definition parent :: "BAVL \<Rightarrow> nat \<Rightarrow> nat option" where "parent ob x = bn_parent (av_heap ob x)"
definition link :: "BAVL \<Rightarrow> nat \<Rightarrow> bool \<Rightarrow> nat option" where "link ob x side = bn_link (av_heap ob x) side"
definition balance :: "BAVL \<Rightarrow> nat \<Rightarrow> int" where "balance ob x = bn_balance (av_heap ob x)"

definition set_parent :: "nat \<Rightarrow> nat option \<Rightarrow> BAVL \<Rightarrow> BAVL" where
  "set_parent x p ob = ob\<lparr>av_heap := (av_heap ob)(x := (av_heap ob x)\<lparr>bn_parent := p\<rparr>)\<rparr>"
definition set_link :: "nat \<Rightarrow> bool \<Rightarrow> nat option \<Rightarrow> BAVL \<Rightarrow> BAVL" where
  "set_link x side p ob = ob\<lparr>av_heap := (av_heap ob)(x := (av_heap ob x)\<lparr>bn_link := (bn_link (av_heap ob x))(side := p)\<rparr>)\<rparr>"
definition set_balance :: "nat \<Rightarrow> int \<Rightarrow> BAVL \<Rightarrow> BAVL" where
  "set_balance x b ob = ob\<lparr>av_heap := (av_heap ob)(x := (av_heap ob x)\<lparr>bn_balance := b\<rparr>)\<rparr>"

text \<open>The parent of a node that may be absent.\<close>

definition set_parent_if :: "nat option \<Rightarrow> nat option \<Rightarrow> BAVL \<Rightarrow> BAVL" where
  "set_parent_if c p ob = (case c of None \<Rightarrow> ob | Some x \<Rightarrow> set_parent x p ob)"

text \<open>The link of the parent (or the root) that points to the node \<open>r\<close> is made to point to \<open>n\<close>.\<close>

definition relink :: "nat option \<Rightarrow> nat \<Rightarrow> nat option \<Rightarrow> BAVL \<Rightarrow> BAVL" where
  "relink par r n ob =
     (case par of Some p \<Rightarrow> set_link p (Some r = link ob p True) n ob | None \<Rightarrow> ob\<lparr>av_root := n\<rparr>)"

definition BAVL_OPTNEG :: "int \<Rightarrow> bool \<Rightarrow> int" where "BAVL_OPTNEG a neg = (if neg then - a else a)"

subsection \<open>Operations\<close>

definition BAVL_rotate :: "BAVL \<Rightarrow> nat \<Rightarrow> bool \<Rightarrow> BAVL option" where
  "BAVL_rotate tree r dir =
     (case link tree r (\<not> dir) of None \<Rightarrow> None
      | Some nr \<Rightarrow>
          let tree = set_link r (\<not> dir) (link tree nr dir) tree;
              tree = set_parent_if (link tree r (\<not> dir)) (Some r) tree;
              tree = set_link nr dir (Some r) tree;
              tree = set_parent nr (parent tree r) tree;
              tree = relink (parent tree nr) r (Some nr) tree
          in Some (set_parent r (Some nr) tree))"

text \<open>
  The transformations at a node that is out of balance by two towards \<open>bside\<close>: the new state, the node
  that now is at its place, and the change of height, from what it was without them.
\<close>

definition BAVL_transform :: "BAVL \<Rightarrow> nat \<Rightarrow> bool \<Rightarrow> int \<Rightarrow> (BAVL \<times> nat \<times> int) option" where
  "BAVL_transform ob node bside delta =
     (let bsidef = (if bside then 1 else -1) in
      case link ob node bside of None \<Rightarrow> None
      | Some child \<Rightarrow>
          if balance ob child * bsidef = 1 then
            case BAVL_rotate ob node (\<not> bside) of None \<Rightarrow> None
            | Some ob \<Rightarrow> Some (set_balance child 0 (set_balance node 0 ob), child, delta - 1)
          else if balance ob child * bsidef = 0 then
            case BAVL_rotate ob node (\<not> bside) of None \<Rightarrow> None
            | Some ob \<Rightarrow> Some (set_balance child (- 1 * bsidef) (set_balance node (1 * bsidef) ob), child, delta)
          else if balance ob child * bsidef = -1 then
            case link ob child (\<not> bside) of None \<Rightarrow> None
            | Some gchild \<Rightarrow>
                case BAVL_rotate ob child bside of None \<Rightarrow> None
                | Some ob \<Rightarrow>
                    case BAVL_rotate ob node (\<not> bside) of None \<Rightarrow> None
                    | Some ob \<Rightarrow>
                        let b = balance ob gchild;
                            ob = set_balance node (- max 0 (b * bsidef) * bsidef) ob;
                            ob = set_balance child (max 0 (- b * bsidef) * bsidef) ob
                        in Some (set_balance gchild 0 ob, gchild, delta - 1)
          else None)"

text \<open>Updating one node.\<close>

definition BAVL_rebalance_node :: "BAVL \<Rightarrow> nat \<Rightarrow> bool \<Rightarrow> int \<Rightarrow> (BAVL \<times> nat \<times> int) option" where
  "BAVL_rebalance_node ob node side deltac =
     (let delta = max deltac (BAVL_OPTNEG (balance ob node) side) - max 0 (BAVL_OPTNEG (balance ob node) side);
          ob = set_balance node (balance ob node - BAVL_OPTNEG deltac side) ob
      in if \<not> (-1 \<le> delta \<and> delta \<le> 1) then None
         else if balance ob node = 2 \<or> balance ob node = -2 then BAVL_transform ob node (balance ob node = 2) delta
         else Some (ob, node, delta))"

partial_function (option) BAVL_rebalance :: "BAVL \<Rightarrow> nat \<Rightarrow> bool \<Rightarrow> int \<Rightarrow> BAVL option" where
  "BAVL_rebalance ob node side deltac =
     (if \<not> (-1 \<le> deltac \<and> deltac \<le> 1) \<or> \<not> (-1 \<le> balance ob node \<and> balance ob node \<le> 1) then None
      else if deltac = 0 then Some ob
      else case BAVL_rebalance_node ob node side deltac of None \<Rightarrow> None
      | Some (ob, node, delta) \<Rightarrow>
          if \<not> (-1 \<le> delta \<and> delta \<le> 1) then None
          else case parent ob node of None \<Rightarrow> Some ob
          | Some p \<Rightarrow> BAVL_rebalance ob p (Some node = link ob p True) delta)"

declare BAVL_rebalance.simps [code]

text \<open>
  The descent from the node \<open>c\<close> towards the value \<open>v\<close>: the node that compares equal, or the last node
  and the side on which it has no child. \<open>val\<close> gives the value of a node.
\<close>

definition BAVL_compare_values :: "('v \<Rightarrow> 'v \<Rightarrow> int) \<Rightarrow> 'v \<Rightarrow> 'v \<Rightarrow> int option" where
  "BAVL_compare_values cmp v1 v2 = (let res = cmp v1 v2 in if res = -1 \<or> res = 0 \<or> res = 1 then Some res else None)"

partial_function (option) descend :: "('v \<Rightarrow> 'v \<Rightarrow> int) \<Rightarrow> (nat \<Rightarrow> 'v) \<Rightarrow> BAVL \<Rightarrow> 'v \<Rightarrow> nat \<Rightarrow> (nat + nat \<times> bool) option" where
  "descend cmp val ob v c =
     (case BAVL_compare_values cmp v (val c) of None \<Rightarrow> None
      | Some res \<Rightarrow>
          if res = 0 then Some (Inl c)
          else let side = (res = 1) in
            case link ob c side of None \<Rightarrow> Some (Inr (c, side)) | Some c \<Rightarrow> descend cmp val ob v c)"

declare descend.simps [code]

text \<open>The nodes of a new tree are not initialised: \<open>h\<close> is what the memory holds.\<close>

definition BAVL_Init :: "(nat \<Rightarrow> BAVLNode) \<Rightarrow> BAVL" where
  "BAVL_Init h = \<lparr>av_root = None, av_heap = h\<rparr>"

text \<open>The result is the new tree, whether the node was inserted, and \<open>ref\<close>.\<close>

definition BAVL_Insert :: "('v \<Rightarrow> 'v \<Rightarrow> int) \<Rightarrow> (nat \<Rightarrow> 'v) \<Rightarrow> BAVL \<Rightarrow> nat \<Rightarrow> (BAVL \<times> bool \<times> nat option) option" where
  "BAVL_Insert cmp val ob node =
     (case av_root ob of
        None \<Rightarrow>
          let ob = ob\<lparr>av_root := Some node\<rparr>;
              ob = set_balance node 0 (set_link node True None (set_link node False None (set_parent node None ob)))
          in Some (ob, True, None)
      | Some root \<Rightarrow>
          (case descend cmp val ob (val node) root of None \<Rightarrow> None
           | Some (Inl c) \<Rightarrow> Some (ob, False, Some c)
           | Some (Inr (c, side)) \<Rightarrow>
               let ob = set_link c side (Some node) ob;
                   ob = set_balance node 0 (set_link node True None (set_link node False None (set_parent node (Some c) ob)))
               in map_option (\<lambda>ob. (ob, True, Some c)) (BAVL_rebalance ob c side 1)))"

definition BAVL_IsEmpty :: "BAVL \<Rightarrow> bool" where "BAVL_IsEmpty ob = (av_root ob = None)"

definition BAVL_Lookup :: "('v \<Rightarrow> 'v \<Rightarrow> int) \<Rightarrow> (nat \<Rightarrow> 'v) \<Rightarrow> BAVL \<Rightarrow> 'v \<Rightarrow> nat option option" where
  "BAVL_Lookup cmp val ob v =
     (case av_root ob of None \<Rightarrow> Some None
      | Some c \<Rightarrow> map_option (\<lambda>r. case r of Inl c \<Rightarrow> Some c | Inr (c, side) \<Rightarrow> Some c) (descend cmp val ob v c))"

definition BAVL_LookupExact :: "('v \<Rightarrow> 'v \<Rightarrow> int) \<Rightarrow> (nat \<Rightarrow> 'v) \<Rightarrow> BAVL \<Rightarrow> 'v \<Rightarrow> nat option option" where
  "BAVL_LookupExact cmp val ob v =
     (case av_root ob of None \<Rightarrow> Some None
      | Some c \<Rightarrow> map_option (\<lambda>r. case r of Inl c \<Rightarrow> Some c | Inr (c, side) \<Rightarrow> None) (descend cmp val ob v c))"

subsection \<open>Trees in memory\<close>

fun is_tree :: "(nat \<Rightarrow> BAVLNode) \<Rightarrow> nat option \<Rightarrow> nat option \<Rightarrow> nat tree \<Rightarrow> bool" where
  "is_tree h par p Leaf \<longleftrightarrow> p = None"
| "is_tree h par p (Node l x r) \<longleftrightarrow> p = Some x \<and> bn_parent (h x) = par \<and>
     is_tree h (Some x) (bn_link (h x) False) l \<and> is_tree h (Some x) (bn_link (h x) True) r"

fun bal_ok :: "(nat \<Rightarrow> BAVLNode) \<Rightarrow> nat tree \<Rightarrow> bool" where
  "bal_ok h Leaf \<longleftrightarrow> True"
| "bal_ok h (Node l x r) \<longleftrightarrow> bn_balance (h x) = int (height r) - int (height l) \<and> \<bar>bn_balance (h x)\<bar> \<le> 1 \<and> bal_ok h l \<and> bal_ok h r"

text \<open>A node by its sides: \<open>a\<close> is on the side \<open>d\<close>.\<close>

definition nd :: "bool \<Rightarrow> nat \<Rightarrow> nat tree \<Rightarrow> nat tree \<Rightarrow> nat tree" where
  "nd d x a b = (if d then Node b x a else Node a x b)"

lemma nd_not: "nd (\<not> d) x a b = nd d x b a"
  by (simp add: nd_def)

lemma is_tree_nd: "is_tree h par p (nd d x a b) \<longleftrightarrow> p = Some x \<and> bn_parent (h x) = par \<and>
    is_tree h (Some x) (bn_link (h x) d) a \<and> is_tree h (Some x) (bn_link (h x) (\<not> d)) b"
  by (auto simp: nd_def)

lemma bal_ok_nd: "bal_ok h (nd d x a b) \<longleftrightarrow> bn_balance (h x) = BAVL_OPTNEG (int (height b) - int (height a)) d \<and>
    \<bar>int (height b) - int (height a)\<bar> \<le> 1 \<and> bal_ok h a \<and> bal_ok h b"
  by (auto simp: nd_def BAVL_OPTNEG_def)

lemma set_nd [simp]: "set_tree (nd d x a b) = insert x (set_tree a \<union> set_tree b)"
  by (auto simp: nd_def)

lemma height_nd [simp]: "height (nd d x a b) = max (height a) (height b) + 1"
  by (simp add: nd_def max.commute)

lemma nd_cases: "t = Leaf \<or> (\<exists>x a b. t = nd d x a b)"
  by (cases t; cases d) (auto simp: nd_def)

text \<open>
  The place of a subtree: the nodes on the way up to the root, each with the side the subtree is on
  and the tree on the other side.
\<close>

type_synonym place = "(bool \<times> nat \<times> nat tree) list"

fun plug :: "nat tree \<Rightarrow> place \<Rightarrow> nat tree" where
  "plug t [] = t"
| "plug t ((s, x, u) # fs) = plug (nd s x t u) fs"

fun is_place :: "(nat \<Rightarrow> BAVLNode) \<Rightarrow> nat option \<Rightarrow> place \<Rightarrow> nat option \<Rightarrow> nat option \<Rightarrow> bool" where
  "is_place h root [] par p \<longleftrightarrow> par = None \<and> root = p"
| "is_place h root ((s, x, u) # fs) par p \<longleftrightarrow> par = Some x \<and> bn_link (h x) s = p \<and>
     is_tree h (Some x) (bn_link (h x) (\<not> s)) u \<and> is_place h root fs (bn_parent (h x)) (Some x)"

fun place_set :: "place \<Rightarrow> nat set" where
  "place_set [] = {}"
| "place_set ((s, x, u) # fs) = insert x (set_tree u \<union> place_set fs)"

fun place_bal :: "(nat \<Rightarrow> BAVLNode) \<Rightarrow> int \<Rightarrow> place \<Rightarrow> bool" where
  "place_bal h k [] \<longleftrightarrow> True"
| "place_bal h k ((s, x, u) # fs) \<longleftrightarrow> bn_balance (h x) = BAVL_OPTNEG (int (height u) - k) s \<and> \<bar>int (height u) - k\<bar> \<le> 1 \<and>
     bal_ok h u \<and> place_bal h (max k (int (height u)) + 1) fs"

lemma is_tree_plug: "is_tree h None root (plug t fs) \<longleftrightarrow> (\<exists>par p. is_place h root fs par p \<and> is_tree h par p t)"
  by (induction fs arbitrary: t) (auto simp: is_tree_nd)

lemma bal_ok_plug: "bal_ok h (plug t fs) \<longleftrightarrow> bal_ok h t \<and> place_bal h (int (height t)) fs"
proof (induction fs arbitrary: t)
  case (Cons f fs)
  obtain s x u where f: "f = (s, x, u)" by (cases f)
  have "max (int (height t)) (int (height u)) + 1 = int (height (nd s x t u))" by simp
  then show ?case unfolding f plug.simps place_bal.simps Cons.IH bal_ok_nd by metis
qed simp

lemma set_plug [simp]: "set_tree (plug t fs) = set_tree t \<union> place_set fs"
  by (induction t fs rule: plug.induct) auto

lemma is_tree_cong: "(\<And>y. y \<in> set_tree t \<Longrightarrow> h' y = h y) \<Longrightarrow> is_tree h' par p t = is_tree h par p t"
  by (induction t arbitrary: par p) simp_all

lemma bal_ok_cong: "(\<And>y. y \<in> set_tree t \<Longrightarrow> bn_balance (h' y) = bn_balance (h y)) \<Longrightarrow> bal_ok h' t = bal_ok h t"
  by (induction t) simp_all

lemma is_place_cong: "(\<And>y. y \<in> place_set fs \<Longrightarrow> h' y = h y) \<Longrightarrow> is_place h' root fs par p = is_place h root fs par p"
proof (induction fs arbitrary: par p)
  case (Cons f fs)
  obtain s x u where f: "f = (s, x, u)" by (cases f)
  have "h' x = h x" using Cons.prems [of x] by (simp add: f)
  moreover have "is_tree h' q r u = is_tree h q r u" for q r using Cons.prems by (intro is_tree_cong) (simp add: f)
  moreover have "is_place h' root fs q r = is_place h root fs q r" for q r using Cons.prems by (intro Cons.IH) (simp add: f)
  ultimately show ?case by (simp add: f)
qed simp

lemma place_bal_cong: "(\<And>y. y \<in> place_set fs \<Longrightarrow> bn_balance (h' y) = bn_balance (h y)) \<Longrightarrow> place_bal h' k fs = place_bal h k fs"
proof (induction fs arbitrary: k)
  case (Cons f fs)
  obtain s x u where f: "f = (s, x, u)" by (cases f)
  have "bn_balance (h' x) = bn_balance (h x)" using Cons.prems [of x] by (simp add: f)
  moreover have "bal_ok h' u = bal_ok h u" using Cons.prems by (intro bal_ok_cong) (simp add: f)
  moreover have "place_bal h' k fs = place_bal h k fs" for k using Cons.prems by (intro Cons.IH) (simp add: f)
  ultimately show ?case by (simp add: f)
qed simp

lemma is_tree_upd [simp]: "x \<notin> set_tree t \<Longrightarrow> is_tree (h(x := v)) par p t = is_tree h par p t"
  by (rule is_tree_cong) auto

lemma is_place_upd [simp]: "x \<notin> place_set fs \<Longrightarrow> is_place (h(x := v)) root fs par p = is_place h root fs par p"
  by (rule is_place_cong) auto

text \<open>No node is twice in a place.\<close>

fun place_distinct :: "place \<Rightarrow> bool" where
  "place_distinct [] \<longleftrightarrow> True"
| "place_distinct ((s, x, u) # fs) \<longleftrightarrow> distinct (inorder u) \<and> x \<notin> set_tree u \<and> x \<notin> place_set fs \<and>
     set_tree u \<inter> place_set fs = {} \<and> place_distinct fs"

lemma inorder_nd: "inorder (nd s x a b) = (if s then inorder b @ [x] @ inorder a else inorder a @ [x] @ inorder b)"
  by (simp add: nd_def)

lemma distinct_nd: "distinct (inorder (nd s x a b)) \<longleftrightarrow> distinct (inorder a) \<and> distinct (inorder b) \<and>
    x \<notin> set_tree a \<and> x \<notin> set_tree b \<and> set_tree a \<inter> set_tree b = {}"
  by (cases s) (auto simp: nd_def)

lemma distinct_plug: "distinct (inorder (plug t fs)) \<longleftrightarrow>
    distinct (inorder t) \<and> set_tree t \<inter> place_set fs = {} \<and> place_distinct fs"
  by (induction t fs rule: plug.induct) (auto simp: distinct_nd)

text \<open>The nodes in front of a place and those after it.\<close>

fun place_left :: "place \<Rightarrow> nat list" where
  "place_left [] = []"
| "place_left ((s, x, u) # fs) = place_left fs @ (if s then inorder u @ [x] else [])"

fun place_right :: "place \<Rightarrow> nat list" where
  "place_right [] = []"
| "place_right ((s, x, u) # fs) = (if s then [] else x # inorder u) @ place_right fs"

lemma inorder_plug: "inorder (plug t fs) = place_left fs @ inorder t @ place_right fs"
  by (induction t fs rule: plug.induct) (auto simp: inorder_nd)

lemma plug_append: "plug t (fs @ gs) = plug (plug t fs) gs"
  by (induction t fs rule: plug.induct) auto

lemma place_append: "place_left (fs @ gs) = place_left gs @ place_left fs" "place_right (fs @ gs) = place_right fs @ place_right gs"
  by (induction fs) auto

text \<open>The tree \<open>t\<close> is what the memory holds.\<close>

definition linked :: "BAVL \<Rightarrow> nat tree \<Rightarrow> bool" where
  "linked ob t \<longleftrightarrow> is_tree (av_heap ob) None (av_root ob) t \<and> distinct (inorder t)"

lemma is_tree_root: "is_tree h par (Some x) t \<Longrightarrow> x \<in> set_tree t \<and> bn_parent (h x) = par"
  by (cases t) auto

lemma is_place_par: "is_place h root fs (Some y) p \<Longrightarrow> y \<in> place_set fs"
  by (cases fs) auto

lemma is_tree_reparent:
  "is_tree (av_heap ob) par p t \<Longrightarrow> distinct (inorder t) \<Longrightarrow> is_tree (av_heap (set_parent_if p par' ob)) par' p t"
  by (cases t) (simp_all add: set_parent_if_def set_parent_def)

lemma link_side:
  "is_place (av_heap ob) root ((s, x, u) # fs) (Some x) (Some r) \<Longrightarrow> r \<notin> set_tree u \<Longrightarrow> (Some r = link ob x True) = s"
  using is_tree_root by (cases s) (fastforce simp: link_def)+

lemma av_heap_relink: "par \<noteq> Some y \<Longrightarrow> av_heap (relink par r n ob) y = av_heap ob y"
  by (auto simp: relink_def set_link_def split: option.split)

lemma is_place_relink:
  assumes pl: "is_place (av_heap ob) (av_root ob) fs par (Some r)" and d: "place_distinct fs" and r: "r \<notin> place_set fs"
  shows "is_place (av_heap (relink par r n ob)) (av_root (relink par r n ob)) fs par n"
proof (cases fs)
  case Nil
  then show ?thesis using pl by (simp add: relink_def)
next
  case (Cons f gs)
  then obtain s x u where fs: "fs = (s, x, u) # gs" by (cases f) simp
  have par: "par = Some x" using pl by (simp add: fs)
  have side: "(Some r = link ob x True) = s" by (rule link_side [of _ "av_root ob" _ _ u gs]) (use pl r in \<open>simp_all add: fs\<close>)
  let ?h = "av_heap (relink par r n ob)"
  have u: "is_tree ?h q p u = is_tree (av_heap ob) q p u" for q p
    using d by (intro is_tree_cong av_heap_relink) (auto simp: fs par)
  have gs: "is_place ?h q gs p p' = is_place (av_heap ob) q gs p p'" for q p p'
    using d by (intro is_place_cong av_heap_relink) (auto simp: fs par)
  have x: "?h x = (av_heap ob x)\<lparr>bn_link := (bn_link (av_heap ob x))(s := n)\<rparr>" "av_root (relink par r n ob) = av_root ob"
    unfolding relink_def par by (simp_all add: side set_link_def)
  show ?thesis using pl unfolding fs is_place.simps u gs x by simp
qed

subsection \<open>Rotation\<close>

definition rotated :: "BAVL \<Rightarrow> nat \<Rightarrow> nat \<Rightarrow> bool \<Rightarrow> BAVL" where
  "rotated ob r nr d =
     (let h = av_heap ob;
          ob = set_parent_if (bn_link (h nr) d) (Some r) (relink (bn_parent (h r)) r (Some nr) ob)
      in ob\<lparr>av_heap := (av_heap ob)(
           r := (h r)\<lparr>bn_parent := Some nr, bn_link := (bn_link (h r))(\<not> d := bn_link (h nr) d)\<rparr>,
           nr := (h nr)\<lparr>bn_parent := bn_parent (h r), bn_link := (bn_link (h nr))(d := Some r)\<rparr>)\<rparr>)"

lemma BAVL_rotate_rotated:
  assumes "bn_link (av_heap ob r) (\<not> d) = Some nr" "r \<noteq> nr"
    and q: "bn_link (av_heap ob nr) d \<noteq> Some r" "bn_link (av_heap ob nr) d \<noteq> Some nr"
    and par: "bn_parent (av_heap ob r) \<noteq> Some r" "bn_parent (av_heap ob r) \<noteq> Some nr"
      "bn_parent (av_heap ob r) = None \<or> bn_parent (av_heap ob r) \<noteq> bn_link (av_heap ob nr) d"
  shows "BAVL_rotate ob r d = Some (rotated ob r nr d)"
  using assms
  by (cases "bn_link (av_heap ob nr) d"; cases "bn_parent (av_heap ob r)")
    (auto simp: BAVL_rotate_def rotated_def Let_def relink_def link_def parent_def set_parent_if_def set_parent_def set_link_def
      fun_eq_iff intro!: BAVL.equality)

lemma BAVL_rotate_spec:
  assumes l: "linked ob (plug (nd (\<not> d) r (nd d nr b c) a) fs)"
  shows "\<exists>ob'. BAVL_rotate ob r d = Some ob' \<and> linked ob' (plug (nd d nr (nd (\<not> d) r b a) c) fs) \<and>
     (\<forall>y. bn_balance (av_heap ob' y) = bn_balance (av_heap ob y)) \<and>
     (\<forall>y. y \<notin> {r, nr} \<union> set_tree b \<union> place_set fs \<longrightarrow> av_heap ob' y = av_heap ob y)"
proof -
  let ?h = "av_heap ob"
  obtain par p where pl: "is_place ?h (av_root ob) fs par p" and t: "is_tree ?h par p (nd (\<not> d) r (nd d nr b c) a)"
    and dis: "distinct (inorder (nd (\<not> d) r (nd d nr b c) a))" "place_distinct fs"
      "({r, nr} \<union> set_tree a \<union> set_tree b \<union> set_tree c) \<inter> place_set fs = {}"
    using l by (auto simp: linked_def is_tree_plug distinct_plug)
  note t = t [unfolded is_tree_nd not_not] and dis = dis [unfolded distinct_nd set_nd]
  let ?q = "bn_link (?h nr) d"
  let ?o1 = "relink par r (Some nr) ob" and ?o2 = "set_parent_if ?q (Some r) (relink par r (Some nr) ob)"
  have par: "par = Some y \<Longrightarrow> y \<in> place_set fs" for y using pl is_place_par by auto
  have q: "?q = Some y \<Longrightarrow> y \<in> set_tree b" for y using t is_tree_root [of ?h "Some nr" y b] by simp
  have dd: "r \<noteq> nr" "r \<notin> set_tree a" "r \<notin> set_tree b" "r \<notin> set_tree c" "nr \<notin> set_tree a" "nr \<notin> set_tree b" "nr \<notin> set_tree c"
    "r \<notin> place_set fs" "nr \<notin> place_set fs" "set_tree a \<inter> place_set fs = {}" "set_tree b \<inter> place_set fs = {}"
    "set_tree c \<inter> place_set fs = {}" "set_tree a \<inter> set_tree b = {}" "set_tree b \<inter> set_tree c = {}" "distinct (inorder b)"
    using dis by auto
  have rp: "bn_parent (?h r) = par" "bn_link (?h r) (\<not> d) = Some nr" "p = Some r" using t by auto
  have rot: "BAVL_rotate ob r d = Some (rotated ob r nr d)"
  proof (rule BAVL_rotate_rotated)
    show "bn_parent (?h r) = None \<or> bn_parent (?h r) \<noteq> ?q" using dd(11) par q unfolding rp by (cases par) (simp, metis disjoint_iff)
  qed (use dd par q rp in auto)
  have h1: "av_heap ?o1 y = ?h y" if "y \<notin> place_set fs" for y using par that by (intro av_heap_relink) auto
  have o2: "av_heap ?o2 y = av_heap ?o1 y" if "y \<notin> set_tree b" for y
    using q that by (auto simp: set_parent_if_def set_parent_def split: option.split)
  have r2: "av_root ?o2 = av_root ?o1" by (simp add: set_parent_if_def set_parent_def split: option.split)
  have "is_tree (av_heap ?o1) (Some nr) ?q b"
    using t dd(11) by (subst is_tree_cong [of b _ ?h]) (auto intro!: h1)
  then have b: "is_tree (av_heap ?o2) (Some r) ?q b" using dd(15) by (rule is_tree_reparent)
  have a: "is_tree (av_heap ?o2) q' p' a = is_tree ?h q' p' a" for q' p'
    using dd(10,13) by (intro is_tree_cong) (metis disjoint_iff h1 o2)
  have c: "is_tree (av_heap ?o2) q' p' c = is_tree ?h q' p' c" for q' p'
    using dd(12,14) by (intro is_tree_cong) (metis disjoint_iff h1 o2)
  have "is_place (av_heap ?o1) (av_root ?o1) fs par (Some nr)"
    using pl dis(2) dd(8) unfolding rp by (rule is_place_relink)
  then have fs: "is_place (av_heap ?o2) (av_root ?o2) fs par (Some nr)"
    unfolding r2 using dd(11) by (subst is_place_cong [of _ _ "av_heap ?o1"]) (auto intro!: o2)
  let ?h' = "av_heap (rotated ob r nr d)"
  have new: "?h' y = (if y = nr then (?h nr)\<lparr>bn_parent := par, bn_link := (bn_link (?h nr))(d := Some r)\<rparr>
      else if y = r then (?h r)\<lparr>bn_parent := Some nr, bn_link := (bn_link (?h r))(\<not> d := ?q)\<rparr> else av_heap ?o2 y)"
    "av_root (rotated ob r nr d) = av_root ?o2" for y
    by (simp_all add: rotated_def Let_def rp)
  have keep: "is_tree ?h' q' p' x = is_tree (av_heap ?o2) q' p' x" if "r \<notin> set_tree x" "nr \<notin> set_tree x" for x q' p'
    using that by (intro is_tree_cong) (auto simp: new)
  have "is_tree ?h' par (Some nr) (nd d nr (nd (\<not> d) r b a) c)"
    using t dd b by (simp add: is_tree_nd keep a c new(1) [of r] new(1) [of nr])
  moreover have "is_place ?h' (av_root (rotated ob r nr d)) fs par (Some nr)"
    unfolding new(2) using fs dd by (subst is_place_cong [of _ _ "av_heap ?o2"]) (auto simp: new(1))
  moreover have "distinct (inorder (plug (nd d nr (nd (\<not> d) r b a) c) fs))"
    using dis by (auto simp: distinct_plug distinct_nd)
  moreover have "bn_balance (?h' y) = bn_balance (?h y)" for y
    by (simp add: new set_parent_if_def set_parent_def relink_def set_link_def split: option.split)
  moreover have "?h' y = ?h y" if "y \<notin> {r, nr} \<union> set_tree b \<union> place_set fs" for y
    using that by (simp add: new o2 h1)
  ultimately show ?thesis using rot unfolding linked_def is_tree_plug by blast
qed

subsection \<open>Rebalancing\<close>

lemma is_tree_links:
  "(\<And>y. bn_parent (h' y) = bn_parent (h y)) \<Longrightarrow> (\<And>y. bn_link (h' y) = bn_link (h y)) \<Longrightarrow> is_tree h' par p t = is_tree h par p t"
  by (induction t arbitrary: par p) simp_all

lemma linked_set_balance [simp]: "linked (set_balance x b ob) t = linked ob t"
  unfolding linked_def by (subst is_tree_links [of _ "av_heap ob"]) (auto simp: set_balance_def)

lemma balance_set_balance [simp]:
  "bn_balance (av_heap (set_balance x b ob) y) = (if y = x then b else bn_balance (av_heap ob y))"
  "bn_link (av_heap (set_balance x b ob) y) = bn_link (av_heap ob y)"
  "bn_parent (av_heap (set_balance x b ob) y) = bn_parent (av_heap ob y)"
  by (auto simp: set_balance_def)

lemma heap_set_balance: "y \<noteq> x \<Longrightarrow> av_heap (set_balance x b ob) y = av_heap ob y"
  by (simp add: set_balance_def)

lemma linked_link:
  assumes "linked ob (plug (nd s x t u) fs)"
  shows "is_tree (av_heap ob) (Some x) (bn_link (av_heap ob x) s) t"
  using assms by (auto simp: linked_def is_tree_plug is_tree_nd)

text \<open>What a step leaves: a tree with the same sequence of nodes, in balance, at the same place.\<close>

definition settled :: "BAVL \<Rightarrow> BAVL \<Rightarrow> nat tree \<Rightarrow> nat \<Rightarrow> nat tree \<Rightarrow> place \<Rightarrow> bool" where
  "settled ob ob' t x' t' fs \<longleftrightarrow> linked ob' (plug t' fs) \<and> inorder t' = inorder t \<and> bal_ok (av_heap ob') t' \<and>
     (\<exists>l r. t' = Node l x' r) \<and>
     (\<forall>y. y \<in> place_set fs \<longrightarrow> bn_balance (av_heap ob' y) = bn_balance (av_heap ob y)) \<and>
     (\<forall>y. y \<notin> set_tree t \<union> place_set fs \<longrightarrow> av_heap ob' y = av_heap ob y)"

lemma nd_root: "\<exists>l r. nd s x a b = Node l x r"
  by (simp add: nd_def)

lemma linked_distinct: "linked ob (plug t fs) \<Longrightarrow> distinct (inorder t) \<and> set_tree t \<inter> place_set fs = {}"
  by (simp add: linked_def distinct_plug)

lemma transform_single:
  assumes l: "linked ob (plug (nd bs x (nd bs c C D) B) fs)"
    and bal: "bal_ok (av_heap ob) C" "bal_ok (av_heap ob) D" "bal_ok (av_heap ob) B"
    and h: "height C = height B + 1" "height D = height B \<or> height D = height B + 1"
    and b: "bx = BAVL_OPTNEG (int (height B) - int (height D)) bs" "bc = BAVL_OPTNEG (int (height B) - int (height D)) (\<not> bs)"
  shows "\<exists>ob1. BAVL_rotate ob x (\<not> bs) = Some ob1 \<and>
     settled ob (set_balance c bc (set_balance x bx ob1)) (nd bs x (nd bs c C D) B) c (nd (\<not> bs) c (nd bs x D B) C) fs"
proof -
  let ?t = "nd (\<not> bs) c (nd bs x D B) C"
  have "linked ob (plug (nd (\<not> \<not> bs) x (nd (\<not> bs) c D C) B) fs)" using l by (simp add: nd_not)
  from BAVL_rotate_spec [OF this] obtain ob1 where o1: "BAVL_rotate ob x (\<not> bs) = Some ob1" "linked ob1 (plug ?t fs)"
      "\<And>y. bn_balance (av_heap ob1 y) = bn_balance (av_heap ob y)"
      "\<And>y. y \<notin> {x, c} \<union> set_tree D \<union> place_set fs \<Longrightarrow> av_heap ob1 y = av_heap ob y"
    by auto
  let ?o = "set_balance c bc (set_balance x bx ob1)"
  have dis: "distinct (inorder ?t)" "set_tree ?t \<inter> place_set fs = {}" using linked_distinct [OF o1(2)] by auto
  have keep: "bn_balance (av_heap ?o y) = bn_balance (av_heap ob y)" if "y \<noteq> x" "y \<noteq> c" for y using that by (simp add: o1)
  have sub: "bal_ok (av_heap ?o) T = bal_ok (av_heap ob) T" if "x \<notin> set_tree T" "c \<notin> set_tree T" for T
    using that by (intro bal_ok_cong keep) auto
  have "x \<noteq> c" "bal_ok (av_heap ?o) C" "bal_ok (av_heap ?o) D" "bal_ok (av_heap ?o) B"
    using dis bal by (auto simp: distinct_nd sub)
  then have "bal_ok (av_heap ?o) ?t" using h b by (auto simp: bal_ok_nd BAVL_OPTNEG_def)
  moreover have "inorder ?t = inorder (nd bs x (nd bs c C D) B)" by (simp add: inorder_nd)
  moreover have "av_heap ?o y = av_heap ob y" if "y \<notin> set_tree (nd bs x (nd bs c C D) B) \<union> place_set fs" for y
    using that o1(4) [of y] by (simp add: heap_set_balance)
  moreover have "bn_balance (av_heap ?o y) = bn_balance (av_heap ob y)" if "y \<in> place_set fs" for y
    using dis(2) that by (intro keep) auto
  ultimately show ?thesis using o1(1,2) nd_root unfolding settled_def by (metis linked_set_balance)
qed

lemma transform_double:
  assumes l: "linked ob (plug (nd bs x (nd bs c C (nd bs g E F)) B) fs)"
    and bal: "bal_ok (av_heap ob) C" "bal_ok (av_heap ob) (nd bs g E F)" "bal_ok (av_heap ob) B"
    and h: "height C = height B" "height (nd bs g E F) = height B + 1"
  shows "\<exists>ob1 ob2. BAVL_rotate ob c bs = Some ob1 \<and> BAVL_rotate ob1 x (\<not> bs) = Some ob2 \<and>
     balance ob2 g = BAVL_OPTNEG (int (height F) - int (height E)) bs \<and>
     settled ob (set_balance g 0 (set_balance c (BAVL_OPTNEG (int (height C) - int (height E)) (\<not> bs))
         (set_balance x (BAVL_OPTNEG (int (height B) - int (height F)) bs) ob2)))
       (nd bs x (nd bs c C (nd bs g E F)) B) g (nd (\<not> bs) g (nd bs x F B) (nd (\<not> bs) c E C)) fs"
proof -
  let ?t = "nd (\<not> bs) g (nd bs x F B) (nd (\<not> bs) c E C)"
  have "linked ob (plug (nd (\<not> bs) c (nd bs g E F) C) ((bs, x, B) # fs))" using l by (simp add: nd_not)
  from BAVL_rotate_spec [OF this] obtain ob1 where o1: "BAVL_rotate ob c bs = Some ob1"
      "linked ob1 (plug (nd bs g (nd (\<not> bs) c E C) F) ((bs, x, B) # fs))"
      "\<And>y. bn_balance (av_heap ob1 y) = bn_balance (av_heap ob y)"
      "\<And>y. y \<notin> {c, g} \<union> set_tree E \<union> place_set ((bs, x, B) # fs) \<Longrightarrow> av_heap ob1 y = av_heap ob y"
    by auto
  have "linked ob1 (plug (nd (\<not> \<not> bs) x (nd (\<not> bs) g F (nd (\<not> bs) c E C)) B) fs)" using o1(2) by (simp add: nd_not)
  from BAVL_rotate_spec [OF this] obtain ob2 where o2: "BAVL_rotate ob1 x (\<not> bs) = Some ob2" "linked ob2 (plug ?t fs)"
      "\<And>y. bn_balance (av_heap ob2 y) = bn_balance (av_heap ob1 y)"
      "\<And>y. y \<notin> {x, g} \<union> set_tree F \<union> place_set fs \<Longrightarrow> av_heap ob2 y = av_heap ob1 y"
    by auto
  let ?o = "set_balance g 0 (set_balance c (BAVL_OPTNEG (int (height C) - int (height E)) (\<not> bs))
         (set_balance x (BAVL_OPTNEG (int (height B) - int (height F)) bs) ob2))"
  have dis: "distinct (inorder ?t)" "set_tree ?t \<inter> place_set fs = {}" using linked_distinct [OF o2(2)] by auto
  have keep: "bn_balance (av_heap ?o y) = bn_balance (av_heap ob y)" if "y \<noteq> x" "y \<noteq> c" "y \<noteq> g" for y
    using that by (simp add: o1 o2)
  have sub: "bal_ok (av_heap ?o) T = bal_ok (av_heap ob) T" if "x \<notin> set_tree T" "c \<notin> set_tree T" "g \<notin> set_tree T" for T
    using that by (intro bal_ok_cong keep) auto
  have "x \<noteq> c" "x \<noteq> g" "c \<noteq> g" "bal_ok (av_heap ?o) C" "bal_ok (av_heap ?o) E" "bal_ok (av_heap ?o) F" "bal_ok (av_heap ?o) B"
    using dis bal by (auto simp: distinct_nd sub bal_ok_nd)
  then have "bal_ok (av_heap ?o) ?t" using h bal(2) by (auto simp: bal_ok_nd BAVL_OPTNEG_def)
  moreover have "inorder ?t = inorder (nd bs x (nd bs c C (nd bs g E F)) B)" by (simp add: inorder_nd)
  moreover have "av_heap ?o y = av_heap ob y" if "y \<notin> set_tree (nd bs x (nd bs c C (nd bs g E F)) B) \<union> place_set fs" for y
    using that o1(4) [of y] o2(4) [of y] by (simp add: heap_set_balance)
  moreover have "bn_balance (av_heap ?o y) = bn_balance (av_heap ob y)" if "y \<in> place_set fs" for y
    using dis(2) that by (intro keep) auto
  moreover have "balance ob2 g = BAVL_OPTNEG (int (height F) - int (height E)) bs"
    using bal(2) by (simp add: balance_def o1 o2 bal_ok_nd)
  ultimately show ?thesis using o1(1) o2(1,2) nd_root unfolding settled_def by (metis linked_set_balance)
qed

lemma linked_child:
  "linked ob (plug (nd s x (nd s' c C D) u) fs) \<Longrightarrow> link ob x s = Some c"
  using linked_link by (fastforce simp: link_def is_tree_nd)

lemma BAVL_transform_spec:
  assumes l: "linked ob (plug (nd bs x A B) fs)" and bal: "bal_ok (av_heap ob) A" "bal_ok (av_heap ob) B"
    and hA: "height A = height B + 2"
  shows "\<exists>ob' x' t' d. BAVL_transform ob x bs delta = Some (ob', x', delta + d) \<and> settled ob ob' (nd bs x A B) x' t' fs \<and>
     int (height t') = int (height A) + 1 + d \<and> (d = 0 \<or> d = -1)"
proof -
  obtain c C D where A: "A = nd bs c C D" using hA nd_cases [of A bs] by auto
  have bal': "bal_ok (av_heap ob) C" "bal_ok (av_heap ob) D" "\<bar>int (height D) - int (height C)\<bar> \<le> 1"
    "balance ob c = BAVL_OPTNEG (int (height D) - int (height C)) bs" using bal by (auto simp: A bal_ok_nd balance_def)
  note lk = linked_child [OF l [unfolded A]]
  consider "height C = height B + 1" "height D = height B" | "height C = height B + 1" "height D = height B + 1"
    | "height C = height B" "height D = height B + 1" using hA bal'(3) by (simp add: A) linarith
  then show ?thesis
  proof cases
    case 1
    then obtain ob1 where o1: "BAVL_rotate ob x (\<not> bs) = Some ob1"
        "settled ob (set_balance c 0 (set_balance x 0 ob1)) (nd bs x A B) c (nd (\<not> bs) c (nd bs x D B) C) fs"
      using transform_single [OF l [unfolded A] bal'(1,2) bal(2), of 0 0] by (cases bs) (auto simp: BAVL_OPTNEG_def A)
    then have "BAVL_transform ob x bs delta = Some (set_balance c 0 (set_balance x 0 ob1), c, delta + -1)"
      using 1 lk bal'(4) by (cases bs) (simp_all add: BAVL_transform_def BAVL_OPTNEG_def)
    then show ?thesis using o1(2) 1 A by (intro exI conjI) (assumption, assumption, auto)
  next
    case 2
    let ?f = "if bs then 1 else -1 :: int"
    obtain ob1 where o1: "BAVL_rotate ob x (\<not> bs) = Some ob1"
        "settled ob (set_balance c (- ?f) (set_balance x ?f ob1)) (nd bs x A B) c (nd (\<not> bs) c (nd bs x D B) C) fs"
      using 2 transform_single [OF l [unfolded A] bal'(1,2) bal(2), of ?f "- ?f"] by (cases bs) (auto simp: BAVL_OPTNEG_def A)
    then have "BAVL_transform ob x bs delta = Some (set_balance c (- ?f) (set_balance x ?f ob1), c, delta + 0)"
      using 2 lk bal'(4) by (cases bs) (simp_all add: BAVL_transform_def BAVL_OPTNEG_def)
    then show ?thesis using o1(2) 2 A by (intro exI conjI) (assumption, assumption, auto)
  next
    case 3
    then obtain g E F where D: "D = nd bs g E F" using nd_cases [of D bs] by auto
    let ?f = "if bs then 1 else -1 :: int"
    let ?o = "\<lambda>ob2. set_balance g 0 (set_balance c (BAVL_OPTNEG (int (height C) - int (height E)) (\<not> bs))
         (set_balance x (BAVL_OPTNEG (int (height B) - int (height F)) bs) ob2))"
    have "linked ob (plug (nd (\<not> bs) c (nd bs g E F) C) ((bs, x, B) # fs))" using l by (simp add: A D nd_not)
    note lk2 = linked_child [OF this]
    from 3 obtain ob1 ob2 where o2: "BAVL_rotate ob c bs = Some ob1" "BAVL_rotate ob1 x (\<not> bs) = Some ob2"
        "balance ob2 g = BAVL_OPTNEG (int (height F) - int (height E)) bs"
        "settled ob (?o ob2) (nd bs x A B) g (nd (\<not> bs) g (nd bs x F B) (nd (\<not> bs) c E C)) fs"
      using transform_double [OF l [unfolded A D] bal'(1) bal'(2) [unfolded D] bal(2)] by (auto simp: A D)
    have hh: "max (int (height E)) (int (height F)) = int (height B)" "int (height C) = int (height B)" using 3 by (auto simp: D)
    have "BAVL_OPTNEG (int (height C) - int (height E)) (\<not> bs) = max 0 (- balance ob2 g * ?f) * ?f"
      "BAVL_OPTNEG (int (height B) - int (height F)) bs = - max 0 (balance ob2 g * ?f) * ?f"
      using hh unfolding o2(3) by (auto simp: BAVL_OPTNEG_def max_def split: if_splits)
    then have "BAVL_transform ob x bs delta = Some (?o ob2, g, delta + -1)"
      using 3 o2(1,2) lk lk2 bal'(4) by (cases bs) (simp_all add: BAVL_transform_def BAVL_OPTNEG_def Let_def)
    then show ?thesis using o2(4) 3 hh A by (intro exI conjI) (assumption, assumption, auto)
  qed
qed

lemma settled_set_balance:
  "x \<in> set_tree t \<Longrightarrow> set_tree t \<inter> place_set fs = {} \<Longrightarrow> settled (set_balance x b ob) ob' t x' t' fs \<Longrightarrow> settled ob ob' t x' t' fs"
  unfolding settled_def by (metis UnCI balance_set_balance(1) disjoint_iff heap_set_balance)

text \<open>
  The subtree on the side \<open>s\<close> of \<open>x\<close> had the height \<open>k\<close> and now has \<open>k + dc\<close>; the stored balance of \<open>x\<close>
  and those above are still for \<open>k\<close>.
\<close>

definition off_by :: "BAVL \<Rightarrow> bool \<Rightarrow> nat \<Rightarrow> nat tree \<Rightarrow> nat tree \<Rightarrow> int \<Rightarrow> int \<Rightarrow> bool" where
  "off_by ob s x t u k dc \<longleftrightarrow> bal_ok (av_heap ob) t \<and> bal_ok (av_heap ob) u \<and> int (height t) = k + dc \<and>
     bn_balance (av_heap ob x) = BAVL_OPTNEG (int (height u) - k) s \<and> \<bar>int (height u) - k\<bar> \<le> 1"

lemma BAVL_rebalance_node_spec:
  assumes l: "linked ob (plug (nd s x t u) fs)" and off: "off_by ob s x t u k dc" and dc: "dc = 1 \<or> dc = -1"
  shows "\<exists>ob' x' t' delta. BAVL_rebalance_node ob x s dc = Some (ob', x', delta) \<and> settled ob ob' (nd s x t u) x' t' fs \<and>
     int (height t') = max k (int (height u)) + 1 + delta \<and> -1 \<le> delta \<and> delta \<le> 1"
proof -
  define D where "D = int (height u) - k"
  define delta where "delta = max dc D - max 0 D"
  define ob1 where "ob1 = set_balance x (BAVL_OPTNEG (D - dc) s) ob"
  note off = off [unfolded off_by_def, folded D_def]
  have dis: "distinct (inorder (nd s x t u))" "set_tree (nd s x t u) \<inter> place_set fs = {}" using linked_distinct [OF l] by auto
  have bal: "bal_ok (av_heap ob1) t" "bal_ok (av_heap ob1) u"
    using off dis by (auto simp: ob1_def distinct_nd intro: bal_ok_cong [THEN iffD2, rotated])
  have l1: "linked ob1 (plug (nd s x t u) fs)" using l by (simp add: ob1_def)
  have delta: "-1 \<le> delta" "delta \<le> 1" "max (int (height t)) (int (height u)) = max k (int (height u)) + delta"
    using off dc by (auto simp: delta_def D_def)
  have ob1: "balance ob1 x = BAVL_OPTNEG (D - dc) s" by (simp add: ob1_def balance_def)
  have step: "BAVL_rebalance_node ob x s dc =
      (if \<bar>D - dc\<bar> = 2 then BAVL_transform ob1 x (BAVL_OPTNEG (D - dc) s = 2) delta else Some (ob1, x, delta))"
  proof -
    have b: "balance ob x = BAVL_OPTNEG D s" "BAVL_OPTNEG (BAVL_OPTNEG D s) s = D" "balance ob x - BAVL_OPTNEG dc s = BAVL_OPTNEG (D - dc) s"
      "(BAVL_OPTNEG (D - dc) s = 2 \<or> BAVL_OPTNEG (D - dc) s = -2) = (\<bar>D - dc\<bar> = 2)"
      using off by (auto simp: balance_def BAVL_OPTNEG_def)
    show ?thesis using delta(1,2)
      unfolding BAVL_rebalance_node_def Let_def b(3) ob1_def [symmetric] ob1 b(4) unfolding b(1,2) delta_def [symmetric] by simp
  qed
  show ?thesis
  proof (cases "\<bar>D - dc\<bar> = 2")
    case False
    then have "settled ob ob1 (nd s x t u) x (nd s x t u) fs"
      using l1 bal off dc dis ob1 nd_root
      by (auto simp: settled_def bal_ok_nd balance_def D_def heap_set_balance ob1_def algebra_simps)
    then show ?thesis using False delta by (intro exI [of _ ob1] exI [of _ x] exI [of _ "nd s x t u"] exI [of _ delta]) (simp add: step)
  next
    case True
    define bs where "bs = (BAVL_OPTNEG (D - dc) s = 2)"
    obtain A B where AB: "nd s x t u = nd bs x A B" "{A, B} = {t, u}" "height A = height B + 2"
    proof (cases "D - dc = 2")
      case True
      then have "bs = (\<not> s)" "height u = height t + 2" using off by (auto simp: bs_def BAVL_OPTNEG_def D_def)
      then show thesis using that [of u t] by (simp add: nd_not insert_commute)
    next
      case False
      then have "bs = s" "height t = height u + 2" using True off by (auto simp: bs_def BAVL_OPTNEG_def D_def)
      then show thesis using that [of t u] by simp
    qed
    have "bal_ok (av_heap ob1) A" "bal_ok (av_heap ob1) B" using AB(2) bal by (auto simp: doubleton_eq_iff)
    then obtain ob' x' t' d where o: "BAVL_transform ob1 x bs delta = Some (ob', x', delta + d)"
        "settled ob1 ob' (nd s x t u) x' t' fs" "int (height t') = int (height A) + 1 + d" "d = 0 \<or> d = -1"
      using BAVL_transform_spec [of ob1 bs x A B fs delta] l1 AB by auto
    have h: "int (height A) = max k (int (height u)) + delta" "0 \<le> delta"
      using AB(2,3) delta True off dc by (auto simp: doubleton_eq_iff D_def)
    have "settled ob ob' (nd s x t u) x' t' fs" by (rule settled_set_balance [OF _ dis(2) o(2) [unfolded ob1_def]]) simp
    moreover have "BAVL_rebalance_node ob x s dc = Some (ob', x', delta + d)" using step True o(1) by (simp add: bs_def)
    moreover have "int (height t') = max k (int (height u)) + 1 + (delta + d)" "-1 \<le> delta + d" "delta + d \<le> 1"
      using o(3,4) h delta by auto
    ultimately show ?thesis by blast
  qed
qed

lemma linked_parent:
  "linked ob (plug (Node l x r) []) \<Longrightarrow> parent ob x = None"
  "linked ob (plug (Node l x r) ((s, p, u) # fs)) \<Longrightarrow> parent ob x = Some p \<and> (Some x = link ob p True) = s"
proof -
  assume "linked ob (plug (Node l x r) ((s, p, u) # fs))"
  then have *: "is_place (av_heap ob) (av_root ob) ((s, p, u) # fs) (Some p) (Some x)" "bn_parent (av_heap ob x) = Some p"
      "x \<notin> set_tree u"
    unfolding linked_def is_tree_plug distinct_plug by auto
  then show "parent ob x = Some p \<and> (Some x = link ob p True) = s" using link_side [OF *(1,3)] by (simp add: parent_def)
qed (simp add: linked_def parent_def)

lemma off_by_balance: "off_by ob s x t u k dc \<Longrightarrow> -1 \<le> balance ob x \<and> balance ob x \<le> 1"
  by (auto simp: off_by_def balance_def BAVL_OPTNEG_def)

lemma off_by_zero:
  assumes off: "off_by ob s x t u k 0" and pb: "place_bal (av_heap ob) (max k (int (height u)) + 1) fs"
  shows "BAVL_rebalance ob x s 0 = Some ob" "bal_ok (av_heap ob) (plug (nd s x t u) fs)"
proof -
  show "BAVL_rebalance ob x s 0 = Some ob" using off_by_balance [OF off] by (subst BAVL_rebalance.simps) simp
  have "max k (int (height u)) + 1 = int (height (nd s x t u))" using off by (auto simp: off_by_def)
  moreover have "k = int (height t)" using off by (simp add: off_by_def)
  ultimately show "bal_ok (av_heap ob) (plug (nd s x t u) fs)" using off pb unfolding bal_ok_plug bal_ok_nd off_by_def by metis
qed

lemma BAVL_rebalance_step:
  assumes l: "linked ob (plug (nd s x t u) fs)" and off: "off_by ob s x t u k dc"
    and dc: "-1 \<le> dc" "dc \<le> 1" "dc \<noteq> 0"
  shows "\<exists>ob' x' l r delta. settled ob ob' (nd s x t u) x' (Node l x' r) fs \<and>
     int (height (Node l x' r)) = max k (int (height u)) + 1 + delta \<and> -1 \<le> delta \<and> delta \<le> 1 \<and>
     BAVL_rebalance ob x s dc = (case parent ob' x' of None \<Rightarrow> Some ob'
       | Some p \<Rightarrow> BAVL_rebalance ob' p (Some x' = link ob' p True) delta)"
proof -
  have "dc = 1 \<or> dc = -1" using dc by linarith
  then obtain ob' x' t' delta where n: "BAVL_rebalance_node ob x s dc = Some (ob', x', delta)"
      "settled ob ob' (nd s x t u) x' t' fs" "int (height t') = max k (int (height u)) + 1 + delta" "-1 \<le> delta" "delta \<le> 1"
    using BAVL_rebalance_node_spec [OF l off] by blast
  then obtain l r where "t' = Node l x' r" by (auto simp: settled_def)
  moreover have "BAVL_rebalance ob x s dc = (case parent ob' x' of None \<Rightarrow> Some ob'
       | Some p \<Rightarrow> BAVL_rebalance ob' p (Some x' = link ob' p True) delta)"
    using n dc off_by_balance [OF off] by (subst BAVL_rebalance.simps) simp
  ultimately show ?thesis using n(2-) by blast
qed

lemma BAVL_rebalance_spec:
  assumes "linked ob (plug (nd s x t u) fs)" "off_by ob s x t u k dc" "place_bal (av_heap ob) (max k (int (height u)) + 1) fs"
    and "-1 \<le> dc" "dc \<le> 1"
  shows "\<exists>ob' t'. BAVL_rebalance ob x s dc = Some ob' \<and> linked ob' t' \<and> bal_ok (av_heap ob') t' \<and>
     inorder t' = inorder (plug (nd s x t u) fs) \<and>
     (\<forall>y. y \<notin> set_tree (plug (nd s x t u) fs) \<longrightarrow> av_heap ob' y = av_heap ob y)"
  using assms
proof (induction fs arbitrary: ob s x t u k dc)
  case Nil
  show ?case
  proof (cases "dc = 0")
    case True
    then show ?thesis using Nil.prems off_by_zero [of ob s x t u k "[]"] by blast
  next
    case False
    then obtain ob' x' l r delta where st: "settled ob ob' (nd s x t u) x' (Node l x' r) []"
        "BAVL_rebalance ob x s dc = (case parent ob' x' of None \<Rightarrow> Some ob' | Some p \<Rightarrow> BAVL_rebalance ob' p (Some x' = link ob' p True) delta)"
      using BAVL_rebalance_step [OF Nil.prems(1,2,4,5)] by blast
    then have "BAVL_rebalance ob x s dc = Some ob'" using linked_parent(1) by (auto simp: settled_def)
    then show ?thesis using st(1) unfolding settled_def plug.simps by (intro exI [of _ ob'] exI [of _ "Node l x' r"]) auto
  qed
next
  case (Cons f fs)
  obtain s' p u' where f: "f = (s', p, u')" by (cases f)
  show ?case
  proof (cases "dc = 0")
    case True
    then show ?thesis using Cons.prems off_by_zero [of ob s x t u k "f # fs"] by blast
  next
    case False
    then obtain ob' x' l r delta where st: "settled ob ob' (nd s x t u) x' (Node l x' r) (f # fs)"
        "int (height (Node l x' r)) = max k (int (height u)) + 1 + delta" "-1 \<le> delta" "delta \<le> 1"
        "BAVL_rebalance ob x s dc = (case parent ob' x' of None \<Rightarrow> Some ob' | Some p \<Rightarrow> BAVL_rebalance ob' p (Some x' = link ob' p True) delta)"
      using BAVL_rebalance_step [OF Cons.prems(1,2,4,5)] by blast
    let ?k = "max k (int (height u)) + 1"
    have l': "linked ob' (plug (Node l x' r) (f # fs))" and in': "inorder (Node l x' r) = inorder (nd s x t u)"
      using st(1) by (auto simp: settled_def)
    have b: "bn_balance (av_heap ob' y) = bn_balance (av_heap ob y)" if "y \<in> place_set (f # fs)" for y
      using st(1) that unfolding settled_def by blast
    have eq: "BAVL_rebalance ob x s dc = BAVL_rebalance ob' p s' delta" using st(5) linked_parent(2) [OF l' [unfolded f]] by simp
    have "place_bal (av_heap ob') ?k (f # fs)" using Cons.prems(3) by (subst place_bal_cong [OF b])
    then have off: "off_by ob' s' p (Node l x' r) u' ?k delta" "place_bal (av_heap ob') (max ?k (int (height u')) + 1) fs"
      using st(1,2) unfolding f off_by_def place_bal.simps settled_def by auto
    from Cons.IH [OF l' [unfolded f plug.simps] off st(3,4)] obtain ob'' t'' where
      r: "BAVL_rebalance ob' p s' delta = Some ob''" "linked ob'' t''" "bal_ok (av_heap ob'') t''"
      "inorder t'' = inorder (plug (nd s' p (Node l x' r) u') fs)"
      "\<And>y. y \<notin> set_tree (plug (nd s' p (Node l x' r) u') fs) \<Longrightarrow> av_heap ob'' y = av_heap ob' y" by blast
    have "set_tree (Node l x' r) = set_tree (nd s x t u)" using in' by (metis set_inorder)
    moreover have i: "inorder (plug (nd s' p (Node l x' r) u') fs) = inorder (plug (nd s x t u) (f # fs))"
      using in' by (simp only: f plug.simps inorder_plug inorder_nd)
    moreover have "av_heap ob' y = av_heap ob y" if "y \<notin> set_tree (nd s x t u) \<union> place_set (f # fs)" for y
      using st(1) that unfolding settled_def by blast
    ultimately have "av_heap ob'' y = av_heap ob y" if "y \<notin> set_tree (plug (nd s x t u) (f # fs))" for y
      using r(5) [of y] that unfolding f plug.simps set_plug set_nd place_set.simps by auto
    then show ?thesis using r(1) [folded eq] r(2,3) trans [OF r(4) i]
      by (intro exI [of _ ob''] exI [of _ t''] conjI allI impI) assumption+
  qed
qed

subsection \<open>Search\<close>

text \<open>
  The descent in the subtree \<open>t\<close> of \<open>c\<close> finds an equal value, or a free place with the smaller values in
  front of it and the greater ones after it.
\<close>

definition descended :: "('v \<Rightarrow> 'v \<Rightarrow> int) \<Rightarrow> (nat \<Rightarrow> 'v) \<Rightarrow> BAVL \<Rightarrow> 'v \<Rightarrow> nat \<Rightarrow> nat tree \<Rightarrow> bool" where
  "descended cmp val ob v c t \<longleftrightarrow>
    (\<exists>y. descend cmp val ob v c = Some (Inl y) \<and> y \<in> set_tree t \<and> cmp v (val y) = 0) \<or>
    (\<exists>s c' u fs. descend cmp val ob v c = Some (Inr (c', s)) \<and> t = plug Leaf ((s, c', u) # fs) \<and>
      (\<forall>x\<in>set (place_left ((s, c', u) # fs)). cmp v (val x) = 1) \<and> (\<forall>x\<in>set (place_right ((s, c', u) # fs)). cmp v (val x) = -1))"

text \<open>What the documentation of \<open>BAVL_comparator\<close> asks of it.\<close>

locale bavl_order = tree_order cmp for cmp :: "'v \<Rightarrow> 'v \<Rightarrow> int" +
  assumes cmp_range: "cmp x y = -1 \<or> cmp x y = 0 \<or> cmp x y = 1"
begin

lemma compare_values: "BAVL_compare_values cmp x y = Some (cmp x y)"
  using cmp_range [of x y] by (auto simp: BAVL_compare_values_def)

lemma descend_step:
  "descend cmp val ob v c =
     (if cmp v (val c) = 0 then Some (Inl c)
      else case link ob c (cmp v (val c) = 1) of None \<Rightarrow> Some (Inr (c, cmp v (val c) = 1)) | Some c' \<Rightarrow> descend cmp val ob v c')"
  by (subst descend.simps) (simp add: compare_values Let_def)

lemma cmp_pos_trans: "cmp x y = 1 \<Longrightarrow> cmp z y < 0 \<Longrightarrow> cmp x z = 1"
  using cmp_less_trans [of z y x] cmp_range [of x z] cmp_sym [of x y] cmp_sym [of x z] by linarith

lemma cmp_neg_trans: "cmp x y = -1 \<Longrightarrow> cmp y z < 0 \<Longrightarrow> cmp x z = -1"
  using cmp_less_trans [of x y z] cmp_range [of x z] by linarith

lemma descended_side:
  assumes cm: "cmp v (val c) = (if s then 1 else -1)" and u: "\<forall>y\<in>set_tree u. cmp v (val y) = (if s then 1 else -1)"
    and t: "is_tree (av_heap ob) (Some c) (link ob c s) t"
    and IH: "\<And>c'. link ob c s = Some c' \<Longrightarrow> descended cmp val ob v c' t"
  shows "descended cmp val ob v c (nd s c t u)"
proof (cases "link ob c s")
  case None
  then have "t = Leaf" using t by (cases t) auto
  moreover have "descend cmp val ob v c = Some (Inr (c, s))" using None cm by (subst descend_step) (auto split: if_splits)
  moreover have "nd s c Leaf u = plug Leaf [(s, c, u)]" by simp
  ultimately show ?thesis using cm u unfolding descended_def
    by (intro disjI2 exI [of _ s] exI [of _ c] exI [of _ u] exI [of _ "[]"]) auto
next
  case (Some c')
  then have d: "descend cmp val ob v c = descend cmp val ob v c'" using cm by (subst descend_step) (auto split: if_splits)
  from IH [OF Some, unfolded descended_def] show ?thesis
  proof (elim disjE exE conjE)
    fix s' c'' u' fs
    assume p: "descend cmp val ob v c' = Some (Inr (c'', s'))" "t = plug Leaf ((s', c'', u') # fs)"
      "\<forall>x\<in>set (place_left ((s', c'', u') # fs)). cmp v (val x) = 1" "\<forall>x\<in>set (place_right ((s', c'', u') # fs)). cmp v (val x) = -1"
    let ?fs = "(s', c'', u') # (fs @ [(s, c, u)])"
    have t: "nd s c t u = plug Leaf ?fs" by (simp add: p(2) plug_append)
    have "set (place_left ?fs) \<subseteq> set (place_left ((s', c'', u') # fs)) \<union> (if s then insert c (set_tree u) else {})"
      by (auto simp: place_append)
    then have l: "\<forall>x\<in>set (place_left ?fs). cmp v (val x) = 1" using p(3) cm u by (cases s) auto
    have "set (place_right ?fs) \<subseteq> set (place_right ((s', c'', u') # fs)) \<union> (if s then {} else insert c (set_tree u))"
      by (auto simp: place_append)
    then have r: "\<forall>x\<in>set (place_right ?fs). cmp v (val x) = -1" using p(4) cm u by (cases s) auto
    from p(1) t l r show ?thesis unfolding descended_def d by blast
  qed (use d in \<open>auto simp: descended_def\<close>)
qed

lemma descend_spec:
  assumes "is_tree (av_heap ob) par (Some c) t" "tree_sorted (\<lambda>a b. cmp (val a) (val b)) (inorder t)"
  shows "descended cmp val ob v c t"
  using assms
proof (induction t arbitrary: par c)
  case (Node l x r)
  let ?cmp = "\<lambda>a b. cmp (val a) (val b)"
  have c: "x = c" and l: "is_tree (av_heap ob) (Some c) (link ob c False) l" and r: "is_tree (av_heap ob) (Some c) (link ob c True) r"
    using Node.prems(1) by (auto simp: link_def)
  have srt: "tree_sorted ?cmp (inorder l)" "tree_sorted ?cmp (inorder r)" "\<forall>y\<in>set_tree l. ?cmp y c < 0" "\<forall>y\<in>set_tree r. ?cmp c y < 0"
    using Node.prems(2) by (auto simp: tree_sorted_def sorted_wrt_append c)
  consider "cmp v (val c) = 0" | "cmp v (val c) = -1" | "cmp v (val c) = 1" using cmp_range [of v "val c"] by blast
  then show ?case
  proof cases
    case 1
    then show ?thesis unfolding descended_def by (intro disjI1 exI [of _ c]) (simp add: descend_step [of val ob v c] c)
  next
    case 2
    have "\<forall>y\<in>set_tree r. cmp v (val y) = -1" using 2 srt(4) cmp_neg_trans by blast
    then have "descended cmp val ob v c (nd False c l r)" using 2 l
    proof (intro descended_side)
      fix c' assume "link ob c False = Some c'"
      then show "descended cmp val ob v c' l" using Node.IH(1) [of "Some c" c'] l srt by simp
    qed simp_all
    then show ?thesis by (simp add: nd_def c)
  next
    case 3
    have "\<forall>y\<in>set_tree l. cmp v (val y) = 1" using 3 srt(3) cmp_pos_trans by blast
    then have "descended cmp val ob v c (nd True c r l)" using 3 r
    proof (intro descended_side)
      fix c' assume "link ob c True = Some c'"
      then show "descended cmp val ob v c' r" using Node.IH(2) [of "Some c" c'] r srt by simp
    qed simp_all
    then show ?thesis by (simp add: nd_def c)
  qed
qed simp

lemma node_order: "tree_order (\<lambda>a b. cmp (val a) (val b))"
  using cmp_total cmp_trans cmp_sym by unfold_locales blast+

lemma tree_insert_same:
  assumes "tree_sorted (\<lambda>a b. cmp (val a) (val b)) xs" "y \<in> set xs" "cmp (val x) (val y) = 0"
  shows "tree_insert (\<lambda>a b. cmp (val a) (val b)) x xs = None"
  using assms
proof (induction xs)
  case (Cons z zs)
  show ?case
  proof (cases "z = y")
    case False
    then have "cmp (val z) (val y) < 0" "y \<in> set zs" using Cons.prems by (auto simp: tree_sorted_def)
    moreover have "\<not> cmp (val x) (val z) < 0"
    proof
      assume "cmp (val x) (val z) < 0"
      then have "cmp (val x) (val y) < 0" using cmp_less_trans \<open>cmp (val z) (val y) < 0\<close> by blast
      then show False using Cons.prems(3) by simp
    qed
    ultimately show ?thesis using Cons by (simp add: tree_sorted_def)
  qed (use Cons.prems in simp)
qed simp

end

lemma tree_insert_split:
  "\<forall>x\<in>set xs. 0 < cmp n x \<Longrightarrow> \<forall>y\<in>set ys. cmp n y < 0 \<Longrightarrow> tree_insert cmp n (xs @ ys) = Some (xs @ [n] @ ys)"
proof (induction xs)
  case Nil
  then show ?case by (cases ys) auto
qed auto

subsection \<open>Insertion\<close>

text \<open>The memory holds the sequence \<open>xs\<close> in a tree that is balanced and ordered.\<close>

definition holds :: "('v \<Rightarrow> 'v \<Rightarrow> int) \<Rightarrow> (nat \<Rightarrow> 'v) \<Rightarrow> BAVL \<Rightarrow> nat list \<Rightarrow> bool" where
  "holds cmp val ob xs \<longleftrightarrow> (\<exists>t. linked ob t \<and> bal_ok (av_heap ob) t \<and> inorder t = xs) \<and> tree_sorted (\<lambda>a b. cmp (val a) (val b)) xs"

text \<open>The memory right after the new leaf is linked in, before the balances are put right.\<close>

definition with_leaf :: "BAVL \<Rightarrow> nat \<Rightarrow> nat \<Rightarrow> bool \<Rightarrow> BAVL" where
  "with_leaf ob node c side = set_balance node 0 (set_link node True None (set_link node False None (set_parent node (Some c) (set_link c side (Some node) ob))))"

lemma with_leaf_heap:
  assumes "node \<noteq> c"
  shows "av_heap (with_leaf ob node c side) = (av_heap ob)(c := (av_heap ob c)\<lparr>bn_link := (bn_link (av_heap ob c))(side := Some node)\<rparr>,
      node := (av_heap ob node)\<lparr>bn_parent := Some c, bn_link := (bn_link (av_heap ob node))(False := None, True := None), bn_balance := 0\<rparr>)"
    "av_root (with_leaf ob node c side) = av_root ob"
  using assms by (auto simp: with_leaf_def set_balance_def set_link_def set_parent_def fun_eq_iff)

lemma with_leaf_linked:
  assumes l: "linked ob (plug Leaf ((s, c, u) # fs))" and n: "node \<notin> set_tree (plug Leaf ((s, c, u) # fs))"
  shows "linked (with_leaf ob node c s) (plug (nd s c (Node Leaf node Leaf) u) fs)"
proof -
  have nc: "node \<noteq> c" "node \<notin> set_tree u" "node \<notin> place_set fs" using n by auto
  have d: "place_distinct ((s, c, u) # fs)" using l by (auto simp: linked_def distinct_plug simp del: plug.simps)
  have "is_place (av_heap ob) (av_root ob) ((s, c, u) # fs) (Some c) None"
    using l by (auto simp: linked_def is_tree_plug simp del: plug.simps)
  then have "is_place (av_heap (with_leaf ob node c s)) (av_root (with_leaf ob node c s)) ((s, c, u) # fs) (Some c) (Some node)"
    using nc d by (simp add: with_leaf_heap)
  then have "is_tree (av_heap (with_leaf ob node c s)) None (av_root (with_leaf ob node c s)) (plug (Node Leaf node Leaf) ((s, c, u) # fs))"
    unfolding is_tree_plug using nc by (intro exI conjI) (assumption, simp add: with_leaf_heap)
  moreover have "distinct (inorder (plug (Node Leaf node Leaf) ((s, c, u) # fs)))"
    using d nc unfolding distinct_plug by auto
  ultimately show ?thesis unfolding linked_def plug.simps by blast
qed

lemma with_leaf_off_by:
  assumes b: "bal_ok (av_heap ob) (plug Leaf ((s, c, u) # fs))" and n: "node \<notin> set_tree (plug Leaf ((s, c, u) # fs))"
  shows "off_by (with_leaf ob node c s) s c (Node Leaf node Leaf) u 0 1"
    "place_bal (av_heap (with_leaf ob node c s)) (max 0 (int (height u)) + 1) fs"
proof -
  have nc: "node \<noteq> c" "node \<notin> set_tree u" "node \<notin> place_set fs" using n by auto
  have pb: "place_bal (av_heap ob) 0 ((s, c, u) # fs)" using b unfolding bal_ok_plug by simp
  have k: "bn_balance (av_heap (with_leaf ob node c s) y) = bn_balance (av_heap ob y)" if "y \<noteq> node" for y
    using that nc by (auto simp: with_leaf_heap)
  have k2: "bn_balance (av_heap (with_leaf ob node c s) node) = 0" using nc by (simp add: with_leaf_heap)
  have "bal_ok (av_heap (with_leaf ob node c s)) u = bal_ok (av_heap ob) u" using nc by (intro bal_ok_cong k) auto
  then show "off_by (with_leaf ob node c s) s c (Node Leaf node Leaf) u 0 1"
    using pb k nc by (simp add: off_by_def k2)
  have "place_bal (av_heap (with_leaf ob node c s)) j fs = place_bal (av_heap ob) j fs" for j
    using nc by (intro place_bal_cong k) auto
  then show "place_bal (av_heap (with_leaf ob node c s)) (max 0 (int (height u)) + 1) fs" using pb by simp
qed

text \<open>What \<open>ref\<close> and the lookup of an absent value give: the node on one side of the place, if there is one.\<close>

definition neighbour :: "nat list \<Rightarrow> nat list \<Rightarrow> nat option \<Rightarrow> bool" where
  "neighbour xs ys ref \<longleftrightarrow> (case ref of None \<Rightarrow> xs = [] \<and> ys = []
     | Some c \<Rightarrow> xs \<noteq> [] \<and> last xs = c \<or> ys \<noteq> [] \<and> hd ys = c)"

lemma neighbour_place: "neighbour (place_left ((s, c, u) # fs)) (place_right ((s, c, u) # fs)) (Some c)"
  by (simp add: neighbour_def)

context bavl_order
begin

lemma holds_descended:
  assumes h: "holds cmp val ob xs" and r: "av_root ob = Some c"
  shows "\<exists>t. linked ob t \<and> bal_ok (av_heap ob) t \<and> inorder t = xs \<and> descended cmp val ob v c t"
proof -
  obtain t where t: "linked ob t" "bal_ok (av_heap ob) t" "inorder t = xs" "tree_sorted (\<lambda>a b. cmp (val a) (val b)) (inorder t)"
    using h by (auto simp: holds_def)
  have "is_tree (av_heap ob) None (Some c) t" using t(1) r by (simp add: linked_def)
  from descend_spec [OF this t(4)] t(1-3) show ?thesis by blast
qed

lemma holds_between:
  assumes srt: "tree_sorted (\<lambda>a b. cmp (val a) (val b)) (as @ bs)"
    and as: "\<forall>x\<in>set as. cmp (val n) (val x) = 1" and bs: "\<forall>x\<in>set bs. cmp (val n) (val x) = -1"
  shows "tree_sorted (\<lambda>a b. cmp (val a) (val b)) (as @ [n] @ bs)"
    "tree_insert (\<lambda>a b. cmp (val a) (val b)) n (as @ bs) = Some (as @ [n] @ bs)"
proof -
  show i: "tree_insert (\<lambda>a b. cmp (val a) (val b)) n (as @ bs) = Some (as @ [n] @ bs)"
    using as bs by (intro tree_insert_split) auto
  show "tree_sorted (\<lambda>a b. cmp (val a) (val b)) (as @ [n] @ bs)"
    by (rule tree_order.tree_insert_sorted [OF node_order srt i])
qed

lemma BAVL_Insert_leaf:
  assumes l: "linked ob (plug Leaf ((s, c, u) # fs))" and b: "bal_ok (av_heap ob) (plug Leaf ((s, c, u) # fs))"
    and n: "node \<notin> set_tree (plug Leaf ((s, c, u) # fs))"
  shows "\<exists>ob' t'. BAVL_rebalance (with_leaf ob node c s) c s 1 = Some ob' \<and> linked ob' t' \<and> bal_ok (av_heap ob') t' \<and>
    inorder t' = place_left ((s, c, u) # fs) @ [node] @ place_right ((s, c, u) # fs) \<and>
    (\<forall>y. y \<notin> insert node (set_tree (plug Leaf ((s, c, u) # fs))) \<longrightarrow> av_heap ob' y = av_heap ob y)"
proof -
  have nc: "node \<noteq> c" using n by auto
  obtain ob' t' where r: "BAVL_rebalance (with_leaf ob node c s) c s 1 = Some ob'" "linked ob' t'" "bal_ok (av_heap ob') t'"
      "inorder t' = inorder (plug (nd s c (Node Leaf node Leaf) u) fs)"
      "\<And>y. y \<notin> set_tree (plug (nd s c (Node Leaf node Leaf) u) fs) \<Longrightarrow> av_heap ob' y = av_heap (with_leaf ob node c s) y"
    using BAVL_rebalance_spec [OF with_leaf_linked [OF l n] with_leaf_off_by [OF b n]] by auto
  have "inorder t' = place_left ((s, c, u) # fs) @ [node] @ place_right ((s, c, u) # fs)"
    using r(4) by (auto simp: inorder_plug inorder_nd)
  moreover have "av_heap ob' y = av_heap ob y" if "y \<notin> insert node (set_tree (plug Leaf ((s, c, u) # fs)))" for y
    using r(5) [of y] that nc by (auto simp: with_leaf_heap)
  ultimately show ?thesis using r(1-3) by blast
qed

lemma BAVL_Insert_cases:
  assumes h: "holds cmp val ob xs" and n: "node \<notin> set xs"
  obtains (same) c where "BAVL_Insert cmp val ob node = Some (ob, False, Some c)" "c \<in> set xs" "cmp (val node) (val c) = 0"
    | (new) as bs ob' ref where "BAVL_Insert cmp val ob node = Some (ob', True, ref)" "xs = as @ bs" "neighbour as bs ref"
        "holds cmp val ob' (as @ [node] @ bs)" "tree_insert (\<lambda>a b. cmp (val a) (val b)) node xs = Some (as @ [node] @ bs)"
        "\<forall>y. y \<notin> insert node (set xs) \<longrightarrow> av_heap ob' y = av_heap ob y"
proof (cases "av_root ob")
  case None
  let ?o = "set_balance node 0 (set_link node True None (set_link node False None (set_parent node None (ob\<lparr>av_root := Some node\<rparr>))))"
  have "xs = []" using h None by (auto simp: holds_def linked_def elim: is_tree.elims)
  moreover have "BAVL_Insert cmp val ob node = Some (?o, True, None)" by (simp add: BAVL_Insert_def None)
  moreover have "linked ?o (Node Leaf node Leaf) \<and> bal_ok (av_heap ?o) (Node Leaf node Leaf)"
    by (simp add: linked_def set_balance_def set_link_def set_parent_def)
  then have "holds cmp val ?o ([] @ [node] @ [])"
    unfolding holds_def by (intro conjI exI [of _ "Node Leaf node Leaf"]) (auto simp: tree_sorted_def)
  moreover have "\<forall>y. y \<notin> insert node (set xs) \<longrightarrow> av_heap ?o y = av_heap ob y"
    by (simp add: set_balance_def set_link_def set_parent_def)
  ultimately show ?thesis using new [of ?o None "[]" "[]"] by (simp add: neighbour_def)
next
  case (Some root)
  from holds_descended [OF h Some, of "val node"] obtain t where t: "linked ob t" "bal_ok (av_heap ob) t" "inorder t = xs"
    "descended cmp val ob (val node) root t" by blast
  have st: "set_tree t = set xs" using t(3) by auto
  from t(4) [unfolded descended_def] show ?thesis
  proof (elim disjE exE conjE)
    fix y assume "descend cmp val ob (val node) root = Some (Inl y)" "y \<in> set_tree t" "cmp (val node) (val y) = 0"
    then show ?thesis using same [of y] by (simp add: BAVL_Insert_def Some st)
  next
    fix s :: bool and c :: nat and u :: "nat tree" and fs :: place
    let ?fs = "(s :: bool, c :: nat, u :: nat tree) # fs"
    assume d: "descend cmp val ob (val node) root = Some (Inr (c, s))" "t = plug Leaf ?fs"
      "\<forall>x\<in>set (place_left ?fs). cmp (val node) (val x) = 1" "\<forall>x\<in>set (place_right ?fs). cmp (val node) (val x) = -1"
    have xs: "xs = place_left ?fs @ place_right ?fs" using t(3) unfolding d(2) inorder_plug by simp
    from BAVL_Insert_leaf [OF t(1) [unfolded d(2)] t(2) [unfolded d(2)], of node] n obtain ob' t' where
      r: "BAVL_rebalance (with_leaf ob node c s) c s 1 = Some ob'" "linked ob' t'" "bal_ok (av_heap ob') t'"
        "inorder t' = place_left ?fs @ [node] @ place_right ?fs" "\<forall>y. y \<notin> insert node (set xs) \<longrightarrow> av_heap ob' y = av_heap ob y"
      unfolding d(2) [symmetric] st by blast
    have ins: "BAVL_Insert cmp val ob node = Some (ob', True, Some c)"
      using r(1) by (simp add: BAVL_Insert_def Some d(1) Let_def with_leaf_def)
    have "tree_sorted (\<lambda>a b. cmp (val a) (val b)) (place_left ?fs @ place_right ?fs)" using h xs by (simp add: holds_def)
    note srt = holds_between [OF this d(3,4)]
    have "holds cmp val ob' (place_left ?fs @ [node] @ place_right ?fs)" using r(2-4) srt(1) unfolding holds_def by blast
    then show ?thesis using new [OF ins xs neighbour_place _ _ r(5)] srt(2) xs by simp
  qed
qed

lemma BAVL_Lookup_cases:
  assumes h: "holds cmp val ob xs"
  obtains (same) c where "BAVL_Lookup cmp val ob v = Some (Some c)" "BAVL_LookupExact cmp val ob v = Some (Some c)" "c \<in> set xs" "cmp v (val c) = 0"
    | (absent) as bs ref where "BAVL_Lookup cmp val ob v = Some ref" "BAVL_LookupExact cmp val ob v = Some None" "xs = as @ bs" "neighbour as bs ref"
        "\<forall>x\<in>set as. cmp v (val x) = 1" "\<forall>x\<in>set bs. cmp v (val x) = -1"
proof (cases "av_root ob")
  case None
  then have "xs = []" using h by (auto simp: holds_def linked_def elim: is_tree.elims)
  then show ?thesis using absent [of None "[]" "[]"] None by (simp add: BAVL_Lookup_def BAVL_LookupExact_def neighbour_def)
next
  case (Some root)
  from holds_descended [OF h Some, of v] obtain t where t: "linked ob t" "bal_ok (av_heap ob) t" "inorder t = xs"
    "descended cmp val ob v root t" by blast
  have st: "set_tree t = set xs" using t(3) by auto
  from t(4) [unfolded descended_def] show ?thesis
  proof (elim disjE exE conjE)
    fix y assume "descend cmp val ob v root = Some (Inl y)" "y \<in> set_tree t" "cmp v (val y) = 0"
    then show ?thesis using same [of y] by (simp add: BAVL_Lookup_def BAVL_LookupExact_def Some st)
  next
    fix s :: bool and c :: nat and u :: "nat tree" and fs :: place
    let ?fs = "(s :: bool, c :: nat, u :: nat tree) # fs"
    assume d: "descend cmp val ob v root = Some (Inr (c, s))" "t = plug Leaf ?fs"
      "\<forall>x\<in>set (place_left ?fs). cmp v (val x) = 1" "\<forall>x\<in>set (place_right ?fs). cmp v (val x) = -1"
    have xs: "xs = place_left ?fs @ place_right ?fs" using t(3) unfolding d(2) inorder_plug by simp
    then show ?thesis using absent [OF _ _ xs neighbour_place d(3,4)] d(1) by (simp add: BAVL_Lookup_def BAVL_LookupExact_def Some)
  qed
qed

end

end
