(* ===== verification/BavlRemove.thy ===== *)
theory BavlRemove
  imports Bavl
begin

text \<open>
  The rest of \<open>src/structure/BAVL.h\<close>: removal, which exchanges a node that has two subtrees with the
  greatest node before it, the walk through the nodes in order, and the consistency check.
\<close>

subsection \<open>Operations\<close>

text \<open>\<open>while (n->link[side]) n = n->link[side]\<close>, the loop of the subtree maximum and of the first and last node.\<close>

partial_function (option) outermost :: "BAVL \<Rightarrow> bool \<Rightarrow> nat \<Rightarrow> nat option" where
  "outermost ob side n = (case link ob n side of None \<Rightarrow> Some n | Some n \<Rightarrow> outermost ob side n)"

declare outermost.simps [code]

definition BAVL_subtree_max :: "BAVL \<Rightarrow> nat \<Rightarrow> nat option" where
  "BAVL_subtree_max ob n = outermost ob True n"

definition BAVL_replace_subtree :: "BAVL \<Rightarrow> nat \<Rightarrow> nat option \<Rightarrow> BAVL" where
  "BAVL_replace_subtree tree dest n =
     (let tree = relink (parent tree dest) dest n tree in set_parent_if n (parent tree dest) tree)"

text \<open>Two nodes of which \<open>n1\<close> is the parent of \<open>n2\<close>.\<close>

definition swap_connected :: "BAVL \<Rightarrow> nat \<Rightarrow> nat \<Rightarrow> BAVL" where
  "swap_connected tree n1 n2 =
     (let side = (Some n2 = link tree n1 True);
          c = link tree n1 (\<not> side);
          tree = set_link n1 False (link tree n2 False) tree;
          tree = set_parent_if (link tree n1 False) (Some n1) tree;
          tree = set_link n1 True (link tree n2 True) tree;
          tree = set_parent_if (link tree n1 True) (Some n1) tree;
          tree = set_parent n2 (parent tree n1) tree;
          tree = relink (parent tree n2) n1 (Some n2) tree;
          tree = set_link n2 side (Some n1) tree;
          tree = set_parent n1 (Some n2) tree;
          tree = set_link n2 (\<not> side) c tree
      in set_parent_if c (Some n2) tree)"

definition swap_apart :: "BAVL \<Rightarrow> nat \<Rightarrow> nat \<Rightarrow> BAVL" where
  "swap_apart tree n1 n2 =
     (let temp = parent tree n1;
          tree = set_parent n1 (parent tree n2) tree;
          tree = relink (parent tree n1) n2 (Some n1) tree;
          tree = set_parent n2 temp tree;
          tree = relink (parent tree n2) n1 (Some n2) tree;
          temp = link tree n1 False;
          tree = set_link n1 False (link tree n2 False) tree;
          tree = set_parent_if (link tree n1 False) (Some n1) tree;
          tree = set_link n2 False temp tree;
          tree = set_parent_if (link tree n2 False) (Some n2) tree;
          temp = link tree n1 True;
          tree = set_link n1 True (link tree n2 True) tree;
          tree = set_parent_if (link tree n1 True) (Some n1) tree;
          tree = set_link n2 True temp tree
      in set_parent_if (link tree n2 True) (Some n2) tree)"

definition BAVL_swap_nodes :: "BAVL \<Rightarrow> nat \<Rightarrow> nat \<Rightarrow> BAVL" where
  "BAVL_swap_nodes tree n1 n2 =
     (let connected = (parent tree n2 = Some n1 \<or> parent tree n1 = Some n2);
          (n1, n2) = (if connected \<and> parent tree n1 = Some n2 then (n2, n1) else (n1, n2));
          tree = (if connected then swap_connected tree n1 n2 else swap_apart tree n1 n2);
          b = balance tree n1;
          tree = set_balance n1 (balance tree n2) tree
      in set_balance n2 b tree)"

text \<open>The part of the removal for a node with at most one child.\<close>

definition BAVL_unlink :: "BAVL \<Rightarrow> nat \<Rightarrow> BAVL option" where
  "BAVL_unlink ob node =
     (if link ob node False \<noteq> None \<and> link ob node True \<noteq> None then None
      else
        let child = (if link ob node False \<noteq> None then link ob node False else link ob node True) in
        case parent ob node of
          Some p \<Rightarrow> BAVL_rebalance (BAVL_replace_subtree ob node child) p (Some node = link ob p True) (-1)
        | None \<Rightarrow> Some (BAVL_replace_subtree ob node child))"

definition BAVL_Remove :: "BAVL \<Rightarrow> nat \<Rightarrow> BAVL option" where
  "BAVL_Remove ob node =
     (case (link ob node False, link ob node True) of
        (Some l, Some r) \<Rightarrow>
          (case BAVL_subtree_max ob l of None \<Rightarrow> None
           | Some m \<Rightarrow> BAVL_unlink (BAVL_swap_nodes ob node m) node)
      | _ \<Rightarrow> BAVL_unlink ob node)"

definition BAVL_GetFirst :: "BAVL \<Rightarrow> nat option option" where
  "BAVL_GetFirst ob = (case av_root ob of None \<Rightarrow> Some None | Some n \<Rightarrow> map_option Some (outermost ob False n))"

definition BAVL_GetLast :: "BAVL \<Rightarrow> nat option option" where
  "BAVL_GetLast ob = (case av_root ob of None \<Rightarrow> Some None | Some n \<Rightarrow> map_option Some (outermost ob True n))"

text \<open>\<open>while (n->parent && n == n->parent->link[side]) n = n->parent; n = n->parent\<close>.\<close>

partial_function (option) climb :: "BAVL \<Rightarrow> bool \<Rightarrow> nat \<Rightarrow> nat option option" where
  "climb ob side n =
     (case parent ob n of None \<Rightarrow> Some None
      | Some p \<Rightarrow> if Some n = link ob p side then climb ob side p else Some (Some p))"

declare climb.simps [code]

definition BAVL_GetNext :: "BAVL \<Rightarrow> nat \<Rightarrow> nat option option" where
  "BAVL_GetNext ob n =
     (case link ob n True of Some n \<Rightarrow> map_option Some (outermost ob False n) | None \<Rightarrow> climb ob True n)"

definition BAVL_GetPrev :: "BAVL \<Rightarrow> nat \<Rightarrow> nat option option" where
  "BAVL_GetPrev ob n =
     (case link ob n False of Some n \<Rightarrow> map_option Some (outermost ob True n) | None \<Rightarrow> climb ob False n)"

text \<open>The check of one node and its subtrees gives their height; \<open>None\<close> is a failed assertion.\<close>

partial_function (option) BAVL_assert_recurser :: "('v \<Rightarrow> 'v \<Rightarrow> int) \<Rightarrow> (nat \<Rightarrow> 'v) \<Rightarrow> BAVL \<Rightarrow> nat \<Rightarrow> int option" where
  "BAVL_assert_recurser cmp val ob n =
     (if \<not> (-1 \<le> balance ob n \<and> balance ob n \<le> 1) then None
      else Option.bind
        (case link ob n False of None \<Rightarrow> Some 0
         | Some l \<Rightarrow> if parent ob l \<noteq> Some n \<or> BAVL_compare_values cmp (val l) (val n) \<noteq> Some (-1) then None
                     else BAVL_assert_recurser cmp val ob l)
        (\<lambda>height_left. Option.bind
          (case link ob n True of None \<Rightarrow> Some 0
           | Some r \<Rightarrow> if parent ob r \<noteq> Some n \<or> BAVL_compare_values cmp (val r) (val n) \<noteq> Some 1 then None
                       else BAVL_assert_recurser cmp val ob r)
          (\<lambda>height_right. if balance ob n \<noteq> height_right - height_left then None
             else Some (max height_left height_right + 1))))"

declare BAVL_assert_recurser.simps [code]

definition BAVL_Verify :: "('v \<Rightarrow> 'v \<Rightarrow> int) \<Rightarrow> (nat \<Rightarrow> 'v) \<Rightarrow> BAVL \<Rightarrow> unit option" where
  "BAVL_Verify cmp val ob =
     (case av_root ob of None \<Rightarrow> Some ()
      | Some r \<Rightarrow> if parent ob r \<noteq> None then None else map_option (\<lambda>_. ()) (BAVL_assert_recurser cmp val ob r))"

subsection \<open>Reading after writing\<close>

lemma get_set [simp]:
  "parent (set_parent x p ob) y = (if y = x then p else parent ob y)"
  "parent (set_link x s q ob) y = parent ob y"
  "parent (set_balance x b ob) y = parent ob y"
  "parent (set_parent_if c p ob) y = (if c = Some y then p else parent ob y)"
  "parent (relink par r n ob) y = parent ob y"
  "link (set_parent x p ob) y s = link ob y s"
  "link (set_link x s' q ob) y s = (if y = x \<and> s = s' then q else link ob y s)"
  "link (set_balance x b ob) y s = link ob y s"
  "link (set_parent_if c p ob) y s = link ob y s"
  "link (relink par r n ob) y s = (if par = Some y \<and> s = (Some r = link ob y True) then n else link ob y s)"
  "balance (set_parent x p ob) y = balance ob y"
  "balance (set_link x s' q ob) y = balance ob y"
  "balance (set_balance x b ob) y = (if y = x then b else balance ob y)"
  "balance (set_parent_if c p ob) y = balance ob y"
  "balance (relink par r n ob) y = balance ob y"
  "av_root (set_parent x p ob) = av_root ob"
  "av_root (set_link x s' q ob) = av_root ob"
  "av_root (set_balance x b ob) = av_root ob"
  "av_root (set_parent_if c p ob) = av_root ob"
  "av_root (relink par r n ob) = (if par = None then n else av_root ob)"
  by (auto simp: parent_def link_def balance_def set_parent_def set_link_def set_balance_def set_parent_if_def relink_def split: option.split)

lemma is_tree_get: "is_tree (av_heap ob) par p (Node l x r) \<longleftrightarrow> p = Some x \<and> parent ob x = par \<and>
    is_tree (av_heap ob) (Some x) (link ob x False) l \<and> is_tree (av_heap ob) (Some x) (link ob x True) r"
  by (simp add: parent_def link_def)

subsection \<open>The neighbours of a node in memory\<close>

lemma tree_child:
  assumes "is_tree (av_heap ob) par p t" "distinct (inorder t)" "y \<in> set_tree t" "link ob y s = Some z"
  shows "z \<in> set_tree t \<and> parent ob z = Some y \<and> link ob y (\<not> s) \<noteq> Some z"
  using assms
proof (induction t arbitrary: par p)
  case (Node l x r)
  note t = Node.prems(1) [unfolded is_tree_get] and d = Node.prems(2)
  show ?case
  proof (cases "y = x")
    case True
    have "link ob x False = Some z \<Longrightarrow> z \<in> set_tree l \<and> parent ob z = Some x"
      "link ob x True = Some z \<Longrightarrow> z \<in> set_tree r \<and> parent ob z = Some x"
      using t is_tree_root [of "av_heap ob" "Some x" z] unfolding parent_def by metis+
    then show ?thesis using Node.prems(4) d True by (cases s) auto
  next
    case False
    then show ?thesis using Node.IH Node.prems(3,4) t d by auto
  qed
qed simp

lemma tree_parent:
  assumes "is_tree (av_heap ob) par p t" "y \<in> set_tree t"
  shows "p = Some y \<and> parent ob y = par \<or> (\<exists>z s. z \<in> set_tree t \<and> parent ob y = Some z \<and> link ob z s = Some y)"
  using assms
proof (induction t arbitrary: par p)
  case (Node l x r)
  note t = Node.prems(1) [unfolded is_tree_get]
  consider "y = x" | "y \<in> set_tree l" | "y \<in> set_tree r" using Node.prems(2) by auto
  then show ?case
  proof cases
    case 2
    then show ?thesis using Node.IH(1) [of "Some x" "link ob x False"] t by auto
  next
    case 3
    then show ?thesis using Node.IH(2) [of "Some x" "link ob x True"] t by auto
  qed (use t in auto)
qed simp

subsection \<open>Exchanging two nodes\<close>

text \<open>Two nodes that are not siblings, and \<open>n2\<close> not above \<open>n1\<close>.\<close>

definition exchangeable :: "BAVL \<Rightarrow> nat \<Rightarrow> nat \<Rightarrow> bool" where
  "exchangeable ob n1 n2 \<longleftrightarrow> n1 \<noteq> n2 \<and> parent ob n1 \<noteq> Some n1 \<and> parent ob n1 \<noteq> Some n2 \<and> parent ob n2 \<noteq> Some n2 \<and>
     parent ob n1 \<noteq> parent ob n2 \<and> parent ob n2 \<noteq> None"

lemma swap_apart_get:
  assumes "exchangeable ob n1 n2" "parent ob n2 \<noteq> Some n1"
  shows "parent (swap_apart ob n1 n2) y =
      (if link ob n1 True = Some y then Some n2 else if link ob n2 True = Some y then Some n1
       else if link ob n1 False = Some y then Some n2 else if link ob n2 False = Some y then Some n1
       else if y = n1 then parent ob n2 else if y = n2 then parent ob n1 else parent ob y)"
    "link (swap_apart ob n1 n2) y s =
      (if y = n1 then link ob n2 s else if y = n2 then link ob n1 s
       else if parent ob n1 = Some y \<and> s = (Some n1 = link ob y True) then Some n2
       else if parent ob n2 = Some y \<and> s = (Some n2 = link ob y True) then Some n1 else link ob y s)"
    "av_root (swap_apart ob n1 n2) = (if parent ob n1 = None then Some n2 else av_root ob)"
    "balance (swap_apart ob n1 n2) y = balance ob y"
  using assms unfolding swap_apart_def exchangeable_def Let_def by auto

lemma swap_connected_get:
  assumes "exchangeable ob n1 n2" "parent ob n2 = Some n1" "link ob n1 side = Some n2"
    and "link ob n1 (\<not> side) \<noteq> Some n2" "\<And>s. link ob n2 s \<noteq> Some n1"
  shows "parent (swap_connected ob n1 n2) y =
      (if link ob n1 (\<not> side) = Some y then Some n2 else if y = n1 then Some n2 else if y = n2 then parent ob n1
       else if link ob n2 True = Some y then Some n1 else if link ob n2 False = Some y then Some n1 else parent ob y)"
    "link (swap_connected ob n1 n2) y s =
      (if y = n1 then link ob n2 s else if y = n2 then (if s = side then Some n1 else link ob n1 s)
       else if parent ob n1 = Some y \<and> s = (Some n1 = link ob y True) then Some n2 else link ob y s)"
    "av_root (swap_connected ob n1 n2) = (if parent ob n1 = None then Some n2 else av_root ob)"
    "balance (swap_connected ob n1 n2) y = balance ob y"
proof -
  have side: "(Some n2 = link ob n1 True) = side" using assms by (cases side) auto
  note defs = swap_connected_def side Let_def and asm = assms [unfolded exchangeable_def]
  show "parent (swap_connected ob n1 n2) y =
      (if link ob n1 (\<not> side) = Some y then Some n2 else if y = n1 then Some n2 else if y = n2 then parent ob n1
       else if link ob n2 True = Some y then Some n1 else if link ob n2 False = Some y then Some n1 else parent ob y)"
    using asm unfolding defs by simp
  show "link (swap_connected ob n1 n2) y s =
      (if y = n1 then link ob n2 s else if y = n2 then (if s = side then Some n1 else link ob n1 s)
       else if parent ob n1 = Some y \<and> s = (Some n1 = link ob y True) then Some n2 else link ob y s)"
    using asm unfolding defs by simp
  show "av_root (swap_connected ob n1 n2) = (if parent ob n1 = None then Some n2 else av_root ob)"
    "balance (swap_connected ob n1 n2) y = balance ob y"
    using asm unfolding defs by simp_all
qed

text \<open>The exchange renames the two nodes in every pointer.\<close>

definition exchange :: "nat \<Rightarrow> nat \<Rightarrow> nat \<Rightarrow> nat" where
  "exchange a b y = (if y = a then b else if y = b then a else y)"

definition renamed :: "BAVL \<Rightarrow> BAVL \<Rightarrow> nat \<Rightarrow> nat \<Rightarrow> nat set \<Rightarrow> bool" where
  "renamed ob ob' n1 n2 S \<longleftrightarrow> av_root ob' = map_option (exchange n1 n2) (av_root ob) \<and>
     (\<forall>y\<in>S. parent ob' (exchange n1 n2 y) = map_option (exchange n1 n2) (parent ob y) \<and>
       (\<forall>s. link ob' (exchange n1 n2 y) s = map_option (exchange n1 n2) (link ob y s)))"

lemma is_tree_renamed:
  assumes "renamed ob ob' n1 n2 S" "set_tree t \<subseteq> S" "is_tree (av_heap ob) par p t"
  shows "is_tree (av_heap ob') (map_option (exchange n1 n2) par) (map_option (exchange n1 n2) p) (map_tree (exchange n1 n2) t)"
  using assms(2,3)
proof (induction t arbitrary: par p)
  case (Node l x r)
  have "x \<in> S" using Node.prems(1) by simp
  then have x: "parent ob' (exchange n1 n2 x) = map_option (exchange n1 n2) (parent ob x)"
    "link ob' (exchange n1 n2 x) s = map_option (exchange n1 n2) (link ob x s)" for s
    using assms(1) unfolding renamed_def by blast+
  note t = Node.prems(2) [unfolded is_tree_get]
  have "is_tree (av_heap ob') (Some (exchange n1 n2 x)) (map_option (exchange n1 n2) (link ob x False)) (map_tree (exchange n1 n2) l)"
    "is_tree (av_heap ob') (Some (exchange n1 n2 x)) (map_option (exchange n1 n2) (link ob x True)) (map_tree (exchange n1 n2) r)"
    using Node.IH(1) [of "Some x"] Node.IH(2) [of "Some x"] Node.prems(1) t by auto
  then show ?case using t unfolding tree.map is_tree_get x by simp
qed simp

lemma linked_neighbours:
  assumes t: "linked ob t" and n: "n \<in> set_tree t" and y: "y \<in> set_tree t"
  shows "parent ob y = Some n \<longleftrightarrow> link ob n False = Some y \<or> link ob n True = Some y"
    "link ob y s = Some n \<longleftrightarrow> parent ob n = Some y \<and> s = (Some n = link ob y True)"
    "av_root ob = Some n \<longleftrightarrow> parent ob n = None"
proof -
  have tr: "is_tree (av_heap ob) None (av_root ob) t" "distinct (inorder t)" using t by (auto simp: linked_def)
  note ch = tree_child [OF tr] and pa = tree_parent [OF tr(1)]
  show "parent ob y = Some n \<longleftrightarrow> link ob n False = Some y \<or> link ob n True = Some y"
    using pa [OF y] ch [OF n, of _ y] by (metis (full_types) option.inject option.distinct(1))
  show "link ob y s = Some n \<longleftrightarrow> parent ob n = Some y \<and> s = (Some n = link ob y True)"
    using pa [OF n] ch [OF y, of _ n] by (metis (full_types) option.inject option.distinct(1))
  show "av_root ob = Some n \<longleftrightarrow> parent ob n = None"
    using pa [OF n] is_tree_root [of "av_heap ob" None n t] tr(1) by (auto simp: parent_def)
qed

lemma map_exchange:
  "map_option (exchange a b) v = (if v = Some a then Some b else if v = Some b then Some a else v)"
  by (cases v) (auto simp: exchange_def)

lemma swap_apart_renamed:
  assumes t: "linked ob t" and n: "n1 \<in> set_tree t" "n2 \<in> set_tree t" and ex: "exchangeable ob n1 n2" "parent ob n2 \<noteq> Some n1"
  shows "renamed ob (swap_apart ob n1 n2) n1 n2 (set_tree t)"
proof -
  note get = swap_apart_get [OF ex] and nb1 = linked_neighbours [OF t n(1)] and nb2 = linked_neighbours [OF t n(2)]
  note ex = ex [unfolded exchangeable_def]
  have one: "\<not> ((link ob n1 False = Some y \<or> link ob n1 True = Some y) \<and> (link ob n2 False = Some y \<or> link ob n2 True = Some y))"
    if "y \<in> set_tree t" for y using nb1(1) [OF that] nb2(1) [OF that] ex by auto
  have "parent (swap_apart ob n1 n2) (exchange n1 n2 y) = map_option (exchange n1 n2) (parent ob y)" if "y \<in> set_tree t" for y
    unfolding get map_exchange nb1(1) [OF that] nb2(1) [OF that] using nb1(1) [OF n(1)] nb1(1) [OF n(2)] nb2(1) [OF n(1)] nb2(1) [OF n(2)] ex one [OF that]
    by (auto simp: exchange_def)
  moreover have "link (swap_apart ob n1 n2) (exchange n1 n2 y) s = map_option (exchange n1 n2) (link ob y s)" if "y \<in> set_tree t" for y s
    unfolding get map_exchange nb1(2) [OF that] nb2(2) [OF that] using ex by (auto simp: exchange_def)
  moreover have "av_root (swap_apart ob n1 n2) = map_option (exchange n1 n2) (av_root ob)"
    unfolding get map_exchange using nb1(3) nb2(3) ex n by auto
  ultimately show ?thesis by (simp add: renamed_def)
qed

lemma swap_connected_renamed:
  assumes t: "linked ob t" and n: "n1 \<in> set_tree t" "n2 \<in> set_tree t" and ex: "exchangeable ob n1 n2" "parent ob n2 = Some n1"
  shows "renamed ob (swap_connected ob n1 n2) n1 n2 (set_tree t)"
proof -
  note nb1 = linked_neighbours [OF t n(1)] and nb2 = linked_neighbours [OF t n(2)]
  define side where "side = (Some n2 = link ob n1 True)"
  have side: "link ob n1 side = Some n2" "link ob n1 (\<not> side) \<noteq> Some n2" "\<And>s. link ob n2 s \<noteq> Some n1"
    using nb2(2) [OF n(1)] nb1(2) [OF n(2)] ex by (auto simp: side_def exchangeable_def)
  note get = swap_connected_get [OF ex side]
  note ex = ex [unfolded exchangeable_def]
  have one: "\<not> ((link ob n1 False = Some y \<or> link ob n1 True = Some y) \<and> (link ob n2 False = Some y \<or> link ob n2 True = Some y))"
    if "y \<in> set_tree t" for y using nb1(1) [OF that] nb2(1) [OF that] ex by auto
  have "parent (swap_connected ob n1 n2) (exchange n1 n2 y) = map_option (exchange n1 n2) (parent ob y)" if "y \<in> set_tree t" for y
    unfolding get map_exchange nb1(1) [OF that] nb2(1) [OF that]
    using nb1(1) [OF n(1)] nb1(1) [OF n(2)] nb2(1) [OF n(1)] nb2(1) [OF n(2)] ex one [OF that] side
    by (cases side) (auto simp: exchange_def)
  moreover have "link (swap_connected ob n1 n2) (exchange n1 n2 y) s = map_option (exchange n1 n2) (link ob y s)" if "y \<in> set_tree t" for y s
    using nb1(2) [OF that, of s] nb2(2) [OF that, of s] ex side unfolding get map_exchange by (cases side; cases s) (auto simp: exchange_def)
  moreover have "av_root (swap_connected ob n1 n2) = map_option (exchange n1 n2) (av_root ob)"
    unfolding get map_exchange using nb1(3) nb2(3) ex n by auto
  ultimately show ?thesis by (simp add: renamed_def)
qed

text \<open>Nodes outside the tree stay as they are.\<close>

lemma heap_eqI: "parent ob' y = parent ob y \<Longrightarrow> (\<And>s. link ob' y s = link ob y s) \<Longrightarrow> balance ob' y = balance ob y \<Longrightarrow> av_heap ob' y = av_heap ob y"
  by (rule BAVLNode.equality) (auto simp: parent_def link_def balance_def)

lemma swap_frame:
  assumes t: "linked ob t" and n: "n1 \<in> set_tree t" "n2 \<in> set_tree t" and ex: "exchangeable ob n1 n2" and y: "y \<notin> set_tree t"
  shows "av_heap (BAVL_swap_nodes ob n1 n2) y = av_heap ob y"
proof (rule heap_eqI)
  have tr: "is_tree (av_heap ob) None (av_root ob) t" "distinct (inorder t)" using t by (auto simp: linked_def)
  have ch: "link ob n1 s \<noteq> Some y" "link ob n2 s \<noteq> Some y" for s using tree_child [OF tr, of _ s y] n y by auto
  have pa: "parent ob n1 \<noteq> Some y" "parent ob n2 \<noteq> Some y" using tree_parent [OF tr(1)] n y by fastforce+
  have ny: "y \<noteq> n1" "y \<noteq> n2" using n y by auto
  have ap: "parent ob n2 \<noteq> Some n1 \<Longrightarrow> parent (swap_apart ob n1 n2) y = parent ob y \<and> (\<forall>s. link (swap_apart ob n1 n2) y s = link ob y s)"
    using swap_apart_get [OF ex] ch pa ny by simp
  have co: "parent (swap_connected ob n1 n2) y = parent ob y \<and> (\<forall>s. link (swap_connected ob n1 n2) y s = link ob y s)"
    using ch pa ny by (auto simp: swap_connected_def Let_def)
  have nc: "parent ob n1 \<noteq> Some n2" using ex by (simp add: exchangeable_def)
  show "parent (BAVL_swap_nodes ob n1 n2) y = parent ob y" "link (BAVL_swap_nodes ob n1 n2) y s = link ob y s" for s
    using ap co nc by (auto simp: BAVL_swap_nodes_def Let_def)
  show "balance (BAVL_swap_nodes ob n1 n2) y = balance ob y"
    using nc ny by (auto simp: BAVL_swap_nodes_def Let_def swap_connected_def swap_apart_def)
qed

lemma BAVL_swap_nodes_renamed:
  assumes t: "linked ob t" and n: "n1 \<in> set_tree t" "n2 \<in> set_tree t" and ex: "exchangeable ob n1 n2"
  shows "renamed ob (BAVL_swap_nodes ob n1 n2) n1 n2 (set_tree t)"
    "balance (BAVL_swap_nodes ob n1 n2) (exchange n1 n2 y) = balance ob y"
proof -
  have nc: "parent ob n1 \<noteq> Some n2" "n1 \<noteq> n2" using ex by (auto simp: exchangeable_def)
  let ?o = "if parent ob n2 = Some n1 then swap_connected ob n1 n2 else swap_apart ob n1 n2"
  have sw: "BAVL_swap_nodes ob n1 n2 = set_balance n2 (balance ?o n1) (set_balance n1 (balance ?o n2) ?o)"
    using nc by (simp add: BAVL_swap_nodes_def Let_def)
  have "renamed ob ?o n1 n2 (set_tree t)" using swap_connected_renamed [OF t n ex] swap_apart_renamed [OF t n ex] by simp
  then show "renamed ob (BAVL_swap_nodes ob n1 n2) n1 n2 (set_tree t)" unfolding sw by (simp add: renamed_def)
  have "balance ?o z = balance ob z" for z by (simp add: swap_connected_def swap_apart_def Let_def)
  then show "balance (BAVL_swap_nodes ob n1 n2) (exchange n1 n2 y) = balance ob y"
    using nc(2) unfolding sw by (auto simp: exchange_def)
qed

lemma exchange_inj: "inj (exchange a b)"
  by (auto simp: inj_def exchange_def split: if_splits)

lemma inorder_map_tree: "inorder (map_tree f t) = map f (inorder t)"
  by (induction t) auto

lemma bal_ok_exchange:
  assumes "\<And>y. bn_balance (h' (exchange a b y)) = bn_balance (h y)"
  shows "bal_ok h' (map_tree (exchange a b) t) = bal_ok h t"
  using assms by (induction t) simp_all

lemma BAVL_swap_nodes_spec:
  assumes t: "linked ob t" and n: "n1 \<in> set_tree t" "n2 \<in> set_tree t" and ex: "exchangeable ob n1 n2"
  shows "linked (BAVL_swap_nodes ob n1 n2) (map_tree (exchange n1 n2) t)"
    "bal_ok (av_heap (BAVL_swap_nodes ob n1 n2)) (map_tree (exchange n1 n2) t) = bal_ok (av_heap ob) t"
proof -
  have "is_tree (av_heap (BAVL_swap_nodes ob n1 n2)) (map_option (exchange n1 n2) None)
      (map_option (exchange n1 n2) (av_root ob)) (map_tree (exchange n1 n2) t)"
    using t by (intro is_tree_renamed [OF BAVL_swap_nodes_renamed(1) [OF assms]]) (auto simp: linked_def)
  moreover have "distinct (inorder (map_tree (exchange n1 n2) t))"
    using t inj_on_subset [OF exchange_inj subset_UNIV] by (simp add: inorder_map_tree distinct_map linked_def)
  ultimately show "linked (BAVL_swap_nodes ob n1 n2) (map_tree (exchange n1 n2) t)"
    using BAVL_swap_nodes_renamed(1) [OF assms] by (simp add: linked_def renamed_def)
  show "bal_ok (av_heap (BAVL_swap_nodes ob n1 n2)) (map_tree (exchange n1 n2) t) = bal_ok (av_heap ob) t"
    using BAVL_swap_nodes_renamed(2) [OF assms] by (intro bal_ok_exchange) (simp add: balance_def)
qed

subsection \<open>The outermost node of a subtree\<close>

lemma outermost_spec:
  "is_tree (av_heap ob) par (Some c) t \<Longrightarrow>
   \<exists>m A gs. outermost ob side c = Some m \<and> t = plug (nd side m Leaf A) gs \<and> (\<forall>f\<in>set gs. fst f = side)"
proof (induction t arbitrary: par c)
  case (Node l x r)
  note t = Node.prems [unfolded is_tree_get]
  let ?sub = "if side then r else l" and ?oth = "if side then l else r"
  have nd: "Node l x r = nd side x ?sub ?oth" by (simp add: nd_def)
  have sub: "is_tree (av_heap ob) (Some x) (link ob x side) ?sub" and c: "c = x" using t by auto
  show ?case
  proof (cases "link ob x side")
    case None
    then have "?sub = Leaf" using sub by (cases ?sub) auto
    then show ?thesis using None c unfolding nd
      by (intro exI [of _ x] exI [of _ ?oth] exI [of _ "[]"]) (subst outermost.simps, simp)
  next
    case (Some c')
    then obtain m A gs where "outermost ob side c' = Some m" "?sub = plug (nd side m Leaf A) gs" "\<forall>f\<in>set gs. fst f = side"
      using Node.IH sub by (cases side) fastforce+
    then show ?thesis using Some c unfolding nd
      by (intro exI [of _ m] exI [of _ A] exI [of _ "gs @ [(side, x, ?oth)]"]) (subst outermost.simps, auto simp: plug_append)
  qed
qed simp

lemma place_one_side:
  "\<forall>f\<in>set gs. fst f = True \<Longrightarrow> place_right gs = []"
  "\<forall>f\<in>set gs. fst f = False \<Longrightarrow> place_left gs = []"
  by (induction gs) auto

lemma linked_parent_in:
  "linked ob (plug (Node l x r) fs) \<Longrightarrow> parent ob x = (case fs of [] \<Rightarrow> None | f # _ \<Rightarrow> Some (fst (snd f)))"
  using linked_parent by (cases fs) auto

lemma place_set_append: "place_set (gs @ hs) = place_set gs \<union> place_set hs"
  by (induction gs) auto

lemma place_distinct_append: "place_distinct (gs @ hs) \<Longrightarrow> place_set gs \<inter> place_set hs = {} \<and> place_distinct hs"
  by (induction gs) (auto simp: place_set_append)

lemma exchangeable_below:
  assumes l: "linked ob (plug (Node A m B) (gs @ (s, n, R) # fs))"
  shows "exchangeable ob n m"
proof -
  have m: "parent ob m = (case gs of [] \<Rightarrow> Some n | f # _ \<Rightarrow> Some (fst (snd f)))" using linked_parent_in [OF l] by (cases gs) auto
  have "linked ob (plug (nd s n (plug (Node A m B) gs) R) fs)" using l by (simp add: plug_append)
  then have n: "parent ob n = (case fs of [] \<Rightarrow> None | f # _ \<Rightarrow> Some (fst (snd f)))"
    using linked_parent_in nd_root [of s n "plug (Node A m B) gs" R] by fastforce
  have fst_in: "hs = f # hs' \<Longrightarrow> fst (snd f) \<in> place_set hs" for hs f hs' by (cases f) auto
  have "m \<notin> place_set gs" "m \<noteq> n" "m \<notin> place_set fs" "n \<notin> place_set fs" "n \<notin> place_set gs" "place_set gs \<inter> place_set fs = {}"
    using l place_distinct_append [of gs "(s, n, R) # fs"] unfolding linked_def distinct_plug place_set_append by auto
  then show ?thesis using m n fst_in [of gs] fst_in [of fs] unfolding exchangeable_def by (cases gs; cases fs) auto
qed

subsection \<open>Removal\<close>

text \<open>A node with at most one child is taken out.\<close>

lemma BAVL_replace_subtree_linked:
  assumes l: "linked ob (plug (nd s n A Leaf) fs)"
  shows "linked (BAVL_replace_subtree ob n (link ob n s)) (plug A fs)"
    "\<And>y. bn_balance (av_heap (BAVL_replace_subtree ob n (link ob n s)) y) = bn_balance (av_heap ob y)"
    "\<And>y. y \<notin> set_tree (plug (nd s n A Leaf) fs) \<Longrightarrow> av_heap (BAVL_replace_subtree ob n (link ob n s)) y = av_heap ob y"
proof -
  obtain par where pl: "is_place (av_heap ob) (av_root ob) fs par (Some n)" and pn: "parent ob n = par"
    and A: "is_tree (av_heap ob) (Some n) (link ob n s) A"
    using l by (auto simp: linked_def is_tree_plug is_tree_nd parent_def link_def)
  have d: "distinct (inorder A)" "n \<notin> set_tree A" "n \<notin> place_set fs" "set_tree A \<inter> place_set fs = {}" "place_distinct fs"
    using l by (auto simp: linked_def distinct_plug distinct_nd)
  let ?q = "link ob n s"
  let ?o = "relink par n ?q ob"
  have rs: "BAVL_replace_subtree ob n ?q = set_parent_if ?q par ?o" by (simp add: BAVL_replace_subtree_def pn Let_def)
  have par: "par = Some y \<Longrightarrow> y \<in> place_set fs" for y using is_place_par pl by blast
  have q: "?q = Some y \<Longrightarrow> y \<in> set_tree A" for y using A is_tree_root [of "av_heap ob" "Some n" y A] by simp
  have A': "is_tree (av_heap ?o) (Some n) ?q A"
    using A d(4) par by (subst is_tree_cong [of A _ "av_heap ob"]) (auto intro!: av_heap_relink)
  have pl': "is_place (av_heap ?o) (av_root ?o) fs par ?q" by (rule is_place_relink [OF pl d(5,3)])
  have h2: "av_heap (set_parent_if ?q par ?o) y = av_heap ?o y" if "?q \<noteq> Some y" for y
    using that by (auto simp: set_parent_if_def set_parent_def split: option.split)
  have "is_place (av_heap (set_parent_if ?q par ?o)) (av_root (set_parent_if ?q par ?o)) fs par ?q"
    using pl' d(4) q unfolding get_set by (subst is_place_cong [of _ _ "av_heap ?o"]) (auto intro!: h2)
  then show "linked (BAVL_replace_subtree ob n ?q) (plug A fs)"
    using is_tree_reparent [OF A' d(1)] d(1,4,5) unfolding rs linked_def is_tree_plug distinct_plug by blast
  show "bn_balance (av_heap (BAVL_replace_subtree ob n ?q) y) = bn_balance (av_heap ob y)" for y
    unfolding rs balance_def [symmetric] by simp
  show "av_heap (BAVL_replace_subtree ob n ?q) y = av_heap ob y" if "y \<notin> set_tree (plug (nd s n A Leaf) fs)" for y
    using that q par unfolding rs by (subst h2) (auto intro!: av_heap_relink)
qed

lemma remove_short:
  assumes l: "linked ob (plug (nd s n A Leaf) fs)" and b: "bal_ok (av_heap ob) (plug (nd s n A Leaf) fs)"
  shows "\<exists>ob' t'. (case parent ob n of
        Some p \<Rightarrow> BAVL_rebalance (BAVL_replace_subtree ob n (link ob n s)) p (Some n = link ob p True) (-1)
      | None \<Rightarrow> Some (BAVL_replace_subtree ob n (link ob n s))) = Some ob' \<and>
    linked ob' t' \<and> bal_ok (av_heap ob') t' \<and> inorder t' = place_left fs @ inorder A @ place_right fs \<and>
    (\<forall>y. y \<notin> set_tree (plug (nd s n A Leaf) fs) \<longrightarrow> av_heap ob' y = av_heap ob y)"
proof -
  let ?o = "BAVL_replace_subtree ob n (link ob n s)"
  note rs = BAVL_replace_subtree_linked [OF l]
  obtain l' r' where n: "nd s n A Leaf = Node l' n r'" using nd_root by blast
  have bA: "bal_ok (av_heap ?o) A" and pb: "place_bal (av_heap ?o) (int (height A) + 1) fs"
    using b rs(2) bal_ok_cong [of A "av_heap ?o" "av_heap ob"] place_bal_cong [of fs "av_heap ?o" "av_heap ob"]
    by (auto simp: bal_ok_plug bal_ok_nd add.commute)
  show ?thesis
  proof (cases fs)
    case Nil
    then have "parent ob n = None" using l n linked_parent(1) by auto
    then show ?thesis using rs Nil bA by (intro exI [of _ ?o] exI [of _ A]) auto
  next
    case (Cons f gs)
    then obtain s' p u where fs: "fs = (s', p, u) # gs" by (cases f) auto
    have "parent ob n = Some p \<and> (Some n = link ob p True) = s'" using linked_parent(2) l unfolding fs n by blast
    moreover have "linked ?o (plug (nd s' p A u) gs)" using rs(1) by (simp add: fs)
    moreover have "off_by ?o s' p A u (int (height A) + 1) (-1)" "place_bal (av_heap ?o) (max (int (height A) + 1) (int (height u)) + 1) gs"
      using bA pb by (auto simp: fs off_by_def)
    ultimately obtain ob' t' where r: "BAVL_rebalance ?o p s' (-1) = Some ob'" "linked ob' t'" "bal_ok (av_heap ob') t'"
        "inorder t' = inorder (plug (nd s' p A u) gs)" "\<And>y. y \<notin> set_tree (plug (nd s' p A u) gs) \<Longrightarrow> av_heap ob' y = av_heap ?o y"
      using BAVL_rebalance_spec [of ?o s' p A u gs "int (height A) + 1" "-1"] by auto
    have "inorder t' = place_left fs @ inorder A @ place_right fs" using r(4) inorder_plug [of A fs] by (simp add: fs)
    moreover have "av_heap ob' y = av_heap ob y" if "y \<notin> set_tree (plug (nd s n A Leaf) fs)" for y
      using r(5) [of y] rs(3) [OF that] that by (simp add: fs)
    ultimately show ?thesis using r(1-3) \<open>parent ob n = Some p \<and> _\<close> by (intro exI [of _ ob'] exI [of _ t']) simp
  qed
qed

lemma tree_at: "n \<in> set_tree t \<Longrightarrow> \<exists>l r fs. t = plug (Node l n r) fs"
proof (induction t)
  case (Node a x b)
  consider "n = x" | "n \<in> set_tree a" | "n \<in> set_tree b" using Node.prems by auto
  then show ?case
  proof cases
    case 1
    then show ?thesis by (intro exI [of _ a] exI [of _ b] exI [of _ "[]"]) simp
  next
    case 2
    then obtain l r fs where "a = plug (Node l n r) fs" using Node.IH(1) by blast
    then show ?thesis by (intro exI [of _ l] exI [of _ r] exI [of _ "fs @ [(False, x, b)]"]) (simp add: plug_append nd_def)
  next
    case 3
    then obtain l r fs where "b = plug (Node l n r) fs" using Node.IH(2) by blast
    then show ?thesis by (intro exI [of _ l] exI [of _ r] exI [of _ "fs @ [(True, x, a)]"]) (simp add: plug_append nd_def)
  qed
qed simp

lemma map_plug: "map_tree f (plug t fs) = plug (map_tree f t) (map (\<lambda>(s, x, u). (s, f x, map_tree f u)) fs)"
proof (induction t fs rule: plug.induct)
  case (2 t s x u fs)
  then show ?case by (cases s) (simp_all add: nd_def)
qed simp

lemma map_tree_exchange: "a \<notin> set_tree t \<Longrightarrow> b \<notin> set_tree t \<Longrightarrow> map_tree (exchange a b) t = t"
  by (rule tree.map_ident_strong) (auto simp: exchange_def)

lemma map_place_exchange:
  "a \<notin> place_set fs \<Longrightarrow> b \<notin> place_set fs \<Longrightarrow> map (\<lambda>(s, x, u). (s, exchange a b x, map_tree (exchange a b) u)) fs = fs"
proof (induction fs)
  case (Cons f fs)
  obtain s x u where f: "f = (s, x, u)" by (cases f)
  have "exchange a b x = x" "map_tree (exchange a b) u = u" using Cons.prems by (auto simp: f exchange_def map_tree_exchange)
  then show ?case using Cons by (simp add: f)
qed simp

lemma exchange_below:
  assumes "distinct (inorder (plug (Node A m Leaf) (gs @ (s, n, R) # fs)))"
  shows "map_tree (exchange n m) (plug (Node A m Leaf) (gs @ (s, n, R) # fs)) = plug (Node A n Leaf) (gs @ (s, m, R) # fs)"
proof -
  have "m \<notin> set_tree A" "n \<notin> set_tree A" "m \<notin> place_set gs" "n \<notin> place_set gs" "m \<notin> set_tree R" "n \<notin> set_tree R"
    "m \<notin> place_set fs" "n \<notin> place_set fs"
    using assms place_distinct_append [of gs "(s, n, R) # fs"] unfolding distinct_plug place_set_append by auto
  then show ?thesis by (simp add: map_plug map_tree_exchange map_place_exchange) (simp add: exchange_def)
qed

lemma BAVL_unlink_spec:
  assumes l: "linked ob (plug (Node a n b) fs)" and bal: "bal_ok (av_heap ob) (plug (Node a n b) fs)" and ab: "a = Leaf \<or> b = Leaf"
  shows "\<exists>ob' t'. BAVL_unlink ob n = Some ob' \<and> linked ob' t' \<and> bal_ok (av_heap ob') t' \<and>
     inorder t' = place_left fs @ inorder a @ inorder b @ place_right fs \<and>
     (\<forall>y. y \<notin> set_tree (plug (Node a n b) fs) \<longrightarrow> av_heap ob' y = av_heap ob y)"
proof -
  have links: "is_tree (av_heap ob) (Some n) (link ob n False) a" "is_tree (av_heap ob) (Some n) (link ob n True) b"
    using l by (auto simp: linked_def is_tree_plug link_def)
  define s where "s = (b \<noteq> Leaf)"
  define A where "A = (if s then b else a)"
  have nd: "Node a n b = nd s n A Leaf" "inorder A = inorder a @ inorder b" using ab by (auto simp: s_def A_def nd_def)
  have c: "(if link ob n False \<noteq> None then link ob n False else link ob n True) = link ob n s"
    "\<not> (link ob n False \<noteq> None \<and> link ob n True \<noteq> None)"
    using links ab by (cases a; cases b; auto simp: s_def)+
  have "BAVL_unlink ob n = (case parent ob n of
        Some p \<Rightarrow> BAVL_rebalance (BAVL_replace_subtree ob n (link ob n s)) p (Some n = link ob p True) (-1)
      | None \<Rightarrow> Some (BAVL_replace_subtree ob n (link ob n s)))"
    unfolding BAVL_unlink_def Let_def if_not_P [OF c(2)] c(1) ..
  moreover have "inorder A = inorder a @ inorder b" by (rule nd(2))
  ultimately show ?thesis using remove_short [OF l [unfolded nd(1)] bal [unfolded nd(1)]] unfolding nd(1) by auto
qed

lemma BAVL_Remove_spec:
  assumes l: "linked ob t" and bal: "bal_ok (av_heap ob) t" and n: "n \<in> set_tree t"
  shows "\<exists>ob' t'. BAVL_Remove ob n = Some ob' \<and> linked ob' t' \<and> bal_ok (av_heap ob') t' \<and> inorder t' = remove1 n (inorder t) \<and>
     (\<forall>y. y \<notin> set_tree t \<longrightarrow> av_heap ob' y = av_heap ob y)"
proof -
  obtain a b fs where t: "t = plug (Node a n b) fs" using tree_at [OF n] by blast
  have links: "is_tree (av_heap ob) (Some n) (link ob n False) a" "is_tree (av_heap ob) (Some n) (link ob n True) b"
    using l by (auto simp: t linked_def is_tree_plug link_def)
  have dis: "distinct (inorder t)" using l by (simp add: linked_def)
  have inord: "inorder t = place_left fs @ inorder a @ n # inorder b @ place_right fs" by (simp add: t inorder_plug)
  have rem: "remove1 n (inorder t) = place_left fs @ inorder a @ inorder b @ place_right fs"
    using dis unfolding inord by (simp add: remove1_append)
  show ?thesis
  proof (cases "a = Leaf \<or> b = Leaf")
    case True
    then have "link ob n False = None \<or> link ob n True = None" using links by auto
    then have "BAVL_Remove ob n = BAVL_unlink ob n" by (auto simp: BAVL_Remove_def split: option.split)
    then show ?thesis using BAVL_unlink_spec [OF l [unfolded t] bal [unfolded t] True] unfolding rem t [symmetric] by simp
  next
    case False
    then obtain c r where cr: "link ob n False = Some c" "link ob n True = Some r" using links by (cases a; cases b) auto
    obtain m A gs where m: "outermost ob True c = Some m" "a = plug (nd True m Leaf A) gs" "\<forall>f\<in>set gs. fst f = True"
      using outermost_spec [of ob "Some n" c a True] links(1) cr by auto
    have t2: "t = plug (Node A m Leaf) (gs @ (False, n, b) # fs)" by (simp add: t m(2) plug_append nd_def)
    let ?o = "BAVL_swap_nodes ob n m"
    have ex: "exchangeable ob n m" using exchangeable_below l unfolding t2 by blast
    have ms: "m \<in> set_tree t" by (simp add: t2)
    note sw = BAVL_swap_nodes_spec [OF l n ms ex] swap_frame [OF l n ms ex]
    have ex2: "map_tree (exchange n m) t = plug (Node A n Leaf) (gs @ (False, m, b) # fs)"
      using exchange_below dis unfolding t2 by blast
    obtain ob' t' where u: "BAVL_unlink ?o n = Some ob'" "linked ob' t'" "bal_ok (av_heap ob') t'"
        "inorder t' = place_left (gs @ (False, m, b) # fs) @ inorder A @ inorder Leaf @ place_right (gs @ (False, m, b) # fs)"
        "\<And>y. y \<notin> set_tree (plug (Node A n Leaf) (gs @ (False, m, b) # fs)) \<Longrightarrow> av_heap ob' y = av_heap ?o y"
      using BAVL_unlink_spec [of ?o A n Leaf "gs @ (False, m, b) # fs"] sw(1,2) bal unfolding ex2 by blast
    have "BAVL_Remove ob n = Some ob'" using u(1) m(1) by (simp add: BAVL_Remove_def cr BAVL_subtree_max_def)
    moreover have "inorder t' = remove1 n (inorder t)"
      unfolding u(4) rem m(2) inorder_plug using place_one_side(1) [OF m(3)] by (simp add: place_append nd_def)
    moreover have "set_tree (plug (Node A n Leaf) (gs @ (False, m, b) # fs)) = set_tree t" by (auto simp: t2 place_set_append)
    then have "av_heap ob' y = av_heap ob y" if "y \<notin> set_tree t" for y using u(5) [of y] sw(3) [OF that] that by simp
    ultimately show ?thesis using u(2,3) by blast
  qed
qed

subsection \<open>Walking in order\<close>

text \<open>The nodes that follow a subtree at a place, in the direction \<open>side\<close>.\<close>

definition onwards :: "bool \<Rightarrow> place \<Rightarrow> nat list" where
  "onwards side fs = (if side then place_right fs else rev (place_left fs))"

definition in_direction :: "bool \<Rightarrow> nat tree \<Rightarrow> nat list" where
  "in_direction side t = (if side then inorder t else rev (inorder t))"

lemma outermost_first:
  assumes "is_tree (av_heap ob) par (Some c) t"
  shows "\<exists>m ys. outermost ob (\<not> side) c = Some m \<and> in_direction side t = m # ys"
proof -
  obtain m A gs where m: "outermost ob (\<not> side) c = Some m" "t = plug (nd (\<not> side) m Leaf A) gs" "\<forall>f\<in>set gs. fst f = (\<not> side)"
    using outermost_spec [OF assms] by blast
  then show ?thesis using place_one_side [of gs] by (cases side) (auto simp: in_direction_def inorder_plug nd_def)
qed

lemma climb_spec:
  assumes "linked ob (plug (Node l x r) fs)"
  shows "climb ob side x = Some (tree_first (onwards side fs))"
  using assms
proof (induction fs arbitrary: l x r)
  case Nil
  then show ?case using linked_parent(1) by (subst climb.simps) (auto simp: onwards_def tree_first_def)
next
  case (Cons f fs)
  obtain s p u where f: "f = (s, p, u)" by (cases f)
  note l = Cons.prems [unfolded f]
  have p: "parent ob x = Some p" "(Some x = link ob p True) = s" using linked_parent(2) [OF l] by auto
  have "link ob p side = Some x \<longleftrightarrow> parent ob x = Some p \<and> side = (Some x = link ob p True)"
    by (rule linked_neighbours(2) [OF l]) auto
  then have lk: "(Some x = link ob p side) = (side = s)" using p by (metis (full_types))
  obtain l' r' where n: "nd s p (Node l x r) u = Node l' p r'" using nd_root by blast
  show ?case
  proof (cases "side = s")
    case True
    then have "climb ob side x = climb ob side p" using lk p by (subst climb.simps) simp
    also have "\<dots> = Some (tree_first (onwards side fs))" using l n by (intro Cons.IH [of l' p r']) simp
    finally show ?thesis using True by (auto simp: f onwards_def)
  next
    case False
    then have "climb ob side x = Some (Some p)" using lk p by (subst climb.simps) simp
    then show ?thesis using False by (auto simp: f onwards_def tree_first_def)
  qed
qed

lemma adjacent_spec:
  assumes l: "linked ob (plug (Node a n b) fs)"
  shows "(case link ob n side of Some m \<Rightarrow> map_option Some (outermost ob (\<not> side) m) | None \<Rightarrow> climb ob side n) =
    Some (tree_first (in_direction side (if side then b else a) @ onwards side fs))"
proof (cases "link ob n side")
  case None
  have "is_tree (av_heap ob) (Some n) (link ob n side) (if side then b else a)"
    using l by (auto simp: linked_def is_tree_plug link_def)
  then have "(if side then b else a) = Leaf" using None by (cases "if side then b else a") auto
  then show ?thesis using None climb_spec [OF l] by (simp add: in_direction_def)
next
  case (Some m)
  then have "is_tree (av_heap ob) (Some n) (Some m) (if side then b else a)"
    using l by (auto simp: linked_def is_tree_plug link_def)
  from outermost_first [OF this, of side] obtain m' ys where
    "outermost ob (\<not> side) m = Some m'" "in_direction side (if side then b else a) = m' # ys" by blast
  then show ?thesis using Some by (simp add: tree_first_def)
qed

lemma BAVL_GetNext_spec:
  assumes l: "linked ob t" and t: "inorder t = xs @ n # ys"
  shows "BAVL_GetNext ob n = Some (tree_first ys)" "BAVL_GetPrev ob n = Some (tree_first (rev xs))"
proof -
  have "n \<in> set_tree t" using t by (metis in_set_conv_decomp set_inorder)
  then obtain a b fs where tt: "t = plug (Node a n b) fs" using tree_at by blast
  have "distinct (xs @ n # ys)" using l unfolding t [symmetric] linked_def by blast
  then have "n \<notin> set xs" "n \<notin> set ys" by auto
  moreover have "xs @ n # ys = (place_left fs @ inorder a) @ n # (inorder b @ place_right fs)" using t by (simp add: tt inorder_plug)
  ultimately have eq: "xs = place_left fs @ inorder a" "ys = inorder b @ place_right fs"
    using append_Cons_eq_iff [of n xs ys] by blast+
  show "BAVL_GetNext ob n = Some (tree_first ys)" "BAVL_GetPrev ob n = Some (tree_first (rev xs))"
    using adjacent_spec [OF l [unfolded tt], of True, unfolded not_True_eq_False] adjacent_spec [OF l [unfolded tt], of False, unfolded not_False_eq_True]
    by (simp_all add: BAVL_GetNext_def BAVL_GetPrev_def eq in_direction_def onwards_def)
qed

lemma BAVL_GetFirst_spec:
  assumes l: "linked ob t"
  shows "BAVL_GetFirst ob = Some (tree_first (inorder t))" "BAVL_GetLast ob = Some (tree_first (rev (inorder t)))"
proof -
  have tr: "is_tree (av_heap ob) None (av_root ob) t" using l by (simp add: linked_def)
  show "BAVL_GetFirst ob = Some (tree_first (inorder t))" "BAVL_GetLast ob = Some (tree_first (rev (inorder t)))"
  proof (atomize (full), cases "av_root ob")
    case None
    then have "t = Leaf" using tr by (cases t) auto
    then show "BAVL_GetFirst ob = Some (tree_first (inorder t)) \<and> BAVL_GetLast ob = Some (tree_first (rev (inorder t)))"
      using None by (simp add: BAVL_GetFirst_def BAVL_GetLast_def tree_first_def)
  next
    case (Some c)
    have tc: "is_tree (av_heap ob) None (Some c) t" using tr Some by simp
    obtain m ys where "outermost ob False c = Some m" "inorder t = m # ys"
      using outermost_first [OF tc, of True] by (auto simp: in_direction_def)
    moreover obtain m' ys' where "outermost ob True c = Some m'" "rev (inorder t) = m' # ys'"
      using outermost_first [OF tc, of False] unfolding in_direction_def by auto
    ultimately show "BAVL_GetFirst ob = Some (tree_first (inorder t)) \<and> BAVL_GetLast ob = Some (tree_first (rev (inorder t)))"
      unfolding BAVL_GetFirst_def BAVL_GetLast_def tree_first_def using Some by simp
  qed
qed

subsection \<open>The consistency check and the depth\<close>

text \<open>A balanced tree of height \<open>h\<close> has at least \<open>2 ^ (h div 2) - 1\<close> nodes, so every loop is short.\<close>

lemma bal_ok_size: "bal_ok h t \<Longrightarrow> 2 ^ (height t div 2) \<le> size1 t"
proof (induction "height t" arbitrary: t rule: less_induct)
  case less
  show ?case
  proof (cases t)
    case (Node l x r)
    have b: "bal_ok h l" "bal_ok h r" "\<bar>int (height r) - int (height l)\<bar> \<le> 1" using less.prems by (auto simp: Node)
    show ?thesis
    proof (cases "height t < 2")
      case True
      then have "height t div 2 = 0" by simp
      then show ?thesis by (simp add: size1_size)
    next
      case False
      have "2 ^ (height l div 2) \<le> size1 l" "2 ^ (height r div 2) \<le> size1 r" using less.hyps b by (auto simp: Node)
      moreover have "height t - 2 \<le> height l" "height t - 2 \<le> height r" using b(3) by (auto simp: Node)
      then have "(2::nat) ^ ((height t - 2) div 2) \<le> 2 ^ (height l div 2)" "(2::nat) ^ ((height t - 2) div 2) \<le> 2 ^ (height r div 2)"
        by (auto intro!: power_increasing div_le_mono)
      moreover have "height t div 2 = Suc ((height t - 2) div 2)" using False by simp
      then have "(2::nat) ^ (height t div 2) = 2 * 2 ^ ((height t - 2) div 2)" by simp
      moreover have "size1 t = size1 l + size1 r" by (simp add: Node)
      ultimately show ?thesis by linarith
    qed
  qed simp
qed

lemma bal_ok_range: "bal_ok h t \<Longrightarrow> n \<in> set_tree t \<Longrightarrow> -1 \<le> bn_balance (h n) \<and> bn_balance (h n) \<le> 1"
  by (induction t) auto

context bavl_order
begin

lemma BAVL_assert_recurser_spec:
  assumes "is_tree (av_heap ob) par (Some c) t" "bal_ok (av_heap ob) t" "tree_sorted (\<lambda>a b. cmp (val a) (val b)) (inorder t)"
  shows "BAVL_assert_recurser cmp val ob c = Some (int (height t))"
  using assms
proof (induction t arbitrary: par c)
  case (Node l x r)
  note t = Node.prems(1) [unfolded is_tree_get]
  have c: "c = x" using t by simp
  have srt: "tree_sorted (\<lambda>a b. cmp (val a) (val b)) (inorder l)" "tree_sorted (\<lambda>a b. cmp (val a) (val b)) (inorder r)"
    "\<forall>y\<in>set_tree l. cmp (val y) (val x) < 0" "\<forall>y\<in>set_tree r. cmp (val x) (val y) < 0"
    using Node.prems(3) by (auto simp: tree_sorted_def sorted_wrt_append)
  have "(case link ob x False of None \<Rightarrow> Some 0 | Some l \<Rightarrow> if parent ob l \<noteq> Some x \<or> BAVL_compare_values cmp (val l) (val x) \<noteq> Some (-1) then None
      else BAVL_assert_recurser cmp val ob l) = Some (int (height l))"
  proof (cases "link ob x False")
    case (Some y)
    have ty: "is_tree (av_heap ob) (Some x) (Some y) l" using t Some by simp
    then have y: "y \<in> set_tree l" "parent ob y = Some x" using is_tree_root by (auto simp: parent_def)
    have "cmp (val y) (val x) = -1" using srt(3) y(1) cmp_range [of "val y" "val x"] by fastforce
    then show ?thesis using Some y(2) Node.IH(1) [OF ty] Node.prems(2) srt(1) by (simp add: compare_values)
  qed (use t in \<open>cases l; auto\<close>)
  moreover have "(case link ob x True of None \<Rightarrow> Some 0 | Some r \<Rightarrow> if parent ob r \<noteq> Some x \<or> BAVL_compare_values cmp (val r) (val x) \<noteq> Some 1 then None
      else BAVL_assert_recurser cmp val ob r) = Some (int (height r))"
  proof (cases "link ob x True")
    case (Some y)
    have ty: "is_tree (av_heap ob) (Some x) (Some y) r" using t Some by simp
    then have y: "y \<in> set_tree r" "parent ob y = Some x" using is_tree_root by (auto simp: parent_def)
    have "0 < cmp (val y) (val x)" using srt(4) y(1) cmp_sym by blast
    then have "cmp (val y) (val x) = 1" using cmp_range [of "val y" "val x"] by linarith
    then show ?thesis using Some y(2) Node.IH(2) [OF ty] Node.prems(2) srt(2) by (simp add: compare_values)
  qed (use t in \<open>cases r; auto\<close>)
  moreover have "balance ob x = int (height r) - int (height l)" "-1 \<le> balance ob x" "balance ob x \<le> 1"
    using Node.prems(2) by (auto simp: balance_def)
  ultimately show ?case unfolding c by (subst BAVL_assert_recurser.simps) simp
qed simp

lemma BAVL_Verify_spec:
  assumes "holds cmp val ob xs"
  shows "BAVL_Verify cmp val ob = Some ()"
proof -
  obtain t where t: "is_tree (av_heap ob) None (av_root ob) t" "bal_ok (av_heap ob) t" "tree_sorted (\<lambda>a b. cmp (val a) (val b)) (inorder t)"
    using assms by (auto simp: holds_def linked_def)
  show ?thesis
  proof (cases "av_root ob")
    case (Some c)
    have "parent ob c = None" using t(1) Some is_tree_root [of "av_heap ob" None c t] by (simp add: parent_def)
    then show ?thesis using BAVL_assert_recurser_spec [OF t(1) [unfolded Some] t(2,3)] by (simp add: BAVL_Verify_def Some)
  qed (simp add: BAVL_Verify_def)
qed

lemma BAVL_Remove_holds:
  assumes h: "holds cmp val ob xs" and n: "n \<in> set xs"
  shows "\<exists>ob'. BAVL_Remove ob n = Some ob' \<and> holds cmp val ob' (tree_remove n xs)"
proof -
  obtain t where t: "linked ob t" "bal_ok (av_heap ob) t" "inorder t = xs" "tree_sorted (\<lambda>a b. cmp (val a) (val b)) xs"
    using h by (auto simp: holds_def)
  have "n \<in> set_tree t" using n t(3) by (metis set_inorder)
  from BAVL_Remove_spec [OF t(1,2) this] obtain ob' t' where
    "BAVL_Remove ob n = Some ob'" "linked ob' t'" "bal_ok (av_heap ob') t'" "inorder t' = remove1 n xs" unfolding t(3) by blast
  then show ?thesis using tree_remove_sorted [OF t(4)] unfolding holds_def tree_remove_def by blast
qed

end

subsection \<open>Runs\<close>

text \<open>The comparison that most users build their comparators from.\<close>

interpretation compared: bavl_order "B_COMPARE :: 'a :: linorder \<Rightarrow> 'a \<Rightarrow> int"
  by unfold_locales (auto simp: B_COMPARE_def)

text \<open>A program that inserts and removes nodes, and what it does to the sequence of nodes.\<close>

datatype bavl_op = Op_Insert nat | Op_Remove nat

fun BAVL_run :: "('v \<Rightarrow> 'v \<Rightarrow> int) \<Rightarrow> (nat \<Rightarrow> 'v) \<Rightarrow> bavl_op list \<Rightarrow> BAVL \<Rightarrow> BAVL option" where
  "BAVL_run cmp val [] ob = Some ob"
| "BAVL_run cmp val (Op_Insert n # ops) ob =
     (case BAVL_Insert cmp val ob n of None \<Rightarrow> None | Some (ob, _, _) \<Rightarrow> BAVL_run cmp val ops ob)"
| "BAVL_run cmp val (Op_Remove n # ops) ob =
     (case BAVL_Remove ob n of None \<Rightarrow> None | Some ob \<Rightarrow> BAVL_run cmp val ops ob)"

text \<open>A node in the tree must not be inserted again, and only a node in the tree may be removed.\<close>

fun list_run :: "('v \<Rightarrow> 'v \<Rightarrow> int) \<Rightarrow> (nat \<Rightarrow> 'v) \<Rightarrow> bavl_op list \<Rightarrow> nat list \<Rightarrow> nat list option" where
  "list_run cmp val [] xs = Some xs"
| "list_run cmp val (Op_Insert n # ops) xs =
     (if n \<in> set xs then None
      else list_run cmp val ops (case tree_insert (\<lambda>a b. cmp (val a) (val b)) n xs of None \<Rightarrow> xs | Some ys \<Rightarrow> ys))"
| "list_run cmp val (Op_Remove n # ops) xs =
     (if n \<in> set xs then list_run cmp val ops (tree_remove n xs) else None)"

text \<open>The walk from the first node on, for at most the given number of nodes.\<close>

fun walk_from :: "BAVL \<Rightarrow> nat \<Rightarrow> nat option \<Rightarrow> nat list option" where
  "walk_from ob fuel None = Some []"
| "walk_from ob 0 (Some n) = None"
| "walk_from ob (Suc fuel) (Some n) =
     (case BAVL_GetNext ob n of None \<Rightarrow> None | Some m \<Rightarrow> map_option ((#) n) (walk_from ob fuel m))"

lemma walk_from_spec:
  assumes l: "linked ob t" and t: "inorder t = xs @ ys" and f: "length ys \<le> fuel"
  shows "walk_from ob fuel (tree_first ys) = Some ys"
  using t f
proof (induction ys arbitrary: xs fuel)
  case (Cons n ys)
  then obtain k where k: "fuel = Suc k" "length ys \<le> k" by (cases fuel) auto
  have "walk_from ob k (tree_first ys) = Some ys" using Cons.IH [of "xs @ [n]" k] Cons.prems k by simp
  moreover have "BAVL_GetNext ob n = Some (tree_first ys)" using BAVL_GetNext_spec(1) [OF l] Cons.prems(1) by simp
  ultimately show ?case using k by (simp add: tree_first_def)
qed (simp add: tree_first_def)

context bavl_order
begin

lemma cmp_same_unique:
  assumes "tree_sorted (\<lambda>a b. cmp (val a) (val b)) xs" "x \<in> set xs" "y \<in> set xs" "cmp v (val x) = 0" "cmp v (val y) = 0"
  shows "x = y"
proof (rule ccontr)
  have z: "cmp (val x) v \<le> 0" "cmp (val y) v \<le> 0" using assms(4,5) cmp_sym [of "val x" v] cmp_sym [of "val y" v] by auto
  have "cmp (val x) (val y) = 0"
    using cmp_trans [OF z(1), of "val y"] cmp_trans [OF z(2), of "val x"] assms(4,5) cmp_sym [of "val x" "val y"] cmp_sym [of "val y" "val x"]
    by linarith
  moreover assume "x \<noteq> y"
  then have "cmp (val x) (val y) < 0 \<or> cmp (val y) (val x) < 0"
    using assms(1-3) unfolding tree_sorted_def by (induction xs) auto
  ultimately show False using cmp_sym [of "val x" "val y"] by simp
qed

lemma lookup_find:
  assumes h: "holds cmp val ob xs"
  shows "BAVL_LookupExact cmp val ob v = Some (find (\<lambda>n. cmp v (val n) = 0) xs) \<and>
    (\<exists>ref. BAVL_Lookup cmp val ob v = Some ref \<and>
      (if find (\<lambda>n. cmp v (val n) = 0) xs = None
       then neighbour (filter (\<lambda>n. 0 < cmp v (val n)) xs) (filter (\<lambda>n. cmp v (val n) < 0) xs) ref
       else ref = find (\<lambda>n. cmp v (val n) = 0) xs))"
proof (cases rule: BAVL_Lookup_cases [OF h, of v])
  case (1 c)
  have srt: "tree_sorted (\<lambda>a b. cmp (val a) (val b)) xs" using h by (simp add: holds_def)
  obtain d where d: "find (\<lambda>n. cmp v (val n) = 0) xs = Some d"
    using 1(3,4) by (cases "find (\<lambda>n. cmp v (val n) = 0) xs") (auto simp: find_None_iff)
  then have "d \<in> set xs" "cmp v (val d) = 0" by (auto simp: find_Some_iff)
  then have "d = c" using cmp_same_unique [OF srt, of d c v] 1(3,4) by simp
  then show ?thesis using 1(1,2) d by simp
next
  case (2 as bs ref)
  have "find (\<lambda>n. cmp v (val n) = 0) xs = None" using 2(3,5,6) by (auto simp: find_None_iff)
  moreover have "filter (\<lambda>n. 0 < cmp v (val n)) xs = as" "filter (\<lambda>n. cmp v (val n) < 0) xs = bs"
    using 2(3,5,6) by (auto simp: filter_id_conv filter_empty_conv)
  ultimately show ?thesis using 2(1,2,4) by simp
qed

lemma BAVL_run_holds:
  "holds cmp val ob xs \<Longrightarrow> list_run cmp val ops xs = Some ys \<Longrightarrow> \<exists>ob'. BAVL_run cmp val ops ob = Some ob' \<and> holds cmp val ob' ys"
proof (induction ops arbitrary: ob xs)
  case (Cons p ops)
  show ?case
  proof (cases p)
    case (Op_Insert n)
    have n: "n \<notin> set xs" using Cons.prems(2) by (auto simp: Op_Insert split: if_splits)
    let ?xs = "case tree_insert (\<lambda>a b. cmp (val a) (val b)) n xs of None \<Rightarrow> xs | Some ys \<Rightarrow> ys"
    have "\<exists>ob' b r. BAVL_Insert cmp val ob n = Some (ob', b, r) \<and> holds cmp val ob' ?xs"
    proof (cases rule: BAVL_Insert_cases [OF Cons.prems(1) n])
      case (1 c)
      have "tree_insert (\<lambda>a b. cmp (val a) (val b)) n xs = None"
        using tree_insert_same [of val xs c n] Cons.prems(1) 1(2,3) unfolding holds_def by blast
      then show ?thesis using 1 Cons.prems(1) by auto
    next
      case (2 as bs ob' ref)
      then show ?thesis by auto
    qed
    then show ?thesis using Cons.IH [of _ ?xs] Cons.prems(2) n by (auto simp: Op_Insert)
  next
    case (Op_Remove n)
    then have n: "n \<in> set xs" "list_run cmp val ops (tree_remove n xs) = Some ys" using Cons.prems(2) by (auto split: if_splits)
    then show ?thesis using BAVL_Remove_holds [OF Cons.prems(1) n(1)] Cons.IH Op_Remove by fastforce
  qed
qed simp

end

lemma holds_Init: "holds cmp val (BAVL_Init h) []"
  unfolding holds_def by (intro conjI exI [of _ Leaf]) (auto simp: BAVL_Init_def linked_def tree_sorted_def)

subsection \<open>Correctness of the tree\<close>

text \<open>The state after a run from an empty tree.\<close>

lemma run_holds:
  assumes "bavl_order cmp" "list_run cmp val ops [] = Some xs" "BAVL_run cmp val ops (BAVL_Init h) = Some ob"
  shows "holds cmp val ob xs"
  using bavl_order.BAVL_run_holds [OF assms(1) holds_Init assms(2), of h] assms(3) by simp

lemma run_linked:
  assumes "bavl_order cmp" "list_run cmp val ops [] = Some xs" "BAVL_run cmp val ops (BAVL_Init h) = Some ob"
  obtains t where "linked ob t" "bal_ok (av_heap ob) t" "inorder t = xs"
  using run_holds [OF assms] by (auto simp: holds_def)

text \<open>
  C4: With a comparator that is a total order, every program that inserts nodes that are not in the
  tree and removes nodes that are in it runs to its end: no assertion fails, no null pointer is
  followed, every loop and the recursion of the rebalancing end. The tree then holds exactly the
  sequence that the same program gives on an ordered list (an insertion is refused when an equal
  value is present), its links and balances are consistent, and \<open>BAVL_Verify\<close> accepts it.
\<close>

theorem bavl_run_refines:
  assumes "bavl_order cmp" "list_run cmp val ops [] = Some xs"
  shows "\<exists>ob. BAVL_run cmp val ops (BAVL_Init h) = Some ob \<and> holds cmp val ob xs \<and> BAVL_Verify cmp val ob = Some ()"
  using bavl_order.BAVL_run_holds [OF assms(1) holds_Init assms(2), of h] bavl_order.BAVL_Verify_spec [OF assms(1)] by blast

text \<open>The nodes of the examples: every address is its own value, and memory starts as zeros.\<close>

definition zero_heap :: "nat \<Rightarrow> BAVLNode" where
  "zero_heap = (\<lambda>_. \<lparr>bn_parent = None, bn_link = (\<lambda>_. None), bn_balance = 0\<rparr>)"

definition sample_ops :: "bavl_op list" where
  "sample_ops = map Op_Insert [5, 2, 8, 1, 4, 7, 9, 3, 6] @ map Op_Remove [5, 8, 1]"

lemma sample_list_run: "list_run B_COMPARE (\<lambda>n. n) sample_ops [] = Some [2, 3, 4, 6, 7, 9]"
  by code_simp

theorem bavl_run_refines_witness:
  "list_run B_COMPARE (\<lambda>n. n) sample_ops [] = Some [2, 3, 4, 6, 7, 9] \<and>
   (\<exists>ob. BAVL_run B_COMPARE (\<lambda>n. n) sample_ops (BAVL_Init zero_heap) = Some ob \<and> holds B_COMPARE (\<lambda>n. n) ob [2, 3, 4, 6, 7, 9] \<and>
     BAVL_Verify B_COMPARE (\<lambda>n. n) ob = Some ())"
  using bavl_run_refines [OF compared.bavl_order_axioms sample_list_run] sample_list_run by blast

definition sample_tree :: BAVL where
  "sample_tree = the (BAVL_run B_COMPARE (\<lambda>n. n) sample_ops (BAVL_Init zero_heap))"

lemma sample_run: "BAVL_run B_COMPARE (\<lambda>n. n) sample_ops (BAVL_Init zero_heap) = Some sample_tree"
proof -
  have "BAVL_run B_COMPARE (\<lambda>n. n) sample_ops (BAVL_Init zero_heap) \<noteq> None"
    using bavl_order.BAVL_run_holds [OF compared.bavl_order_axioms holds_Init sample_list_run, of zero_heap] by auto
  then show ?thesis unfolding sample_tree_def by (rule option.collapse [symmetric])
qed

text \<open>
  C16: A lookup finds the node of the tree whose value compares equal, exactly as a scan of the whole
  sequence would, and otherwise \<open>BAVL_Lookup\<close> gives the greatest node before or the least node after
  the value that was looked for (nothing if the tree is empty) and \<open>BAVL_LookupExact\<close> gives nothing.
\<close>

theorem bavl_lookup:
  assumes "bavl_order cmp" "list_run cmp val ops [] = Some xs" "BAVL_run cmp val ops (BAVL_Init h) = Some ob"
  shows "BAVL_LookupExact cmp val ob v = Some (find (\<lambda>n. cmp v (val n) = 0) xs) \<and>
    (\<exists>ref. BAVL_Lookup cmp val ob v = Some ref \<and>
      (if find (\<lambda>n. cmp v (val n) = 0) xs = None
       then neighbour (filter (\<lambda>n. 0 < cmp v (val n)) xs) (filter (\<lambda>n. cmp v (val n) < 0) xs) ref
       else ref = find (\<lambda>n. cmp v (val n) = 0) xs))"
  by (rule bavl_order.lookup_find [OF assms(1) run_holds [OF assms]])

theorem bavl_lookup_witness:
  "BAVL_LookupExact B_COMPARE (\<lambda>n. n) sample_tree 6 = Some (Some 6) \<and> BAVL_LookupExact B_COMPARE (\<lambda>n. n) sample_tree 5 = Some None"
proof -
  have "find (\<lambda>n. B_COMPARE 6 n = 0) [2, 3, 4, 6, 7, 9 :: nat] = Some 6" "find (\<lambda>n. B_COMPARE 5 n = 0) [2, 3, 4, 6, 7, 9 :: nat] = None"
    by code_simp+
  then show ?thesis
    using bavl_lookup [OF compared.bavl_order_axioms sample_list_run sample_run, of 6]
      bavl_lookup [OF compared.bavl_order_axioms sample_list_run sample_run, of 5] by simp
qed

text \<open>
  C17: The walk of \<open>BAVL_GetFirst\<close> and then \<open>BAVL_GetNext\<close> ends after as many steps as there are nodes and
  visits all of them in order; the loops inside the steps end as well.
\<close>

theorem bavl_walk_terminates:
  assumes "bavl_order cmp" "list_run cmp val ops [] = Some xs" "BAVL_run cmp val ops (BAVL_Init h) = Some ob"
  shows "Option.bind (BAVL_GetFirst ob) (walk_from ob (length xs)) = Some xs"
proof -
  obtain t where t: "linked ob t" "bal_ok (av_heap ob) t" "inorder t = xs" using run_linked [OF assms] by blast
  show ?thesis using BAVL_GetFirst_spec(1) [OF t(1)] walk_from_spec [OF t(1), of "[]" xs "length xs"] t(3) by simp
qed

theorem bavl_walk_terminates_witness:
  "Option.bind (BAVL_GetFirst sample_tree) (walk_from sample_tree 6) = Some [2, 3, 4, 6, 7, 9]"
  using bavl_walk_terminates [OF compared.bavl_order_axioms sample_list_run sample_run] by (simp add: numeral_eq_Suc)



end
