(* ===== verification/Spec2Isabelle.thy ===== *)
theory Spec2Isabelle
  imports TunUdp Unicode PacketBuf PacketProto SPProto FragDisassemble FairQueue BavlRemove
begin

text \<open>
  BadVPN is a collection of networking programs in C: a peer-to-peer VPN (client and server), a
  program that turns the TCP and UDP traffic of a network interface into SOCKS connections
  (tun2socks), and the network configuration daemon NCD. They share a library of small components
  that exchange packets through queued interfaces. This development models those components that
  carry the data: what a datagram of the VPN goes through from the sender to the receiver, what
  tun2socks does with UDP, and the helpers underneath.

  \<^bold>\<open>How the parts fit together.\<close> A frame that a VPN client sends to a peer over UDP is cut into chunks
  that share packets (FragmentProto), each packet gets a one-time password, a hash and is
  encrypted (SPProto), and the peer undoes this in the reverse order; over TCP the packets are
  framed instead (PacketProto). Packets wait in circular buffers (PacketBuffer on ChunkBuffer2),
  and the flows to one peer share its link by a fair queue. Sequence of the theories:

  \<^item> \<open>Badvpn_Prelude\<close>: C integer types, byte memories, generic lemmas, the interface \<open>field_codec\<close>.
  \<^item> \<open>Byteorder\<close> (\<open>src/misc/byteorder.h\<close>, \<open>read_write_int.h\<close>): integers in bytes. The byte order of the
    host is the parameter \<open>host\<close> of every routine that depends on it; wire images do not depend on it.
    \<open>field_codec\<close> is interpreted on the six pairs of accessors.
  \<^item> \<open>Misc_Arith\<close> (\<open>src/misc/modadd.h\<close>, \<open>minmax.h\<close>, \<open>compare.h\<close>, \<open>balign.h\<close>, \<open>overflow.h\<close>, \<open>bsize.h\<close>).
  \<^item> \<open>BSort\<close> (\<open>src/misc/bsort.h\<close> and its use in \<open>src/ncd/modules/net_dns.c\<close>): the sort is stable, so
    DNS servers of equal priority keep their order. The interface \<open>comparator\<close> is what a caller promises.
  \<^item> \<open>OrderedTree\<close>: what the clients of the AVL trees see of them, and what they ask of a comparison
    (\<open>tree_order\<close>, which extends \<open>comparator\<close>).
  \<^item> \<open>Bavl\<close> and \<open>BavlRemove\<close> (\<open>src/structure/BAVL.h\<close>): the AVL tree as nodes in memory. A tree and the place of a
    subtree in it (\<open>is_tree\<close>, \<open>is_place\<close>) describe the links; rotation, rebalancing, insertion and removal are
    shown on them, down to a refinement of the sequences of \<open>OrderedTree\<close>. The interface \<open>bavl_order\<close> is what the
    documentation asks of a comparator, and is interpreted on \<open>B_COMPARE\<close>.
  \<^item> \<open>ParseNumber\<close> (\<open>src/misc/parse_number.h\<close>), \<open>IpAddr\<close> (\<open>src/misc/ipaddr.h\<close>), \<open>Baddr\<close>
    (\<open>src/system/BAddr.h\<close>): parsing and printing of numbers and addresses, with round trips and exact
    error conditions, and the total order on addresses.
  \<^item> \<open>Unicode\<close> (\<open>src/misc/Utf8Decoder.h\<close> and its neighbours, \<open>unicode_funcs.h\<close>): conversion between
    UTF-8 and UTF-16 as the incremental machines of the source, against a specification.
  \<^item> \<open>IpProto\<close> (\<open>src/misc/ipv4_proto.h\<close>, \<open>ipv6_proto.h\<close>, \<open>udp_proto.h\<close>): headers and checksums.
  \<^item> \<open>TunUdp\<close> (\<open>src/tun2socks/tun2socks.c\<close>, \<open>src/dhcpclient/DHCPIpUdp*.c\<close>): UDP from and to the device,
    echo replies, and the DHCP packets.
  \<^item> \<open>ChunkBuffer\<close> (\<open>src/structure/ChunkBuffer2.h\<close>) and \<open>PacketBuf\<close> (\<open>src/flow/PacketBuffer.c\<close>): a byte
    array with wrapping blocks refines a queue of packets; the interface \<open>packet_store\<close> is the queue that
    the packet buffer relies on, and is interpreted on the array.
  \<^item> \<open>PacketProto\<close> (\<open>src/flow/PacketProtoEncoder.c\<close>, \<open>PacketProtoDecoder.c\<close>): framing in a stream, however
    the stream is cut.
  \<^item> \<open>Otp\<close> (\<open>src/security/OTP*.c\<close>): the hash tables of the checker are multisets of passwords; generator
    and checker agree; the worker thread and the checker do not race.
  \<^item> \<open>SPProto\<close> (\<open>src/protocol/spproto.h\<close>, \<open>src/client/SPProto*.c\<close>): sizes, the way of a packet through
    encoder and decoder, exactly-once delivery through the composition with \<open>Otp\<close>, and that the encoder
    never stalls.
  \<^item> \<open>FragAssemble\<close> and \<open>FragDisassemble\<close> (\<open>src/client/FragmentProto*.c\<close>): safety of the assembler against
    any input, absence of corruption, and the round trip of the composition.
  \<^item> \<open>FairQueue\<close> (\<open>src/flow/PacketPassFairQueue.c\<close>): fairness and absence of starvation, through
    overflows of the virtual times.

  \<^bold>\<open>Conventions.\<close> A C structure is a record, a tagged union a datatype, a buffer a list of bytes with
  offsets for pointers into it. C integers are \<open>int\<close> or \<open>nat\<close> where the code keeps them in range (which
  the lemmas show where it matters) and words where they wrap. A handler is a function from the state to the new state and
  what it sends; \<open>None\<close> is a failed assertion, and a sum type carries the errors of parsers. Handlers
  that other threads or components trigger are put together by step relations or by event
  functions with an enabledness condition, which states the contract of the neighbours; invariants are
  proved by induction over these. Memory contents, allocation results, random numbers, the
  cryptographic functions and the name service are parameters. Recursive functions that model
  loops are total and need no fuel, except the loops that follow pointers of a tree, which are
  partial functions with results of type option, and which are shown to return on every tree that is
  linked properly.

  \<^bold>\<open>Not modelled.\<close> The event loop, sockets, processes and devices are calls into the operating system;
  only the order of events they produce matters here, and it is left open. lwIP and Lemon are third-party
  code; generated sources follow from their generators. Debug objects and logging have no effect on the
  data. Of tun2socks the TCP path is left out, which is glue around lwIP; of net.dns only the choice of
  the servers is modelled. The remaining programs (the main programs of client and server, NCD with its
  interpreter and modules, the DHCP and SOCKS clients, the UDP gateway) are not modelled yet.
\<close>

end
